(* ===== verification/Prelude.thy ===== *)
theory Prelude
  imports Main "HOL-Library.Word"
begin

text \<open>
  Shared vocabulary of the development: the result type of kernel code that may stop instead of
  returning, its sequencing operator and bounded loops, the abstraction of singly linked lists
  that are threaded through an array, and the locale of transition systems with an invariant.
\<close>

unbundle bit_operations_syntax

named_theorems jos_consts \<open>definitions of the numeric constants of the header files\<close>
named_theorems step_elims \<open>elimination rules for successful runs\<close>

section \<open>Code that returns, panics or gives up the processor\<close>

text \<open>
  A C function of the kernel either returns a value or stops: it panics (or a failed
  \<open>assert\<close> does), it dereferences a null pointer, or it hands the processor over and never
  comes back (\<open>env_run\<close>, the halt loop, the monitor), it loops for ever, it waits for
  a lock that another processor holds, or it accesses memory outside the object it was given, after
  which the model says nothing. Code of the user library can also panic, which ends the
  environment and not the kernel. Both outcomes carry the state reached.
\<close>

datatype stop = Panic | NullDeref | Running nat | Halted | InMonitor | Diverges | Spinning | Wild | UserPanic

type_synonym ('s, 'a) res = "(stop \<times> 's) + ('a \<times> 's)"

definition bindS :: "('s, 'a) res \<Rightarrow> ('a \<Rightarrow> 's \<Rightarrow> ('s, 'b) res) \<Rightarrow> ('s, 'b) res" where
  "bindS m f = (case m of Inl e \<Rightarrow> Inl e | Inr (a, s) \<Rightarrow> f a s)"

lemma bindS_Inl [simp]: "bindS (Inl e) f = Inl e"
  by (simp add: bindS_def)

lemma bindS_Inr [simp]: "bindS (Inr (a, s)) f = f a s"
  by (simp add: bindS_def)

lemma bindS_eq_Inr [step_elims]:
  "bindS m f = Inr r \<longleftrightarrow> (\<exists>a s. m = Inr (a, s) \<and> f a s = Inr r)"
  by (cases m) auto

lemma bindS_eq_Inl:
  "bindS m f = Inl e \<longleftrightarrow> m = Inl e \<or> (\<exists>a s. m = Inr (a, s) \<and> f a s = Inl e)"
  by (cases m) auto

lemma bindS_bindS: "bindS (bindS m f) g = bindS m (\<lambda>a s. bindS (f a s) g)"
  by (cases m) auto

lemma bindS_cong [fundef_cong]:
  "m = m' \<Longrightarrow> (\<And>a s. m' = Inr (a, s) \<Longrightarrow> f a s = f' a s) \<Longrightarrow> bindS m f = bindS m' f'"
  by (auto simp: bindS_def split: sum.splits)

text \<open>The state in which a run ends, whether it returns or stops.\<close>

definition res_state :: "('s, 'a) res \<Rightarrow> 's" where
  "res_state r = (case r of Inl (_, s) \<Rightarrow> s | Inr (_, s) \<Rightarrow> s)"

lemma res_state_simps [simp]: "res_state (Inl (e, s)) = s" "res_state (Inr (a, s)) = s"
  by (simp_all add: res_state_def)

lemma res_state_bindS:
  assumes "I (res_state m)" and "\<And>a s. m = Inr (a, s) \<Longrightarrow> I s \<Longrightarrow> I (res_state (f a s))"
  shows "I (res_state (bindS m f))"
proof (cases m)
  case (Inl e)
  then show ?thesis using assms(1) by (cases e) simp
next
  case (Inr r)
  then obtain a s where m: "m = Inr (a, s)" by (cases r) auto
  with assms show ?thesis by simp
qed

text \<open>\<open>for (i = ...; ...; i++) body(i)\<close> over the list of indices it visits.\<close>

fun for_each :: "('i \<Rightarrow> 's \<Rightarrow> ('s, unit) res) \<Rightarrow> 'i list \<Rightarrow> 's \<Rightarrow> ('s, unit) res" where
  "for_each body [] s = Inr ((), s)"
| "for_each body (i # is) s = bindS (body i s) (\<lambda>_ s'. for_each body is s')"

lemma for_each_total:
  assumes "P [] s"
    and "\<And>xs i ys s. is = xs @ i # ys \<Longrightarrow> P xs s \<Longrightarrow> \<exists>s'. body i s = Inr ((), s') \<and> P (xs @ [i]) s'"
  shows "\<exists>s'. for_each body is s = Inr ((), s') \<and> P is s'"
proof -
  have "P pre s \<Longrightarrow> is = pre @ xs \<Longrightarrow> \<exists>s'. for_each body xs s = Inr ((), s') \<and> P is s'" for pre xs s
  proof (induction xs arbitrary: pre s)
    case Nil
    then show ?case by simp
  next
    case (Cons i xs)
    from assms(2) [OF Cons.prems(2) Cons.prems(1)]
    obtain s1 where s1: "body i s = Inr ((), s1)" "P (pre @ [i]) s1" by blast
    from Cons.IH [OF s1(2)] Cons.prems(2)
    obtain s' where "for_each body xs s1 = Inr ((), s')" "P is s'" by auto
    with s1 show ?case by simp
  qed
  from this [of "[]" s "is"] assms(1) show ?thesis by simp
qed

lemma for_each_inv:
  assumes "I s" and "\<And>i s. i \<in> set is \<Longrightarrow> I s \<Longrightarrow> \<exists>s'. body i s = Inr ((), s') \<and> I s'"
  shows "\<exists>s'. for_each body is s = Inr ((), s') \<and> I s'"
  using for_each_total [of "\<lambda>_. I" s "is" body] assms by auto

section \<open>Signed division\<close>

text \<open>The operators \<open>/\<close> and \<open>%\<close> of C on signed integers: the quotient is rounded towards zero.\<close>

definition cdiv :: "int \<Rightarrow> int \<Rightarrow> int" where
  "cdiv x y = sgn x * sgn y * (\<bar>x\<bar> div \<bar>y\<bar>)"

definition cmod :: "int \<Rightarrow> int \<Rightarrow> int" where
  "cmod x y = sgn x * (\<bar>x\<bar> mod \<bar>y\<bar>)"

lemma cdiv_nat [simp]: "cdiv (int m) (int n) = int (m div n)"
  by (cases "m = 0"; cases "n = 0") (simp_all add: cdiv_def zdiv_int)

lemma cmod_nat [simp]: "cmod (int m) (int n) = int (m mod n)"
  by (cases "m = 0") (simp_all add: cmod_def zmod_int)

section \<open>Linked lists threaded through an array\<close>

text \<open>
  \<open>chain link h xs\<close>: following \<open>link\<close> from the head pointer \<open>h\<close> visits exactly the array
  indices \<open>xs\<close> and ends in a null pointer. Both free lists of the kernel have this shape.
\<close>

fun chain :: "(nat \<Rightarrow> nat option) \<Rightarrow> nat option \<Rightarrow> nat list \<Rightarrow> bool" where
  "chain link h [] \<longleftrightarrow> h = None"
| "chain link h (x # xs) \<longleftrightarrow> h = Some x \<and> chain link (link x) xs"

lemma chain_None [simp]: "chain link None xs \<longleftrightarrow> xs = []"
  by (cases xs) auto

lemma chain_Some: "chain link (Some x) xs \<longleftrightarrow> (\<exists>ys. xs = x # ys \<and> chain link (link x) ys)"
  by (cases xs) auto

lemma chain_unique: "chain link h xs \<Longrightarrow> chain link h ys \<Longrightarrow> xs = ys"
  by (induction xs arbitrary: h ys) (auto simp: chain_Some)

lemma chain_upd [simp]: "x \<notin> set xs \<Longrightarrow> chain (link(x := v)) h xs = chain link h xs"
  by (induction xs arbitrary: h) auto

lemma chain_cong: "(\<And>x. x \<in> set xs \<Longrightarrow> link x = link' x) \<Longrightarrow> chain link h xs = chain link' h xs"
  by (induction xs arbitrary: h) auto

lemma chain_append:
  "chain link h (xs @ ys) \<Longrightarrow> \<exists>h'. chain link h' ys"
  by (induction xs arbitrary: h) auto

lemma chain_hd_notin_tl: "chain link (link x) xs \<Longrightarrow> x \<notin> set xs"
proof
  assume ch: "chain link (link x) xs" and "x \<in> set xs"
  then obtain ys zs where xs: "xs = ys @ x # zs" by (meson split_list)
  with ch obtain h' where "chain link h' (x # zs)" using chain_append by blast
  then have "chain link (link x) zs" by simp
  from chain_unique [OF ch this] xs show False by simp
qed

lemma chain_distinct: "chain link h xs \<Longrightarrow> distinct xs"
  by (induction xs arbitrary: h) (auto dest: chain_hd_notin_tl)

section \<open>Transition systems and their invariants\<close>

locale trans_sys =
  fixes init :: "'s \<Rightarrow> bool" and step :: "'s \<Rightarrow> 's \<Rightarrow> bool" and inv :: "'s \<Rightarrow> bool"
  assumes inv_init: "init s \<Longrightarrow> inv s"
    and inv_step: "inv s \<Longrightarrow> step s t \<Longrightarrow> inv t"
begin

lemma inv_reachable:
  assumes "step\<^sup>*\<^sup>* s t" and "init s"
  shows "inv t"
  using assms by (induction rule: rtranclp_induct) (auto intro: inv_init inv_step)

end

end
