(* ===== verification/Mmu.thy ===== *)
theory Mmu
  imports Prelude
begin

text \<open>
  The x86 paging vocabulary of \<open>inc/mmu.h\<close>, the rounding macros of \<open>inc/types.h\<close> and the address
  space layout of \<open>inc/memlayout.h\<close>, all on 32-bit words. Page numbers and table indices are read
  as natural numbers, since the code uses them only to index arrays.
\<close>

section \<open>Macros\<close>

definition PGSIZE :: "32 word" where [jos_consts]: "PGSIZE = 4096"
definition PTSIZE :: "32 word" where [jos_consts]: "PTSIZE = 0x400000"
definition NPDENTRIES :: nat where [jos_consts]: "NPDENTRIES = 1024"
definition NPTENTRIES :: nat where [jos_consts]: "NPTENTRIES = 1024"
definition PTE_P :: "32 word" where [jos_consts]: "PTE_P = 0x001"
definition PTE_W :: "32 word" where [jos_consts]: "PTE_W = 0x002"
definition PTE_U :: "32 word" where [jos_consts]: "PTE_U = 0x004"
definition PTE_PWT :: "32 word" where [jos_consts]: "PTE_PWT = 0x008"
definition PTE_PCD :: "32 word" where [jos_consts]: "PTE_PCD = 0x010"
definition PTE_AVAIL :: "32 word" where [jos_consts]: "PTE_AVAIL = 0xE00"

definition PTE_SYSCALL :: "32 word" where
  [jos_consts]: "PTE_SYSCALL = (PTE_AVAIL OR PTE_P OR PTE_W OR PTE_U)"

definition PGNUM :: "32 word \<Rightarrow> nat" where
  "PGNUM la = unat (drop_bit 12 la)"

definition PDX :: "32 word \<Rightarrow> nat" where
  "PDX la = unat (drop_bit 22 la AND 0x3FF)"

definition PTX :: "32 word \<Rightarrow> nat" where
  "PTX la = unat (drop_bit 12 la AND 0x3FF)"

definition PGOFF :: "32 word \<Rightarrow> 32 word" where
  "PGOFF la = la AND 0xFFF"

definition PGADDR :: "nat \<Rightarrow> nat \<Rightarrow> 32 word \<Rightarrow> 32 word" where
  "PGADDR d t off = (push_bit 22 (of_nat d) OR push_bit 12 (of_nat t) OR off)"

definition PTE_ADDR :: "32 word \<Rightarrow> 32 word" where
  "PTE_ADDR pte = pte AND NOT 0xFFF"

definition ROUNDDOWN :: "32 word \<Rightarrow> 32 word \<Rightarrow> 32 word" where
  "ROUNDDOWN a n = a - a mod n"

definition ROUNDUP :: "32 word \<Rightarrow> 32 word \<Rightarrow> 32 word" where
  "ROUNDUP a n = ROUNDDOWN (a + n - 1) n"

section \<open>Layout of the address space\<close>

definition KERNBASE :: "32 word" where [jos_consts]: "KERNBASE = 0xF0000000"
definition IOPHYSMEM :: "32 word" where [jos_consts]: "IOPHYSMEM = 0x0A0000"
definition EXTPHYSMEM :: "32 word" where [jos_consts]: "EXTPHYSMEM = 0x100000"
definition KSTACKTOP :: "32 word" where [jos_consts]: "KSTACKTOP = KERNBASE"
definition KSTKSIZE :: "32 word" where [jos_consts]: "KSTKSIZE = 8 * PGSIZE"
definition KSTKGAP :: "32 word" where [jos_consts]: "KSTKGAP = 8 * PGSIZE"
definition MMIOLIM :: "32 word" where [jos_consts]: "MMIOLIM = KSTACKTOP - PTSIZE"
definition MMIOBASE :: "32 word" where [jos_consts]: "MMIOBASE = MMIOLIM - PTSIZE"
definition ULIM :: "32 word" where [jos_consts]: "ULIM = MMIOBASE"
definition UVPT :: "32 word" where [jos_consts]: "UVPT = ULIM - PTSIZE"
definition UPAGES :: "32 word" where [jos_consts]: "UPAGES = UVPT - PTSIZE"
definition UENVS :: "32 word" where [jos_consts]: "UENVS = UPAGES - PTSIZE"
definition UTOP :: "32 word" where [jos_consts]: "UTOP = UENVS"
definition UXSTACKTOP :: "32 word" where [jos_consts]: "UXSTACKTOP = UTOP"
definition USTACKTOP :: "32 word" where [jos_consts]: "USTACKTOP = UTOP - 2 * PGSIZE"
definition MPENTRY_PADDR :: "32 word" where [jos_consts]: "MPENTRY_PADDR = 0x7000"

section \<open>Arithmetic of page numbers, indices and entries\<close>

lemma unat_less32 [simp]: "unat (w :: 32 word) < 4294967296"
  using unsigned_less [of w, where ?'a = nat] by simp

lemma unat_and_mask: "unat ((w :: 32 word) AND mask n) = unat w mod 2 ^ n"
  by (metis take_bit_eq_mask take_bit_eq_mod unsigned_take_bit_eq)

lemma unat_drop_bit: "unat (drop_bit n (w :: 32 word)) = unat w div 2 ^ n"
  by (metis drop_bit_eq_div unat_drop_bit_eq)

lemma PGNUM_div: "PGNUM la = unat la div 4096"
  by (simp only: PGNUM_def unat_drop_bit) simp

lemma PDX_div: "PDX la = unat la div 0x400000"
proof -
  have "PDX la = unat la div 2 ^ 22 mod 2 ^ 10"
    using unat_and_mask [of "drop_bit 22 la" 10]
    by (simp only: PDX_def mask_eq_exp_minus_1 unat_drop_bit) simp
  then show ?thesis using unat_less32 [of la] by (simp add: less_mult_imp_div_less)
qed

lemma PTX_mod: "PTX la = unat la div 4096 mod 1024"
  using unat_and_mask [of "drop_bit 12 la" 10]
  by (simp only: PTX_def mask_eq_exp_minus_1 unat_drop_bit) simp

lemma PDX_less [simp]: "PDX la < 1024"
  using unat_less32 [of la] by (simp add: PDX_div less_mult_imp_div_less)

lemma PTX_less [simp]: "PTX la < 1024"
  by (simp add: PTX_mod)

lemma PGNUM_less [simp]: "PGNUM la < 0x100000"
  using unat_less32 [of la] by (simp add: PGNUM_div less_mult_imp_div_less)

lemma PGNUM_PDX_PTX: "PGNUM la = PDX la * 1024 + PTX la"
  by (simp add: PGNUM_div PDX_div PTX_mod div_mult2_eq [of _ 4096 1024, simplified])

text \<open>Two addresses use the same slot of the same page table iff they lie in the same page.\<close>

lemma same_slot_iff: "PDX a = PDX b \<and> PTX a = PTX b \<longleftrightarrow> PGNUM a = PGNUM b"
proof
  assume "PGNUM a = PGNUM b"
  then have "PGNUM a div 1024 = PGNUM b div 1024" "PGNUM a mod 1024 = PGNUM b mod 1024" by simp_all
  then show "PDX a = PDX b \<and> PTX a = PTX b" by (simp add: PGNUM_PDX_PTX)
qed (simp add: PGNUM_PDX_PTX)

lemma PGNUM_PTE_ADDR [simp]: "PGNUM (PTE_ADDR w) = PGNUM w"
proof -
  have m: "(0xFFF :: 32 word) = mask 12" by (simp add: mask_eq_exp_minus_1)
  have "drop_bit 12 (PTE_ADDR w) = drop_bit 12 w"
    unfolding PTE_ADDR_def m
    by (rule bit_word_eqI) (auto simp: bit_simps dest: bit_imp_le_length)
  then show ?thesis by (simp add: PGNUM_def)
qed

text \<open>Permission bits occupy the low twelve bits of an entry.\<close>

definition flags_only :: "32 word \<Rightarrow> bool" where
  "flags_only w \<longleftrightarrow> drop_bit 12 w = 0"

lemma PGNUM_flags: "flags_only w \<Longrightarrow> PGNUM (v OR w) = PGNUM v"
  by (simp add: PGNUM_def flags_only_def)

lemma flags_only_or [simp]: "flags_only (v OR w) \<longleftrightarrow> flags_only v \<and> flags_only w"
  by (simp add: flags_only_def or_eq_0_iff)

lemma flags_only_consts [simp]:
  "flags_only PTE_P" "flags_only PTE_W" "flags_only PTE_U" "flags_only PTE_PWT" "flags_only PTE_PCD"
  by (simp_all add: flags_only_def jos_consts)

lemma flags_only_syscall: "w AND NOT PTE_SYSCALL = 0 \<Longrightarrow> flags_only w"
proof -
  assume "w AND NOT PTE_SYSCALL = 0"
  then have "\<not> bit (w AND NOT PTE_SYSCALL) n" for n by simp
  then have "w = w AND PTE_SYSCALL" by (intro bit_word_eqI) (auto simp: bit_simps)
  then have "drop_bit 12 w = drop_bit 12 w AND drop_bit 12 PTE_SYSCALL" by (metis drop_bit_and)
  moreover have "drop_bit 12 PTE_SYSCALL = 0" by (simp add: jos_consts)
  ultimately show ?thesis by (simp add: flags_only_def)
qed

lemma and_PTE_P_iff [simp]:
  "w AND PTE_P = PTE_P \<longleftrightarrow> bit w 0" "w AND PTE_P = 0 \<longleftrightarrow> \<not> bit w 0"
  by (auto simp: PTE_P_def and_one_eq bit_0 odd_iff_mod_2_eq_one even_iff_mod_2_eq_zero)

lemma unat_UTOP: "unat UTOP = 0xEEC00000" and PDX_UTOP: "PDX UTOP = 955"
  by (simp_all add: jos_consts PDX_div)

text \<open>\<open>UTOP\<close> is aligned to a whole page table, so the user part is a range of directory entries.\<close>

lemma below_UTOP_iff: "va < UTOP \<longleftrightarrow> PDX va < PDX UTOP"
proof -
  have "unat va < 955 * 0x400000 \<longleftrightarrow> unat va div 0x400000 < 955"
    by (simp add: div_less_iff_less_mult)
  then show ?thesis by (simp add: word_less_nat_alt unat_UTOP PDX_UTOP) (simp add: PDX_div)
qed

section \<open>Rounding\<close>

lemma unat_ROUNDDOWN: "unat (ROUNDDOWN a PGSIZE) = unat a div 4096 * 4096"
proof -
  have "a mod PGSIZE \<le> a" by (simp add: word_le_nat_alt unat_mod)
  then have "unat (a - a mod PGSIZE) = unat a - unat a mod 4096"
    by (simp add: unat_sub unat_mod PGSIZE_def)
  then show ?thesis by (simp add: ROUNDDOWN_def minus_mod_eq_div_mult)
qed

lemma unat_ROUNDUP:
  assumes "unat a + 4095 < 2 ^ 32"
  shows "unat (ROUNDUP a PGSIZE) = (unat a + 4095) div 4096 * 4096"
proof -
  have "unat (a + PGSIZE - 1) = unat a + 4095"
    using assms by (simp add: PGSIZE_def unat_word_ariths)
  then show ?thesis by (simp add: ROUNDUP_def unat_ROUNDDOWN)
qed

lemma unat_next_page:
  assumes "unat a < 0xFFFFF000"
  shows "unat (ROUNDDOWN a PGSIZE + PGSIZE) = (unat a div 4096 + 1) * 4096"
proof -
  have "unat a div 4096 < 0xFFFFF" using assms by (simp add: div_less_iff_less_mult)
  then show ?thesis by (simp add: unat_word_ariths unat_ROUNDDOWN) (simp add: PGSIZE_def)
qed

section \<open>Physical pages\<close>

definition page2pa :: "nat \<Rightarrow> 32 word" where
  "page2pa pp = push_bit 12 (of_nat pp)"

lemma PGNUM_page2pa [simp]: "pp < 0x100000 \<Longrightarrow> PGNUM (page2pa pp) = pp"
  by (simp add: PGNUM_div page2pa_def push_bit_eq_mult unat_word_ariths unat_of_nat)

lemma bit0_page2pa [simp]: "\<not> bit (page2pa pp) 0"
  by (simp add: page2pa_def bit_simps)

lemma bit_small_nat: "t < 1024 \<Longrightarrow> bit (t :: nat) k \<Longrightarrow> k < 10"
  using take_bit_nat_eq_self [of t 10] bit_take_bit_iff [of 10 t k] by simp

lemma unat_PGADDR:
  assumes "d < 1024" "t < 1024"
  shows "unat (PGADDR d t 0) = d * 0x400000 + t * 0x1000"
proof -
  have "push_bit 22 (of_nat d :: 32 word) AND push_bit 12 (of_nat t) = 0"
    using assms(2) by (intro bit_word_eqI) (auto simp: bit_simps dest: bit_small_nat)
  then have "PGADDR d t 0 = push_bit 22 (of_nat d) + push_bit 12 (of_nat t)"
    by (simp add: PGADDR_def disjunctive_add_eq_or)
  with assms show ?thesis
    by (simp add: push_bit_eq_mult unat_word_ariths unat_of_nat)
qed

lemma PDX_PGADDR [simp]: "d < 1024 \<Longrightarrow> t < 1024 \<Longrightarrow> PDX (PGADDR d t 0) = d"
  by (simp add: PDX_div unat_PGADDR)

lemma PTX_PGADDR [simp]: "d < 1024 \<Longrightarrow> t < 1024 \<Longrightarrow> PTX (PGADDR d t 0) = t"
  by (simp add: PTX_mod unat_PGADDR)

end
