(* ===== verification/Pmap.thy ===== *)
theory Pmap
  imports Mmu
begin

text \<open>
  \<open>kern/pmap.c\<close>: the boot-time allocator, the physical page allocator with its reference counts and
  free list, and the operations on two-level page tables. Pages are named by their page number, so
  a \<open>struct PageInfo *\<close>, the kernel address of a page and a \<open>pde_t *\<close> are all numbers and a
  pointer to a table entry is a page number with an index into that page.
\<close>

section \<open>State\<close>

record PageInfo =
  pp_link :: "nat option"
  pp_ref :: "16 word"

text \<open>
  \<open>pmem\<close> is physical memory as pages of 1024 words; \<open>tlb\<close> holds the virtual page numbers whose
  translation the processor may have cached; \<open>kend\<close> is the linker symbol \<open>end\<close>; \<open>nextfree\<close> and
  \<open>mmio_base\<close> are the static locals of \<open>boot_alloc\<close> and \<open>mmio_map_region\<close>; \<open>uninit\<close> is the value
  an uninitialised local \<open>pte_t *\<close> variable holds when its address is passed to \<open>page_lookup\<close>.
\<close>

record vm =
  npages :: nat
  npages_basemem :: nat
  kend :: "32 word"
  kern_pgdir :: nat
  pages :: "nat \<Rightarrow> PageInfo"
  page_free_list :: "nat option"
  pmem :: "nat \<Rightarrow> nat \<Rightarrow> 32 word"
  tlb :: "nat set"
  nextfree :: "32 word"
  mmio_base :: "32 word"
  user_mem_check_addr :: "32 word"
  uninit :: "32 word"

type_synonym ptep = "nat \<times> nat"

definition E_BAD_ENV :: int where [jos_consts]: "E_BAD_ENV = 2"
definition E_INVAL :: int where [jos_consts]: "E_INVAL = 3"
definition E_NO_MEM :: int where [jos_consts]: "E_NO_MEM = 4"
definition E_NO_FREE_ENV :: int where [jos_consts]: "E_NO_FREE_ENV = 5"
definition E_FAULT :: int where [jos_consts]: "E_FAULT = 6"
definition E_IPC_NOT_RECV :: int where [jos_consts]: "E_IPC_NOT_RECV = 7"

definition ALLOC_ZERO :: "32 word" where [jos_consts]: "ALLOC_ZERO = 1"

definition set_page :: "nat \<Rightarrow> (PageInfo \<Rightarrow> PageInfo) \<Rightarrow> 'z vm_scheme \<Rightarrow> 'z vm_scheme" where
  "set_page p f s = s\<lparr>pages := (pages s)(p := f (pages s p))\<rparr>"

definition load :: "ptep \<Rightarrow> 'z vm_scheme \<Rightarrow> 32 word" where
  "load q s = pmem s (fst q) (snd q)"

definition store :: "ptep \<Rightarrow> 32 word \<Rightarrow> 'z vm_scheme \<Rightarrow> 'z vm_scheme" where
  "store q v s = s\<lparr>pmem := (pmem s)(fst q := (pmem s (fst q))(snd q := v))\<rparr>"

definition zero_page :: "nat \<Rightarrow> 'z vm_scheme \<Rightarrow> 'z vm_scheme" where
  "zero_page p s = s\<lparr>pmem := (pmem s)(p := (\<lambda>_. 0))\<rparr>"

section \<open>Address conversions of \<open>kern/pmap.h\<close>\<close>

definition KADDR :: "32 word \<Rightarrow> 'z vm_scheme \<Rightarrow> ('z vm_scheme, nat) res" where
  "KADDR pa s = (if PGNUM pa \<ge> npages s then Inl (Panic, s) else Inr (PGNUM pa, s))"

definition pa2page :: "32 word \<Rightarrow> 'z vm_scheme \<Rightarrow> ('z vm_scheme, nat) res" where
  "pa2page pa s = (if PGNUM pa \<ge> npages s then Inl (Panic, s) else Inr (PGNUM pa, s))"

definition page2kva :: "nat \<Rightarrow> 'z vm_scheme \<Rightarrow> ('z vm_scheme, nat) res" where
  "page2kva pp s = KADDR (page2pa pp) s"

section \<open>Boot-time allocation and the initial free list\<close>

definition boot_alloc :: "32 word \<Rightarrow> 'z vm_scheme \<Rightarrow> ('z vm_scheme, 32 word) res" where
  "boot_alloc n s =
     (let s0 = (if nextfree s = 0 then s\<lparr>nextfree := ROUNDUP (kend s) PGSIZE\<rparr> else s)
      in if n > 0 then
           let result = nextfree s0;
               s1 = s0\<lparr>nextfree := ROUNDUP (nextfree s0 + n) PGSIZE\<rparr>
           in if nextfree s1 - KERNBASE > of_nat (npages s) * PGSIZE then Inl (Panic, s1)
              else Inr (result, s1)
         else Inr (nextfree s0, s0))"

definition page_init_body :: "nat \<Rightarrow> 'z vm_scheme \<Rightarrow> ('z vm_scheme, unit) res" where
  "page_init_body i s =
     (let in_use = (\<lambda>s. Inr ((), set_page i (\<lambda>pi. pi\<lparr>pp_ref := 0, pp_link := None\<rparr>) s));
          rest = (\<lambda>s. if i = unat (MPENTRY_PADDR div PGSIZE) then in_use s
                      else Inr ((), (set_page i (\<lambda>pi. pi\<lparr>pp_ref := 0, pp_link := page_free_list s\<rparr>) s)
                                      \<lparr>page_free_list := Some i\<rparr>))
      in if i = 0 \<or> unat (IOPHYSMEM div PGSIZE) \<le> i \<and> i < unat (EXTPHYSMEM div PGSIZE) then in_use s
         else if unat (EXTPHYSMEM div PGSIZE) \<le> i then
           bindS (boot_alloc 0 s) (\<lambda>nf s.
             if i < unat ((nf - KERNBASE) div PGSIZE) then in_use s else rest s)
         else rest s)"

definition page_init :: "'z vm_scheme \<Rightarrow> ('z vm_scheme, unit) res" where
  "page_init s = for_each page_init_body [0..<npages s] s"

section \<open>The page allocator\<close>

definition page_alloc :: "32 word \<Rightarrow> 'z vm_scheme \<Rightarrow> ('z vm_scheme, nat option) res" where
  "page_alloc alloc_flags s =
     (case page_free_list s of
        None \<Rightarrow> Inr (None, s)
      | Some p \<Rightarrow>
          let s1 = s\<lparr>page_free_list := pp_link (pages s p)\<rparr>;
              s2 = set_page p (\<lambda>pi. pi\<lparr>pp_link := None\<rparr>) s1
          in if alloc_flags AND ALLOC_ZERO \<noteq> 0 then
               bindS (page2kva p s2) (\<lambda>kva s. Inr (Some p, zero_page kva s))
             else Inr (Some p, s2))"

definition page_free :: "nat \<Rightarrow> 'z vm_scheme \<Rightarrow> ('z vm_scheme, unit) res" where
  "page_free pp s =
     (if pp_link (pages s pp) \<noteq> None \<or> pp_ref (pages s pp) \<noteq> 0 then Inl (Panic, s)
      else Inr ((), (set_page pp (\<lambda>pi. pi\<lparr>pp_link := page_free_list s\<rparr>) s)\<lparr>page_free_list := Some pp\<rparr>))"

definition page_decref :: "nat \<Rightarrow> 'z vm_scheme \<Rightarrow> ('z vm_scheme, unit) res" where
  "page_decref pp s =
     (let s1 = set_page pp (\<lambda>pi. pi\<lparr>pp_ref := pp_ref pi - 1\<rparr>) s
      in if pp_ref (pages s1 pp) = 0 then page_free pp s1 else Inr ((), s1))"

section \<open>Page tables\<close>

definition pgdir_walk :: "nat \<Rightarrow> 32 word \<Rightarrow> bool \<Rightarrow> 'z vm_scheme \<Rightarrow> ('z vm_scheme, ptep option) res" where
  "pgdir_walk pgdir va create s =
     (let entry = (\<lambda>s. bindS (KADDR (PTE_ADDR (load (pgdir, PDX va) s)) s)
                        (\<lambda>pt s. Inr (Some (pt, PTX va), s)))
      in if load (pgdir, PDX va) s AND PTE_P \<noteq> PTE_P then
           if \<not> create then Inr (None, s)
           else bindS (page_alloc ALLOC_ZERO s) (\<lambda>new_pg_table s.
             case new_pg_table of
               None \<Rightarrow> Inr (None, s)
             | Some pt \<Rightarrow>
                 entry (store (pgdir, PDX va) (page2pa pt OR PTE_P)
                          (set_page pt (\<lambda>pi. pi\<lparr>pp_ref := pp_ref pi + 1\<rparr>) s)))
         else entry s)"

text \<open>
  The loop of \<open>boot_map_region\<close> counts \<open>i\<close> up in steps of \<open>PGSIZE\<close> with 32-bit wrap-around; for a
  size above \<open>0xFFFFF000\<close> the counter would wrap before it reaches the size.
\<close>

definition page_offsets :: "32 word \<Rightarrow> 32 word list" where
  "page_offsets sz = map (\<lambda>k. of_nat k * PGSIZE) [0..<(unat sz + 4095) div 4096]"

definition boot_map_region ::
    "nat \<Rightarrow> 32 word \<Rightarrow> 32 word \<Rightarrow> 32 word \<Rightarrow> 32 word \<Rightarrow> 'z vm_scheme \<Rightarrow> ('z vm_scheme, unit) res" where
  "boot_map_region pgdir va sz pa perm s =
     (if va + sz < va then Inl (Panic, s)
      else if sz > 0xFFFFF000 then Inl (Diverges, s)
      else for_each (\<lambda>i s. bindS (pgdir_walk pgdir (va + i) True s) (\<lambda>ptep s.
             case ptep of
               None \<Rightarrow> Inr ((), s)
             | Some q \<Rightarrow>
                 let s1 = store q ((pa + i) OR perm OR PTE_P) s
                 in Inr ((), store (pgdir, PDX (va + i)) (load (pgdir, PDX (va + i)) s1 OR perm OR PTE_P) s1)))
             (page_offsets sz) s)"

text \<open>
  \<open>page_lookup\<close> stores the entry's address through \<open>pte_store\<close> only if the variable it points to
  holds a non-zero value already: the second component of the result is that variable's new value,
  with \<open>None\<close> for the null pointer.
\<close>

definition page_lookup ::
    "nat \<Rightarrow> 32 word \<Rightarrow> 'z vm_scheme \<Rightarrow> ('z vm_scheme, nat option \<times> ptep option) res" where
  "page_lookup pgdir va s =
     bindS (pgdir_walk pgdir va False s) (\<lambda>ptep s.
       case ptep of
         None \<Rightarrow> Inr ((None, None), s)
       | Some q \<Rightarrow>
           if load q s AND PTE_P \<noteq> PTE_P then Inr ((None, None), s)
           else bindS (pa2page (PTE_ADDR (load q s)) s) (\<lambda>pp s.
                  Inr ((Some pp, if uninit s \<noteq> 0 then Some q else None), s)))"

definition tlb_invalidate :: "nat \<Rightarrow> 32 word \<Rightarrow> 'z vm_scheme \<Rightarrow> 'z vm_scheme" where
  "tlb_invalidate pgdir va s = s\<lparr>tlb := tlb s - {PGNUM va}\<rparr>"

definition page_remove :: "nat \<Rightarrow> 32 word \<Rightarrow> 'z vm_scheme \<Rightarrow> ('z vm_scheme, unit) res" where
  "page_remove pgdir va s =
     bindS (page_lookup pgdir va s) (\<lambda>(pp, ptep) s.
       case pp of
         None \<Rightarrow> Inr ((), s)
       | Some p \<Rightarrow>
           bindS (page_decref p s) (\<lambda>_ s.
             case ptep of
               None \<Rightarrow> Inl (NullDeref, s)
             | Some q \<Rightarrow> Inr ((), tlb_invalidate pgdir va (store q 0 s))))"

definition page_insert ::
    "nat \<Rightarrow> nat \<Rightarrow> 32 word \<Rightarrow> 32 word \<Rightarrow> 'z vm_scheme \<Rightarrow> ('z vm_scheme, int) res" where
  "page_insert pgdir pp va perm s =
     bindS (pgdir_walk pgdir va True s) (\<lambda>ptep s.
       case ptep of
         None \<Rightarrow> Inr (- E_NO_MEM, s)
       | Some q \<Rightarrow>
           let s1 = set_page pp (\<lambda>pi. pi\<lparr>pp_ref := pp_ref pi + 1\<rparr>) s
           in bindS (if load q s1 AND PTE_P = PTE_P then page_remove pgdir va s1 else Inr ((), s1))
                (\<lambda>_ s.
                  let s2 = store q (page2pa pp OR perm OR PTE_P) s
                  in Inr (0, store (pgdir, PDX va) (load (pgdir, PDX va) s2 OR perm) s2)))"

definition mmio_map_region :: "32 word \<Rightarrow> 32 word \<Rightarrow> 'z vm_scheme \<Rightarrow> ('z vm_scheme, 32 word) res" where
  "mmio_map_region pa sz0 s =
     (let sz = ROUNDUP sz0 PGSIZE; base = mmio_base s
      in if base + sz > MMIOLIM then Inl (Panic, s)
         else bindS (boot_map_region (kern_pgdir s) base sz pa (PTE_PCD OR PTE_PWT OR PTE_W) s)
                (\<lambda>_ s. Inr (base, s\<lparr>mmio_base := base + sz\<rparr>)))"

text \<open>What \<open>check_va2pa\<close> computes: the translation the hardware would use, or all ones.\<close>

definition check_va2pa :: "nat \<Rightarrow> 32 word \<Rightarrow> 'z vm_scheme \<Rightarrow> ('z vm_scheme, 32 word) res" where
  "check_va2pa pgdir va s =
     (if load (pgdir, PDX va) s AND PTE_P = 0 then Inr (- 1, s)
      else bindS (KADDR (PTE_ADDR (load (pgdir, PDX va) s)) s) (\<lambda>p s.
             if load (p, PTX va) s AND PTE_P = 0 then Inr (- 1, s)
             else Inr (PTE_ADDR (load (p, PTX va) s), s)))"

section \<open>Checking user addresses\<close>

function user_mem_check_loop ::
    "nat \<Rightarrow> 32 word \<Rightarrow> 32 word \<Rightarrow> 32 word \<Rightarrow> 'z vm_scheme \<Rightarrow> ('z vm_scheme, int) res" where
  "user_mem_check_loop pgdir perm mem_start mem_end s =
     (if mem_start < mem_end then
        if mem_start \<ge> ULIM then Inr (- E_FAULT, s\<lparr>user_mem_check_addr := mem_start\<rparr>)
        else bindS (pgdir_walk pgdir mem_start False s) (\<lambda>pte s.
          if (case pte of None \<Rightarrow> True | Some q \<Rightarrow> load q s AND perm \<noteq> perm)
          then Inr (- E_FAULT, s\<lparr>user_mem_check_addr := mem_start\<rparr>)
          else user_mem_check_loop pgdir perm (ROUNDDOWN mem_start PGSIZE + PGSIZE) mem_end s)
      else Inr (0, s))"
  by pat_completeness auto
termination
proof (relation "measure (\<lambda>(pgdir, perm, mem_start, mem_end, s). unat ULIM - unat mem_start)", goal_cases)
  case (2 pgdir perm mem_start mem_end s a sa)
  then have "unat mem_start < 0xEF800000" by (simp add: jos_consts word_le_nat_alt)
  then have "unat mem_start < unat (ROUNDDOWN mem_start PGSIZE + PGSIZE)"
    by (simp add: unat_next_page)
  then show ?case using 2 by (simp add: word_less_nat_alt word_le_nat_alt)
qed simp

declare user_mem_check_loop.simps [simp del]

definition user_mem_check ::
    "nat \<Rightarrow> 32 word \<Rightarrow> 32 word \<Rightarrow> 32 word \<Rightarrow> 'z vm_scheme \<Rightarrow> ('z vm_scheme, int) res" where
  "user_mem_check pgdir va len perm s =
     user_mem_check_loop pgdir (perm OR PTE_P) va (ROUNDUP (va + len) PGSIZE) s"

end
