(* ===== verification/Vm.thy ===== *)
theory Vm
  imports Pmap
begin

text \<open>
  The invariant that ties page tables, reference counts and the free list together, and the proof
  that the operations of \<open>kern/pmap.c\<close> keep it. An address space is seen abstractly as a partial
  function from virtual page numbers to page table entries.
\<close>

section \<open>Abstract view of the page tables\<close>

definition pt_of :: "'z vm_scheme \<Rightarrow> nat \<Rightarrow> nat \<Rightarrow> nat option" where
  "pt_of s pd i = (if bit (pmem s pd i) 0 then Some (PGNUM (pmem s pd i)) else None)"

definition pg_of :: "'z vm_scheme \<Rightarrow> nat \<Rightarrow> nat \<Rightarrow> nat \<Rightarrow> 32 word option" where
  "pg_of s pd i j =
     (case pt_of s pd i of
        None \<Rightarrow> None
      | Some pt \<Rightarrow> if bit (pmem s pt j) 0 then Some (pmem s pt j) else None)"

text \<open>\<open>slots pds\<close> are the entries of the user parts of the address spaces \<open>pds\<close>.\<close>

definition slots :: "nat set \<Rightarrow> (nat \<times> nat \<times> nat) set" where
  "slots pds = pds \<times> {..<PDX UTOP} \<times> {..<NPTENTRIES}"

definition mappings :: "nat set \<Rightarrow> 'z vm_scheme \<Rightarrow> nat \<Rightarrow> (nat \<times> nat \<times> nat) set" where
  "mappings pds s p =
     {(pd, i, j). (pd, i, j) \<in> slots pds \<and> map_option PGNUM (pg_of s pd i j) = Some p}"

definition page_tables :: "nat set \<Rightarrow> 'z vm_scheme \<Rightarrow> nat set" where
  "page_tables pds s = {pt. \<exists>pd\<in>pds. \<exists>i<PDX UTOP. pt_of s pd i = Some pt}"

section \<open>The invariant\<close>

definition fl_inv :: "nat list \<Rightarrow> 'z vm_scheme \<Rightarrow> bool" where
  "fl_inv fl s \<longleftrightarrow>
     chain (\<lambda>p. pp_link (pages s p)) (page_free_list s) fl \<and>
     (\<forall>p. p \<in> set fl \<longrightarrow> p < npages s \<and> pp_ref (pages s p) = 0) \<and>
     (\<forall>p. p \<notin> set fl \<longrightarrow> pp_link (pages s p) = None)"

definition pd_inv :: "nat set \<Rightarrow> nat list \<Rightarrow> 'z vm_scheme \<Rightarrow> bool" where
  "pd_inv pds fl s \<longleftrightarrow>
     finite pds \<and> (\<forall>pd\<in>pds. pd < npages s \<and> pd \<notin> set fl \<and> pp_ref (pages s pd) = 1)"

definition pt_inv :: "nat set \<Rightarrow> nat list \<Rightarrow> 'z vm_scheme \<Rightarrow> bool" where
  "pt_inv pds fl s \<longleftrightarrow>
     (\<forall>pd\<in>pds. \<forall>i<PDX UTOP. \<forall>pt. pt_of s pd i = Some pt \<longrightarrow>
        pt < npages s \<and> pt \<notin> set fl \<and> pt \<notin> pds \<and> pp_ref (pages s pt) = 1 \<and>
        (\<forall>pd'\<in>pds. \<forall>i'<PDX UTOP. pt_of s pd' i' = Some pt \<longrightarrow> pd' = pd \<and> i' = i))"

text \<open>
  \<open>ex p\<close> counts references to page \<open>p\<close> that running kernel code holds beside those in the tables.
\<close>

definition rc_inv :: "nat set \<Rightarrow> nat list \<Rightarrow> (nat \<Rightarrow> nat) \<Rightarrow> 'z vm_scheme \<Rightarrow> bool" where
  "rc_inv pds fl ex s \<longleftrightarrow>
     (\<forall>p. card (mappings pds s p) + ex p > 0 \<longrightarrow>
        p < npages s \<and> p \<notin> set fl \<and> p \<notin> pds \<and> p \<notin> page_tables pds s \<and>
        unat (pp_ref (pages s p)) = card (mappings pds s p) + ex p)"

definition vm_inv :: "nat set \<Rightarrow> nat list \<Rightarrow> (nat \<Rightarrow> nat) \<Rightarrow> 'z vm_scheme \<Rightarrow> bool" where
  "vm_inv pds fl ex s \<longleftrightarrow>
     npages s \<le> 0x100000 \<and> fl_inv fl s \<and> pd_inv pds fl s \<and> pt_inv pds fl s \<and> rc_inv pds fl ex s"

lemma finite_mappings: "finite pds \<Longrightarrow> finite (mappings pds s p)"
  by (rule finite_subset [of _ "slots pds"]) (auto simp: mappings_def slots_def)

lemma mapped_slot:
  "(pd, i, j) \<in> slots pds \<Longrightarrow> pg_of s pd i j = Some w \<Longrightarrow> (pd, i, j) \<in> mappings pds s (PGNUM w)"
  by (auto simp: mappings_def)

lemma slots_va: "pd \<in> pds \<Longrightarrow> va < UTOP \<Longrightarrow> (pd, PDX va, PTX va) \<in> slots pds"
  by (simp add: slots_def below_UTOP_iff NPTENTRIES_def)

lemma vm_inv_finite: "vm_inv pds fl ex s \<Longrightarrow> finite (mappings pds s p)"
  by (simp add: vm_inv_def pd_inv_def finite_mappings)

lemma vm_inv_rc:
  assumes "vm_inv pds fl ex s" "card (mappings pds s p) + ex p > 0"
  shows "p < npages s" "p \<notin> set fl" "p \<notin> pds" "p \<notin> page_tables pds s"
    "unat (pp_ref (pages s p)) = card (mappings pds s p) + ex p"
proof -
  have "rc_inv pds fl ex s" using assms(1) by (simp add: vm_inv_def)
  from this [unfolded rc_inv_def, rule_format, OF assms(2)]
  show "p < npages s" "p \<notin> set fl" "p \<notin> pds" "p \<notin> page_tables pds s"
    "unat (pp_ref (pages s p)) = card (mappings pds s p) + ex p" by simp_all
qed

lemma vm_inv_mapped:
  assumes "vm_inv pds fl ex s" "(pd, i, j) \<in> slots pds" "pg_of s pd i j = Some w"
  shows "PGNUM w < npages s" "PGNUM w \<notin> set fl" "PGNUM w \<notin> pds" "PGNUM w \<notin> page_tables pds s"
    "unat (pp_ref (pages s (PGNUM w))) = card (mappings pds s (PGNUM w)) + ex (PGNUM w)"
    "card (mappings pds s (PGNUM w)) > 0"
proof -
  show pos: "card (mappings pds s (PGNUM w)) > 0"
    using mapped_slot [OF assms(2,3)] vm_inv_finite [OF assms(1)] by (auto simp: card_gt_0_iff)
  then have "card (mappings pds s (PGNUM w)) + ex (PGNUM w) > 0" by simp
  from vm_inv_rc [OF assms(1) this]
  show "PGNUM w < npages s" "PGNUM w \<notin> set fl" "PGNUM w \<notin> pds" "PGNUM w \<notin> page_tables pds s"
    "unat (pp_ref (pages s (PGNUM w))) = card (mappings pds s (PGNUM w)) + ex (PGNUM w)" .
qed

lemma vm_inv_pt:
  assumes "vm_inv pds fl ex s" "pd \<in> pds" "i < PDX UTOP" "pt_of s pd i = Some pt"
  shows "pt < npages s" "pt \<notin> set fl" "pt \<notin> pds" "pp_ref (pages s pt) = 1" "pt \<in> page_tables pds s"
    "\<And>pd' i'. pd' \<in> pds \<Longrightarrow> i' < PDX UTOP \<Longrightarrow> pt_of s pd' i' = Some pt \<Longrightarrow> pd' = pd \<and> i' = i"
proof -
  have "pt_inv pds fl s" using assms(1) by (simp add: vm_inv_def)
  note * = this [unfolded pt_inv_def, rule_format, OF assms(2-4)]
  then show "pt < npages s" "pt \<notin> set fl" "pt \<notin> pds" "pp_ref (pages s pt) = 1" by simp_all
  from * show "\<And>pd' i'. pd' \<in> pds \<Longrightarrow> i' < PDX UTOP \<Longrightarrow> pt_of s pd' i' = Some pt \<Longrightarrow> pd' = pd \<and> i' = i"
    by simp
  show "pt \<in> page_tables pds s" unfolding page_tables_def using assms(2-4) by auto
qed

text \<open>No page on the free list is reachable through any address space.\<close>

lemma vm_inv_free_unmapped:
  assumes "vm_inv pds fl ex s" "p \<in> set fl"
  shows "mappings pds s p = {}" "p \<notin> page_tables pds s" "p \<notin> pds" "p < npages s" "ex p = 0"
proof -
  have "card (mappings pds s p) + ex p = 0"
    using vm_inv_rc(2) [OF assms(1)] assms(2) by blast
  then show "mappings pds s p = {}" "ex p = 0"
    using vm_inv_finite [OF assms(1), of p] by auto
  show "p \<notin> page_tables pds s"
    using vm_inv_pt(2) [OF assms(1)] assms(2) unfolding page_tables_def by blast
  show "p \<notin> pds" using assms unfolding vm_inv_def pd_inv_def by blast
  show "p < npages s" using assms unfolding vm_inv_def fl_inv_def by blast
qed

section \<open>Effect of memory writes on the view\<close>

lemma load_store [simp]: "load q (store q' v s) = (if q = q' then v else load q s)"
  by (auto simp: load_def store_def prod_eq_iff)

lemma pmem_store: "pmem (store (a, b) v s) = (pmem s)(a := (pmem s a)(b := v))"
  by (simp add: store_def)

lemma store_simps [simp]:
  "npages (store q v s) = npages s" "pages (store q v s) = pages s"
  "page_free_list (store q v s) = page_free_list s" "uninit (store q v s) = uninit s"
  "tlb (store q v s) = tlb s"
  by (simp_all add: store_def)

lemma set_page_simps [simp]:
  "npages (set_page p f s) = npages s" "pmem (set_page p f s) = pmem s"
  "page_free_list (set_page p f s) = page_free_list s" "uninit (set_page p f s) = uninit s"
  "pages (set_page p f s) = (pages s)(p := f (pages s p))" "tlb (set_page p f s) = tlb s"
  by (simp_all add: set_page_def)

lemma load_set_page [simp]: "load q (set_page p f s) = load q s"
  by (simp add: load_def)

lemma pt_of_cong: "pmem s' pd i = pmem s pd i \<Longrightarrow> pt_of s' pd i = pt_of s pd i"
  by (simp add: pt_of_def)

text \<open>Writing an entry of a page table changes exactly the slot it stands for.\<close>

lemma pt_of_store_pte:
  assumes "vm_inv pds fl ex s" "pd \<in> pds" "i < PDX UTOP" "pt_of s pd i = Some pt" "pd' \<in> pds"
  shows "pt_of (store (pt, j) v s) pd' i' = pt_of s pd' i'"
proof -
  have "pt \<noteq> pd'" using vm_inv_pt(3) [OF assms(1-4)] assms(5) by blast
  then show ?thesis by (simp add: pt_of_def pmem_store)
qed

lemma pg_of_store_pte:
  assumes "vm_inv pds fl ex s" "pd \<in> pds" "i < PDX UTOP" "pt_of s pd i = Some pt"
    and "pd' \<in> pds" "i' < PDX UTOP"
  shows "pg_of (store (pt, j) v s) pd' i' j' =
    (if (pd', i', j') = (pd, i, j) then if bit v 0 then Some v else None else pg_of s pd' i' j')"
proof (cases "pd' = pd \<and> i' = i")
  case True
  then show ?thesis
    using pt_of_store_pte [OF assms(1-5)] assms(4) by (simp add: pg_of_def pmem_store)
next
  case False
  then have "pt_of s pd' i' \<noteq> Some pt" using vm_inv_pt(6) [OF assms(1-4)] assms(5,6) by blast
  then have "pg_of (store (pt, j) v s) pd' i' j' = pg_of s pd' i' j'"
    using pt_of_store_pte [OF assms(1-5)] by (auto simp: pg_of_def pmem_store split: option.splits)
  with False show ?thesis by auto
qed

definition same_view :: "nat set \<Rightarrow> 'z vm_scheme \<Rightarrow> 'z vm_scheme \<Rightarrow> bool" where
  "same_view pds s s' \<longleftrightarrow>
     (\<forall>pd\<in>pds. \<forall>i<PDX UTOP. pt_of s' pd i = pt_of s pd i) \<and>
     (\<forall>pd i j. (pd, i, j) \<in> slots pds \<longrightarrow> pg_of s' pd i j = pg_of s pd i j)"

lemma same_view_mappings: "same_view pds s s' \<Longrightarrow> mappings pds s' = mappings pds s"
  by (rule ext) (simp add: same_view_def mappings_def cong: conj_cong)

lemma same_view_tables: "same_view pds s s' \<Longrightarrow> page_tables pds s' = page_tables pds s"
  by (simp add: same_view_def page_tables_def cong: conj_cong)

lemma same_viewI:
  assumes "\<And>pd i. pd \<in> pds \<Longrightarrow> i < PDX UTOP \<Longrightarrow> pt_of s' pd i = pt_of s pd i"
    and "\<And>pd i pt. pd \<in> pds \<Longrightarrow> i < PDX UTOP \<Longrightarrow> pt_of s pd i = Some pt \<Longrightarrow> pmem s' pt = pmem s pt"
  shows "same_view pds s s'"
  using assms by (auto simp: same_view_def slots_def pg_of_def split: option.splits)

lemma same_view_pmem: "pmem s' = pmem s \<Longrightarrow> same_view pds s s'"
  by (rule same_viewI) (simp_all add: pt_of_def)

lemma vm_inv_same_view:
  assumes "same_view pds s s'" "npages s' = npages s" "pages s' = pages s"
    "page_free_list s' = page_free_list s"
  shows "vm_inv pds fl ex s' = vm_inv pds fl ex s"
proof -
  have "pt_inv pds fl s' = pt_inv pds fl s"
    using assms by (simp add: pt_inv_def same_view_def)
  moreover have "rc_inv pds fl ex s' = rc_inv pds fl ex s"
    using assms by (simp add: rc_inv_def same_view_mappings same_view_tables)
  ultimately show ?thesis
    using assms by (simp add: vm_inv_def fl_inv_def pd_inv_def)
qed

lemma mappings_upd:
  assumes "\<And>pd i j. (pd, i, j) \<in> slots pds \<Longrightarrow>
      pg_of s' pd i j = (if (pd, i, j) = x then n else pg_of s pd i j)" "x \<in> slots pds"
  shows "mappings pds s' p =
    (if \<exists>w. n = Some w \<and> PGNUM w = p then insert x (mappings pds s p) else mappings pds s p - {x})"
proof -
  have "y \<in> mappings pds s' p \<longleftrightarrow>
      (if y = x then map_option PGNUM n = Some p else y \<in> mappings pds s p)" for y
    using assms by (cases y) (simp add: mappings_def cong: conj_cong)
  then show ?thesis by (auto split: if_splits)
qed

section \<open>The allocator\<close>

definition pop_page :: "nat \<Rightarrow> 'z vm_scheme \<Rightarrow> 'z vm_scheme" where
  "pop_page p s = set_page p (\<lambda>pi. pi\<lparr>pp_link := None\<rparr>) (s\<lparr>page_free_list := pp_link (pages s p)\<rparr>)"

definition push_page :: "nat \<Rightarrow> 'z vm_scheme \<Rightarrow> 'z vm_scheme" where
  "push_page p s = (set_page p (\<lambda>pi. pi\<lparr>pp_link := page_free_list s\<rparr>) s)\<lparr>page_free_list := Some p\<rparr>"

lemma zero_page_simps [simp]:
  "npages (zero_page p s) = npages s" "pages (zero_page p s) = pages s"
  "page_free_list (zero_page p s) = page_free_list s" "uninit (zero_page p s) = uninit s"
  "tlb (zero_page p s) = tlb s" "pmem (zero_page p s) = (pmem s)(p := (\<lambda>_. 0))"
  by (simp_all add: zero_page_def)

lemma pop_page_simps [simp]:
  "npages (pop_page p s) = npages s" "pmem (pop_page p s) = pmem s"
  "uninit (pop_page p s) = uninit s" "tlb (pop_page p s) = tlb s"
  "pages (pop_page p s) = (pages s)(p := (pages s p)\<lparr>pp_link := None\<rparr>)"
  "page_free_list (pop_page p s) = pp_link (pages s p)"
  by (simp_all add: pop_page_def)

lemma push_page_simps [simp]:
  "npages (push_page p s) = npages s" "pmem (push_page p s) = pmem s"
  "uninit (push_page p s) = uninit s" "tlb (push_page p s) = tlb s"
  "pages (push_page p s) = (pages s)(p := (pages s p)\<lparr>pp_link := page_free_list s\<rparr>)"
  "page_free_list (push_page p s) = Some p"
  by (simp_all add: push_page_def)

lemma page_alloc_Nil: "fl_inv [] s \<Longrightarrow> page_alloc f s = Inr (None, s)"
  by (simp add: fl_inv_def page_alloc_def)

lemma page_alloc_Cons:
  assumes "fl_inv (p # fl) s" "npages s \<le> 0x100000"
  shows "page_alloc f s =
    Inr (Some p, if f AND ALLOC_ZERO \<noteq> 0 then zero_page p (pop_page p s) else pop_page p s)"
proof -
  have "page_free_list s = Some p" "p < npages s" using assms(1) by (simp_all add: fl_inv_def)
  then show ?thesis
    using assms(2) by (simp add: page_alloc_def page2kva_def KADDR_def pop_page_def)
qed

lemma fl_inv_pop: "fl_inv (p # fl) s \<Longrightarrow> fl_inv fl (pop_page p s)"
proof -
  assume fl: "fl_inv (p # fl) s"
  then have "distinct (p # fl)" unfolding fl_inv_def using chain_distinct by metis
  then have "p \<notin> set fl" by simp
  then have "chain (\<lambda>q. pp_link (pages (pop_page p s) q)) h fl = chain (\<lambda>q. pp_link (pages s q)) h fl" for h
    by (intro chain_cong) auto
  with fl have "chain (\<lambda>q. pp_link (pages (pop_page p s) q)) (page_free_list (pop_page p s)) fl"
    by (simp add: fl_inv_def)
  moreover have "\<forall>q. q \<in> set fl \<longrightarrow> q < npages s \<and> pp_ref (pages s q) = 0"
    using fl by (simp add: fl_inv_def)
  moreover have "\<forall>q. q \<notin> set fl \<longrightarrow> q \<noteq> p \<longrightarrow> pp_link (pages s q) = None"
    using fl by (simp add: fl_inv_def)
  ultimately show ?thesis by (simp add: fl_inv_def)
qed

text \<open>
  What the operations of this component may change: the page descriptors, the free list, memory
  and the cached translations. All other fields of the state, those of extensions of the record
  included, are kept.
\<close>

definition vm_frame :: "'z vm_scheme \<Rightarrow> 'z vm_scheme \<Rightarrow> bool" where
  "vm_frame s s' \<longleftrightarrow>
     s' = s\<lparr>pages := pages s', page_free_list := page_free_list s', pmem := pmem s', tlb := tlb s'\<rparr>"

lemma vm_frame_refl [simp]: "vm_frame s s"
  by (simp add: vm_frame_def)

lemma vm_frame_iff:
  "vm_frame s s' \<longleftrightarrow>
     npages s' = npages s \<and> npages_basemem s' = npages_basemem s \<and> kend s' = kend s \<and>
     kern_pgdir s' = kern_pgdir s \<and> nextfree s' = nextfree s \<and> mmio_base s' = mmio_base s \<and>
     user_mem_check_addr s' = user_mem_check_addr s \<and> uninit s' = uninit s \<and> vm.more s' = vm.more s"
  unfolding vm_frame_def by (cases s, cases s') auto

lemma vm_frame_trans [trans]: "vm_frame s s' \<Longrightarrow> vm_frame s' s'' \<Longrightarrow> vm_frame s s''"
  by (simp add: vm_frame_iff)

lemmas frame_simps = vm_frame_def push_page_def pop_page_def set_page_def store_def zero_page_def
  tlb_invalidate_def

text \<open>A page that is allocated and not yet used for anything.\<close>

definition limbo :: "nat set \<Rightarrow> nat list \<Rightarrow> (nat \<Rightarrow> nat) \<Rightarrow> 'z vm_scheme \<Rightarrow> nat \<Rightarrow> bool" where
  "limbo pds fl ex s p \<longleftrightarrow>
     p < npages s \<and> p \<notin> set fl \<and> p \<notin> pds \<and> p \<notin> page_tables pds s \<and> mappings pds s p = {} \<and>
     ex p = 0 \<and> pp_ref (pages s p) = 0"

lemma fl_inv_push:
  assumes "fl_inv fl s" "p \<notin> set fl" "p < npages s" "pp_ref (pages s p) = 0"
  shows "fl_inv (p # fl) (push_page p s)"
proof -
  have "chain (\<lambda>q. pp_link (pages (push_page p s) q)) (page_free_list s) fl =
      chain (\<lambda>q. pp_link (pages s q)) (page_free_list s) fl"
    using assms(2) by (intro chain_cong) auto
  moreover have "\<forall>q. q \<in> set fl \<longrightarrow> q < npages s \<and> pp_ref (pages s q) = 0"
    "\<forall>q. q \<notin> set fl \<longrightarrow> pp_link (pages s q) = None"
    "chain (\<lambda>q. pp_link (pages s q)) (page_free_list s) fl"
    using assms(1) by (simp_all add: fl_inv_def)
  ultimately show ?thesis using assms(3,4) by (simp add: fl_inv_def)
qed

text \<open>
  The parts of the invariant other than the free list, for two states with the same memory whose
  page descriptors agree on the reference counts of pages in use.
\<close>

lemma view_simps:
  "pmem s' = pmem s \<Longrightarrow> pt_of s' = pt_of s" "pmem s' = pmem s \<Longrightarrow> pg_of s' = pg_of s"
  "pmem s' = pmem s \<Longrightarrow> mappings pds s' = mappings pds s"
  "pmem s' = pmem s \<Longrightarrow> page_tables pds s' = page_tables pds s"
proof -
  assume "pmem s' = pmem s"
  then show a: "pt_of s' = pt_of s" by (simp add: pt_of_def fun_eq_iff)
  then show "pg_of s' = pg_of s"
    using \<open>pmem s' = pmem s\<close> by (simp add: pg_of_def fun_eq_iff split: option.splits)
  then show "mappings pds s' = mappings pds s" by (simp add: mappings_def fun_eq_iff)
  show "page_tables pds s' = page_tables pds s" by (simp add: page_tables_def a)
qed

lemma vm_inv_pages_upd:
  assumes inv: "vm_inv pds fl ex s" and eq: "npages s' = npages s" "pmem s' = pmem s"
    and ref: "\<And>q. q \<noteq> p \<Longrightarrow> pp_ref (pages s' q) = pp_ref (pages s q)"
    and sub: "\<And>q. q \<noteq> p \<Longrightarrow> q \<in> set fl' \<Longrightarrow> q \<in> set fl" and fl': "fl_inv fl' s'"
    and p: "p \<notin> pds" "p \<notin> page_tables pds s"
      "card (mappings pds s p) + e > 0 \<Longrightarrow>
         p < npages s \<and> p \<notin> set fl' \<and> unat (pp_ref (pages s' p)) = card (mappings pds s p) + e"
  shows "vm_inv pds fl' (ex(p := e)) s'"
proof -
  have pd: "pd_inv pds fl' s'"
    unfolding pd_inv_def
  proof (intro conjI ballI)
    show "finite pds" using inv by (simp add: vm_inv_def pd_inv_def)
    fix pd assume pd: "pd \<in> pds"
    then have "pd \<noteq> p" using p by blast
    moreover have "pd < npages s" "pd \<notin> set fl" "pp_ref (pages s pd) = 1"
      using inv pd by (simp_all add: vm_inv_def pd_inv_def)
    ultimately show "pd < npages s'" "pd \<notin> set fl'" "pp_ref (pages s' pd) = 1"
      using sub ref eq by auto
  qed
  have pt: "pt_inv pds fl' s'"
    unfolding pt_inv_def view_simps [OF eq(2)]
  proof (intro ballI allI impI conjI)
    fix pd i pt assume a: "pd \<in> pds" "i < PDX UTOP" "pt_of s pd i = Some pt"
    note t = vm_inv_pt [OF inv a]
    have "pt \<noteq> p" using t(5) p by blast
    then show "pt < npages s'" "pt \<notin> set fl'" "pt \<notin> pds" "pp_ref (pages s' pt) = 1"
      using t sub ref eq by auto
    fix pd' i' assume "pd' \<in> pds" "i' < PDX UTOP" "pt_of s pd' i' = Some pt"
    then show "pd' = pd" "i' = i" using t(6) by simp_all
  qed
  have "rc_inv pds fl' (ex(p := e)) s'"
    unfolding rc_inv_def view_simps [OF eq(2)]
  proof (intro allI impI)
    fix q assume q: "0 < card (mappings pds s q) + (ex(p := e)) q"
    show "q < npages s' \<and> q \<notin> set fl' \<and> q \<notin> pds \<and> q \<notin> page_tables pds s \<and>
        unat (pp_ref (pages s' q)) = card (mappings pds s q) + (ex(p := e)) q"
    proof (cases "q = p")
      case True then show ?thesis using p q eq by simp
    next
      case False
      then have "card (mappings pds s q) + ex q > 0" using q by simp
      from vm_inv_rc [OF inv this] show ?thesis using False sub ref eq by auto
    qed
  qed
  with pd pt fl' inv eq show ?thesis by (simp add: vm_inv_def)
qed

lemma vm_inv_pop:
  assumes "vm_inv pds (p # fl) ex s"
  shows "vm_inv pds fl ex (pop_page p s)" "limbo pds fl ex (pop_page p s) p"
proof -
  have fl: "fl_inv (p # fl) s" using assms by (simp add: vm_inv_def)
  have free: "mappings pds s p = {}" "p \<notin> page_tables pds s" "p \<notin> pds" "p < npages s" "ex p = 0"
    using vm_inv_free_unmapped [OF assms, of p] by simp_all
  have "vm_inv pds fl (ex(p := 0)) (pop_page p s)"
    by (rule vm_inv_pages_upd [OF assms]) (use fl_inv_pop [OF fl] free in simp_all)
  moreover have "ex(p := 0) = ex" using free(5) by auto
  ultimately show "vm_inv pds fl ex (pop_page p s)" by simp
  have "distinct (p # fl)" using fl unfolding fl_inv_def by (metis chain_distinct)
  moreover have "pp_ref (pages s p) = 0" using fl by (simp add: fl_inv_def)
  ultimately show "limbo pds fl ex (pop_page p s) p"
    using free by (simp add: limbo_def view_simps [of "pop_page p s" s])
qed

lemma vm_inv_push:
  assumes "vm_inv pds fl ex s" "limbo pds fl ex s p"
  shows "vm_inv pds (p # fl) ex (push_page p s)"
proof -
  have "vm_inv pds (p # fl) (ex(p := 0)) (push_page p s)"
    by (rule vm_inv_pages_upd [OF assms(1)])
      (use assms fl_inv_push [of fl s p] in \<open>simp_all add: limbo_def vm_inv_def\<close>)
  moreover have "ex(p := 0) = ex" using assms(2) by (auto simp: limbo_def)
  ultimately show ?thesis by simp
qed

lemma fl_inv_set_ref:
  assumes "fl_inv fl s" "p \<notin> set fl" shows "fl_inv fl (set_page p (\<lambda>pi. pi\<lparr>pp_ref := r pi\<rparr>) s)"
proof -
  have "(\<lambda>q. pp_link (pages (set_page p (\<lambda>pi. pi\<lparr>pp_ref := r pi\<rparr>) s) q)) = (\<lambda>q. pp_link (pages s q))"
    by auto
  with assms show ?thesis unfolding fl_inv_def by auto
qed

lemma fl_inv_store [simp]: "fl_inv fl (store q v s) = fl_inv fl s"
  by (simp add: fl_inv_def)

lemma vm_inv_set_ref:
  assumes "vm_inv pds fl ex s" "p < npages s" "p \<notin> set fl" "p \<notin> pds" "p \<notin> page_tables pds s"
    and "unat (r (pages s p)) = card (mappings pds s p) + e"
  shows "vm_inv pds fl (ex(p := e)) (set_page p (\<lambda>pi. pi\<lparr>pp_ref := r pi\<rparr>) s)"
  by (rule vm_inv_pages_upd [OF assms(1)])
    (use assms fl_inv_set_ref [of fl s p r] in \<open>simp_all add: vm_inv_def\<close>)

text \<open>A page that may be mapped: not free, not a page table or directory, its count exact.\<close>

definition insertable :: "nat set \<Rightarrow> nat list \<Rightarrow> (nat \<Rightarrow> nat) \<Rightarrow> 'z vm_scheme \<Rightarrow> nat \<Rightarrow> bool" where
  "insertable pds fl ex s p \<longleftrightarrow>
     p < npages s \<and> p \<notin> set fl \<and> p \<notin> pds \<and> p \<notin> page_tables pds s \<and>
     unat (pp_ref (pages s p)) = card (mappings pds s p) + ex p"

lemma limbo_insertable: "limbo pds fl ex s p \<Longrightarrow> insertable pds fl ex s p"
  by (simp add: limbo_def insertable_def)

lemma mapped_insertable:
  "vm_inv pds fl ex s \<Longrightarrow> (pd, i, j) \<in> slots pds \<Longrightarrow> pg_of s pd i j = Some w \<Longrightarrow>
   insertable pds fl ex s (PGNUM w)"
  unfolding insertable_def by (simp add: vm_inv_mapped)

lemma held_insertable: "vm_inv pds fl ex s \<Longrightarrow> ex p > 0 \<Longrightarrow> insertable pds fl ex s p"
  unfolding insertable_def using vm_inv_rc [of pds fl ex s p] by simp

lemma unat_inc16: "Suc (unat (r :: 16 word)) < 0x10000 \<Longrightarrow> unat (r + 1) = Suc (unat r)"
  by (simp add: unat_word_ariths)

lemma vm_inv_incref:
  assumes "vm_inv pds fl ex s" "insertable pds fl ex s p" "card (mappings pds s p) + ex p + 1 < 0x10000"
  shows "vm_inv pds fl (ex(p := ex p + 1)) (set_page p (\<lambda>pi. pi\<lparr>pp_ref := pp_ref pi + 1\<rparr>) s)"
  using assms by (intro vm_inv_set_ref) (simp_all add: insertable_def unat_inc16)

lemma unat_dec16: "unat (r :: 16 word) = Suc n \<Longrightarrow> unat (r - 1) = n"
proof -
  assume *: "unat r = Suc n"
  then have "r \<noteq> 0" by (metis nat.distinct(1) unat_0)
  with * show ?thesis using unat_minus_one [of r] by simp
qed

lemma page_decref_held:
  assumes inv: "vm_inv pds fl ex s" and p: "ex p > 0"
  shows "\<exists>s' fl'. page_decref p s = Inr ((), s') \<and> vm_inv pds fl' (ex(p := ex p - 1)) s' \<and>
    fl' = (if card (mappings pds s p) + ex p = 1 then p # fl else fl) \<and>
    pmem s' = pmem s \<and> tlb s' = tlb s \<and> vm_frame s s'"
proof -
  let ?s1 = "set_page p (\<lambda>pi. pi\<lparr>pp_ref := pp_ref pi - 1\<rparr>) s"
  have "card (mappings pds s p) + ex p > 0" using p by simp
  note rc = vm_inv_rc [OF inv this]
  have ref: "unat (pp_ref (pages ?s1 p)) = card (mappings pds s p) + (ex p - 1)"
    using rc(5) p unat_dec16 [of "pp_ref (pages s p)"] by simp
  then have inv1: "vm_inv pds fl (ex(p := ex p - 1)) ?s1"
    using rc by (intro vm_inv_set_ref [OF inv]) simp_all
  show ?thesis
  proof (cases "pp_ref (pages ?s1 p) = 0")
    case True
    then have z: "card (mappings pds s p) = 0" "ex p = 1" using ref p by auto
    then have lim: "limbo pds fl (ex(p := ex p - 1)) ?s1 p"
      using True rc vm_inv_finite [OF inv, of p] by (simp add: limbo_def view_simps [of ?s1 s])
    have "pp_link (pages ?s1 p) = None"
      using inv rc(2) by (simp add: vm_inv_def fl_inv_def)
    then have "page_decref p s = Inr ((), push_page p ?s1)"
      using True by (simp add: page_decref_def page_free_def push_page_def)
    moreover have "vm_frame s (push_page p ?s1)" by (simp add: frame_simps)
    ultimately show ?thesis using vm_inv_push [OF inv1 lim] z by simp
  next
    case False
    then have "page_decref p s = Inr ((), ?s1)" by (simp add: page_decref_def)
    moreover have "card (mappings pds s p) + ex p \<noteq> 1"
    proof
      assume "card (mappings pds s p) + ex p = 1"
      then have "unat (pp_ref (pages ?s1 p)) = 0" using ref p by linarith
      with False show False by (simp add: unat_eq_0)
    qed
    ultimately show ?thesis using inv1 by (simp add: frame_simps)
  qed
qed

section \<open>Changing one entry of a page table\<close>

lemma vm_inv_store_pte:
  assumes inv: "vm_inv pds fl ex s" and sl: "(pd, i, j) \<in> slots pds" and pt: "pt_of s pd i = Some pt"
    and n: "n = (if bit v 0 then Some v else None)"
    and rc: "\<And>p. card (if \<exists>w. n = Some w \<and> PGNUM w = p then insert (pd, i, j) (mappings pds s p)
                       else mappings pds s p - {(pd, i, j)}) + ex' p = card (mappings pds s p) + ex p"
  shows "vm_inv pds fl ex' (store (pt, j) v s)"
    "(pd', i', j') \<in> slots pds \<Longrightarrow>
       pg_of (store (pt, j) v s) pd' i' j' = (if (pd', i', j') = (pd, i, j) then n else pg_of s pd' i' j')"
proof -
  have pd: "pd \<in> pds" "i < PDX UTOP" using sl by (simp_all add: slots_def)
  note * = pt_of_store_pte [OF inv pd pt] pg_of_store_pte [OF inv pd pt]
  have pg: "pg_of (store (pt, j) v s) pd' i' j' = (if (pd', i', j') = (pd, i, j) then n else pg_of s pd' i' j')"
    if "(pd', i', j') \<in> slots pds" for pd' i' j'
    using *(2) that n by (simp add: slots_def)
  then show "(pd', i', j') \<in> slots pds \<Longrightarrow>
       pg_of (store (pt, j) v s) pd' i' j' = (if (pd', i', j') = (pd, i, j) then n else pg_of s pd' i' j')"
    by blast
  have m: "card (mappings pds (store (pt, j) v s) p) + ex' p = card (mappings pds s p) + ex p" for p
    using mappings_upd [OF pg sl] rc by simp
  have t: "page_tables pds (store (pt, j) v s) = page_tables pds s"
    using *(1) by (simp add: page_tables_def cong: conj_cong)
  have "pt_inv pds fl (store (pt, j) v s) = pt_inv pds fl s"
    using *(1) by (simp add: pt_inv_def cong: conj_cong)
  moreover have "rc_inv pds fl ex' (store (pt, j) v s) = rc_inv pds fl ex s"
    by (simp add: rc_inv_def m t)
  ultimately show "vm_inv pds fl ex' (store (pt, j) v s)"
    using inv by (simp add: vm_inv_def fl_inv_def pd_inv_def)
qed

lemma vm_inv_unmap:
  assumes inv: "vm_inv pds fl ex s" and sl: "(pd, i, j) \<in> slots pds" and pt: "pt_of s pd i = Some pt"
    and w: "pg_of s pd i j = Some w"
  shows "vm_inv pds fl (ex(PGNUM w := ex (PGNUM w) + 1)) (store (pt, j) 0 s)"
proof (rule vm_inv_store_pte(1) [OF inv sl pt refl])
  fix p
  have "(pd, i, j) \<in> mappings pds s p \<longleftrightarrow> p = PGNUM w"
    using sl w by (auto simp: mappings_def)
  then show "card (if \<exists>w. (if bit (0 :: 32 word) 0 then Some (0 :: 32 word) else None) = Some w \<and> PGNUM w = p
      then insert (pd, i, j) (mappings pds s p) else mappings pds s p - {(pd, i, j)}) +
      (ex(PGNUM w := ex (PGNUM w) + 1)) p = card (mappings pds s p) + ex p"
    using vm_inv_finite [OF inv, of p] card_gt_0_iff [of "mappings pds s p"] by auto
qed

lemma vm_inv_map:
  assumes inv: "vm_inv pds fl ex s" and sl: "(pd, i, j) \<in> slots pds" and pt: "pt_of s pd i = Some pt"
    and w: "pg_of s pd i j = None" and v: "bit v 0" and ex: "ex (PGNUM v) > 0"
  shows "vm_inv pds fl (ex(PGNUM v := ex (PGNUM v) - 1)) (store (pt, j) v s)"
proof (rule vm_inv_store_pte(1) [OF inv sl pt refl])
  fix p
  have "(pd, i, j) \<notin> mappings pds s p" using sl w by (auto simp: mappings_def)
  then show "card (if \<exists>w. (if bit v 0 then Some v else None) = Some w \<and> PGNUM w = p
      then insert (pd, i, j) (mappings pds s p) else mappings pds s p - {(pd, i, j)}) +
      (ex(PGNUM v := ex (PGNUM v) - 1)) p = card (mappings pds s p) + ex p"
    using vm_inv_finite [OF inv, of p] v ex by auto
qed

section \<open>Adding a page table\<close>

lemma vm_inv_new_table:
  assumes inv: "vm_inv pds fl ex s" and pd: "pd \<in> pds" "i < PDX UTOP" and none: "pt_of s pd i = None"
    and lim: "limbo pds fl ex s p" and zero: "pmem s p = (\<lambda>_. 0)" and v: "bit v 0" "PGNUM v = p"
  defines "s' \<equiv> store (pd, i) v (set_page p (\<lambda>pi. pi\<lparr>pp_ref := pp_ref pi + 1\<rparr>) s)"
  shows "vm_inv pds fl ex s'" "pt_of s' pd i = Some p"
    "\<And>pd' i' j'. (pd', i', j') \<in> slots pds \<Longrightarrow> pg_of s' pd' i' j' = pg_of s pd' i' j'"
proof -
  have p: "p < npages s" "p \<notin> set fl" "p \<notin> pds" "p \<notin> page_tables pds s" "mappings pds s p = {}"
    "ex p = 0" "pp_ref (pages s p) = 0" using lim by (simp_all add: limbo_def)
  have pmem: "pmem s' = (pmem s)(pd := (pmem s pd)(i := v))" by (simp add: s'_def pmem_store)
  have pages: "pages s' = (pages s)(p := (pages s p)\<lparr>pp_ref := 1\<rparr>)" "npages s' = npages s"
    by (simp_all add: s'_def p)
  have pt: "pt_of s' pd' i' = (if (pd', i') = (pd, i) then Some p else pt_of s pd' i')" for pd' i'
    using v by (auto simp: pt_of_def pmem)
  then show "pt_of s' pd i = Some p" by simp
  have tab: "pt' \<noteq> p" "pt' \<noteq> pd" if "pd' \<in> pds" "i' < PDX UTOP" "pt_of s pd' i' = Some pt'" for pd' i' pt'
    using vm_inv_pt(3,5) [OF inv that] p(4) pd(1) by auto
  have pg: "pg_of s' pd' i' j' = pg_of s pd' i' j'" if "(pd', i', j') \<in> slots pds" for pd' i' j'
  proof (cases "pt_of s pd' i'")
    case None
    then show ?thesis using p(3) pd(1) zero by (auto simp: pg_of_def pt pmem)
  next
    case (Some pt')
    then show ?thesis using tab(2) that none by (auto simp: pg_of_def pt pmem slots_def)
  qed
  then show "\<And>pd' i' j'. (pd', i', j') \<in> slots pds \<Longrightarrow> pg_of s' pd' i' j' = pg_of s pd' i' j'" .
  from pg have map: "mappings pds s' q = mappings pds s q" for q
    by (simp add: mappings_def cong: conj_cong)
  have tabs: "page_tables pds s' \<subseteq> insert p (page_tables pds s)"
    by (auto simp: page_tables_def pt split: if_splits)
  have "fl_inv fl s'" using fl_inv_set_ref [of fl s p] inv p(2) by (simp add: s'_def vm_inv_def)
  moreover have "pd_inv pds fl s'"
    using inv p(3) by (auto simp: vm_inv_def pd_inv_def s'_def)
  moreover have "pt_inv pds fl s'"
    unfolding pt_inv_def
  proof (intro ballI allI impI)
    fix pd1 i1 pt1 assume a: "pd1 \<in> pds" "i1 < PDX UTOP" "pt_of s' pd1 i1 = Some pt1"
    show "pt1 < npages s' \<and> pt1 \<notin> set fl \<and> pt1 \<notin> pds \<and> pp_ref (pages s' pt1) = 1 \<and>
      (\<forall>pd'\<in>pds. \<forall>i'<PDX UTOP. pt_of s' pd' i' = Some pt1 \<longrightarrow> pd' = pd1 \<and> i' = i1)"
    proof (cases "(pd1, i1) = (pd, i)")
      case True
      then show ?thesis using a p tab(1) by (auto simp: pt pages split: if_splits)
    next
      case False
      then have old: "pt_of s pd1 i1 = Some pt1" using a(3) by (simp add: pt split: if_splits)
      note t = vm_inv_pt [OF inv a(1,2) old]
      show ?thesis using t tab(1) [OF a(1,2) old] by (auto simp: pt pages split: if_splits)
    qed
  qed
  moreover have "rc_inv pds fl ex s'"
    unfolding rc_inv_def map
  proof (intro allI impI)
    fix q assume q: "0 < card (mappings pds s q) + ex q"
    then have "q \<noteq> p" using p by auto
    then show "q < npages s' \<and> q \<notin> set fl \<and> q \<notin> pds \<and> q \<notin> page_tables pds s' \<and>
        unat (pp_ref (pages s' q)) = card (mappings pds s q) + ex q"
      using vm_inv_rc [OF inv q] tabs by (auto simp: s'_def)
  qed
  ultimately show "vm_inv pds fl ex s'" using inv by (simp add: vm_inv_def s'_def)
qed

text \<open>Adding flag bits to a present directory entry is invisible in the abstract view.\<close>

lemma same_view_pde_flags:
  assumes inv: "vm_inv pds fl ex s" and pd: "pd \<in> pds" "i < PDX UTOP"
    and "bit (pmem s pd i) 0" "flags_only perm"
  shows "same_view pds s (store (pd, i) (pmem s pd i OR perm) s)"
proof (rule same_viewI)
  fix pd' i'
  show "pt_of (store (pd, i) (pmem s pd i OR perm) s) pd' i' = pt_of s pd' i'"
    using assms by (auto simp: pt_of_def pmem_store PGNUM_flags bit_or_iff)
next
  fix pd' i' pt' assume "pd' \<in> pds" "i' < PDX UTOP" "pt_of s pd' i' = Some pt'"
  from vm_inv_pt(3) [OF inv this] show "pmem (store (pd, i) (pmem s pd i OR perm) s) pt' = pmem s pt'"
    using pd by (auto simp: pmem_store)
qed

section \<open>Walking a page directory\<close>

lemma pt_of_Some: "pt_of s pd i = Some pt \<longleftrightarrow> bit (pmem s pd i) 0 \<and> PGNUM (pmem s pd i) = pt"
  by (auto simp: pt_of_def)

lemma pt_of_None: "pt_of s pd i = None \<longleftrightarrow> \<not> bit (pmem s pd i) 0"
  by (auto simp: pt_of_def)

lemma pgdir_walk_present:
  assumes "vm_inv pds fl ex s" "pd \<in> pds" "va < UTOP" "pt_of s pd (PDX va) = Some pt"
  shows "pgdir_walk pd va create s = Inr (Some (pt, PTX va), s)"
proof -
  have "pt < npages s" using vm_inv_pt(1) [OF assms(1,2) _ assms(4)] assms(3) by (simp add: below_UTOP_iff)
  then show ?thesis
    using assms(4) by (auto simp: pgdir_walk_def load_def KADDR_def pt_of_Some)
qed

lemma pgdir_walk_absent: "pt_of s pd (PDX va) = None \<Longrightarrow> pgdir_walk pd va False s = Inr (None, s)"
  by (simp add: pgdir_walk_def load_def pt_of_None)

lemma vm_inv_zero_limbo:
  assumes inv: "vm_inv pds fl ex s" and lim: "limbo pds fl ex s p"
  shows "vm_inv pds fl ex (zero_page p s)" "limbo pds fl ex (zero_page p s) p"
    "same_view pds s (zero_page p s)"
proof -
  have "p \<notin> pds" "p \<notin> page_tables pds s" using lim by (simp_all add: limbo_def)
  then show sv: "same_view pds s (zero_page p s)"
    using vm_inv_pt(5) [OF inv] by (intro same_viewI) (auto simp: pt_of_def)
  show "vm_inv pds fl ex (zero_page p s)"
    using inv vm_inv_same_view [OF sv] by simp
  show "limbo pds fl ex (zero_page p s) p"
    using lim by (simp add: limbo_def same_view_mappings [OF sv] same_view_tables [OF sv])
qed

text \<open>The whole result of a creating walk that has to allocate a table.\<close>

lemma pgdir_walk_alloc:
  assumes inv: "vm_inv pds (p # fl) ex s" and pd: "pd \<in> pds" "va < UTOP" "pt_of s pd (PDX va) = None"
  defines "s1 \<equiv> zero_page p (pop_page p s)"
  defines "s' \<equiv> store (pd, PDX va) (page2pa p OR PTE_P) (set_page p (\<lambda>pi. pi\<lparr>pp_ref := pp_ref pi + 1\<rparr>) s1)"
  shows "pgdir_walk pd va True s = Inr (Some (p, PTX va), s')" "vm_inv pds fl ex s'"
    "pt_of s' pd (PDX va) = Some p"
    "\<And>pd' i' j'. (pd', i', j') \<in> slots pds \<Longrightarrow> pg_of s' pd' i' j' = pg_of s pd' i' j'"
proof -
  have np: "npages s \<le> 0x100000" and fl: "fl_inv (p # fl) s" using inv by (simp_all add: vm_inv_def)
  then have p: "p < npages s" by (simp add: fl_inv_def)
  have v: "bit (page2pa p OR PTE_P) 0" "PGNUM (page2pa p OR PTE_P) = p"
    using p np by (simp_all add: bit_or_iff PGNUM_flags jos_consts flags_only_def)
  note pop = vm_inv_pop [OF inv]
  note zero = vm_inv_zero_limbo [OF pop]
  have i: "PDX va < PDX UTOP" using pd by (simp add: below_UTOP_iff)
  have none: "pt_of s1 pd (PDX va) = None"
    using zero(3) pd i by (simp add: s1_def same_view_def view_simps [of "pop_page p s" s])
  have "pmem s1 p = (\<lambda>_. 0)" by (simp add: s1_def)
  note new = vm_inv_new_table [OF zero(1) [folded s1_def] pd(1) i none zero(2) [folded s1_def] this v,
      folded s'_def]
  show "vm_inv pds fl ex s'" "pt_of s' pd (PDX va) = Some p" by (fact new)+
  show "pg_of s' pd' i' j' = pg_of s pd' i' j'" if "(pd', i', j') \<in> slots pds" for pd' i' j'
    using new(3) [OF that] zero(3) that
    by (simp add: s1_def same_view_def view_simps [of "pop_page p s" s])
  have "page_alloc ALLOC_ZERO s = Inr (Some p, s1)"
    using page_alloc_Cons [OF fl np, of ALLOC_ZERO] by (simp add: s1_def jos_consts)
  moreover have "npages s' = npages s" by (simp add: s'_def s1_def)
  ultimately show "pgdir_walk pd va True s = Inr (Some (p, PTX va), s')"
    using pd(3) p v(2) by (simp add: pgdir_walk_def load_def pt_of_None KADDR_def s'_def [symmetric])
      (simp add: s'_def pmem_store)
qed

lemma insertable_new_table:
  assumes inv: "vm_inv pds (p # fl) ex s" and ins: "insertable pds (p # fl) ex s pp"
    and pages: "\<And>q. q \<noteq> p \<Longrightarrow> pp_ref (pages s' q) = pp_ref (pages s q)" and np: "npages s' = npages s"
    and tab: "page_tables pds s' \<subseteq> insert p (page_tables pds s)" and map: "mappings pds s' = mappings pds s"
  shows "insertable pds fl ex s' pp"
proof -
  have "pp \<noteq> p" using ins by (auto simp: insertable_def)
  then show ?thesis using assms(2-) by (auto simp: insertable_def)
qed

lemma pgdir_walk_create:
  assumes inv: "vm_inv pds fl ex s" and pd: "pd \<in> pds" "va < UTOP"
  shows "\<exists>r s' fl'. pgdir_walk pd va True s = Inr (r, s') \<and> vm_inv pds fl' ex s' \<and> vm_frame s s' \<and>
    tlb s' = tlb s \<and> set fl' \<subseteq> set fl \<and>
    (\<forall>pd' i' j'. (pd', i', j') \<in> slots pds \<longrightarrow> pg_of s' pd' i' j' = pg_of s pd' i' j') \<and>
    (\<forall>pp. insertable pds fl ex s pp \<longrightarrow> insertable pds fl' ex s' pp) \<and>
    (case r of None \<Rightarrow> fl = [] \<and> s' = s
     | Some q \<Rightarrow> \<exists>pt. q = (pt, PTX va) \<and> pt_of s' pd (PDX va) = Some pt)"
proof (cases "pt_of s pd (PDX va)")
  case (Some pt)
  then show ?thesis using pgdir_walk_present [OF inv pd Some] inv by (auto intro!: exI [of _ fl])
next
  case None
  show ?thesis
  proof (cases fl)
    case Nil
    then have "page_alloc ALLOC_ZERO s = Inr (None, s)"
      using inv by (simp add: vm_inv_def page_alloc_Nil)
    then have "pgdir_walk pd va True s = Inr (None, s)"
      using None by (simp add: pgdir_walk_def load_def pt_of_None)
    then show ?thesis using inv Nil by (auto intro!: exI [of _ "[]"])
  next
    case (Cons p fl')
    note w = pgdir_walk_alloc [OF inv [unfolded Cons] pd None]
    let ?s = "store (pd, PDX va) (page2pa p OR PTE_P)
      (set_page p (\<lambda>pi. pi\<lparr>pp_ref := pp_ref pi + 1\<rparr>) (zero_page p (pop_page p s)))"
    have i: "PDX va < PDX UTOP" using pd by (simp add: below_UTOP_iff)
    have map: "mappings pds ?s = mappings pds s"
      using w(4) by (simp add: mappings_def fun_eq_iff cong: conj_cong)
    have "pt_of ?s pd' i' = Some pt \<Longrightarrow> pt = p \<or> pt_of s pd' i' = Some pt"
      if "pd' \<in> pds" for pd' i' pt
      using that w(3) vm_inv_free_unmapped(3) [OF inv, of p] Cons
      by (auto simp: pt_of_def pmem_store split: if_splits)
    then have tab: "page_tables pds ?s \<subseteq> insert p (page_tables pds s)"
      unfolding page_tables_def by blast
    have ins: "insertable pds fl' ex ?s pp" if "insertable pds fl ex s pp" for pp
      by (rule insertable_new_table [OF inv [unfolded Cons] that [unfolded Cons] _ _ tab map]) simp_all
    have fr: "vm_frame s ?s" by (simp add: frame_simps)
    show ?thesis
      by (rule exI [of _ "Some (p, PTX va)"], rule exI [of _ ?s], rule exI [of _ fl'])
        (use w Cons ins fr in \<open>simp add: subset_insertI\<close>)
  qed
qed

section \<open>Looking a page up and removing it\<close>

lemma page_lookup_spec:
  assumes inv: "vm_inv pds fl ex s" and pd: "pd \<in> pds" "va < UTOP"
  shows "page_lookup pd va s =
    (case pg_of s pd (PDX va) (PTX va) of
       None \<Rightarrow> Inr ((None, None), s)
     | Some w \<Rightarrow> Inr ((Some (PGNUM w),
                    if uninit s \<noteq> 0 then Some (the (pt_of s pd (PDX va)), PTX va) else None), s))"
proof (cases "pt_of s pd (PDX va)")
  case None
  then show ?thesis by (simp add: page_lookup_def pgdir_walk_absent pg_of_def)
next
  case (Some pt)
  note walk = pgdir_walk_present [OF inv pd Some]
  show ?thesis
  proof (cases "bit (pmem s pt (PTX va)) 0")
    case True
    then have pg: "pg_of s pd (PDX va) (PTX va) = Some (pmem s pt (PTX va))" using Some by (simp add: pg_of_def)
    from vm_inv_mapped(1) [OF inv slots_va [OF pd] pg]
    show ?thesis using True Some pg by (simp add: page_lookup_def walk load_def pa2page_def)
  next
    case False
    then show ?thesis using Some by (simp add: page_lookup_def walk load_def pg_of_def)
  qed
qed

lemma page_decref_store:
  "page_decref p s = Inr ((), s') \<Longrightarrow> page_decref p (store q v s) = Inr ((), store q v s')"
  by (auto simp: page_decref_def page_free_def set_page_def store_def Let_def split: if_splits)

lemma page_remove_None:
  assumes "vm_inv pds fl ex s" "pd \<in> pds" "va < UTOP" "pg_of s pd (PDX va) (PTX va) = None"
  shows "page_remove pd va s = Inr ((), s)"
  using page_lookup_spec [OF assms(1-3)] assms(4) by (simp add: page_remove_def)

lemma page_remove_Some:
  assumes inv: "vm_inv pds fl ex s" and pd: "pd \<in> pds" "va < UTOP"
    and pg: "pg_of s pd (PDX va) (PTX va) = Some w" and un: "uninit s \<noteq> 0"
  shows "\<exists>s' fl'. page_remove pd va s = Inr ((), s') \<and> vm_inv pds fl' ex s' \<and> vm_frame s s' \<and>
    fl' = (if card (mappings pds s (PGNUM w)) + ex (PGNUM w) = 1 then PGNUM w # fl else fl) \<and>
    tlb s' = tlb s - {PGNUM va} \<and> (\<forall>pd'\<in>pds. \<forall>i'. pt_of s' pd' i' = pt_of s pd' i') \<and>
    (\<forall>pd' i' j'. (pd', i', j') \<in> slots pds \<longrightarrow> pg_of s' pd' i' j' =
       (if (pd', i', j') = (pd, PDX va, PTX va) then None else pg_of s pd' i' j'))"
proof -
  obtain pt where pt: "pt_of s pd (PDX va) = Some pt" using pg by (auto simp: pg_of_def split: option.splits)
  let ?p = "PGNUM w" and ?q = "(pt, PTX va)"
  let ?ex = "ex(?p := ex ?p + 1)"
  note sl = slots_va [OF pd]
  have i: "PDX va < PDX UTOP" using pd by (simp add: below_UTOP_iff)
  let ?s1 = "store ?q 0 s"
  have inv1: "vm_inv pds fl ?ex ?s1" by (rule vm_inv_unmap [OF inv sl pt pg])
  note pg1 = pg_of_store_pte [OF inv pd(1) i pt, where j = "PTX va" and v = 0]
  have cnt: "card (mappings pds ?s1 ?p) + ?ex ?p = card (mappings pds s ?p) + ex ?p"
    using vm_inv_rc(5) [OF inv1, of ?p] vm_inv_mapped(5) [OF inv sl pg] by simp
  have "0 < ?ex ?p" "?ex(?p := ?ex ?p - 1) = ex" by auto
  from page_decref_held [OF inv1 this(1), unfolded cnt this(2)] obtain s2 fl' where
    s2: "page_decref ?p ?s1 = Inr ((), s2)" "vm_inv pds fl' ex s2" "pmem s2 = pmem ?s1"
      "tlb s2 = tlb s" "vm_frame ?s1 s2"
      "fl' = (if card (mappings pds s ?p) + ex ?p = 1 then ?p # fl else fl)"
    by (auto simp del: fun_upd_apply)
  obtain s3 where s3: "page_decref ?p s = Inr ((), s3)" "s2 = store ?q 0 s3"
  proof -
    have "store ?q (load ?q s) ?s1 = s" by (simp add: store_def load_def)
    with page_decref_store [OF s2(1), of ?q "load ?q s"]
    have a: "page_decref ?p s = Inr ((), store ?q (load ?q s) s2)" by simp
    have "s2 = store ?q 0 (store ?q (load ?q s) s2)"
      using page_decref_store [OF a, of ?q 0] s2(1) by simp
    then show thesis by (rule that [OF a])
  qed
  have "page_remove pd va s = Inr ((), tlb_invalidate pd va s2)"
    using page_lookup_spec [OF inv pd] pg pt un s3 by (simp add: page_remove_def)
  moreover have "vm_inv pds fl' ex (tlb_invalidate pd va s2)"
    using s2(2) vm_inv_same_view [OF same_view_pmem, of "tlb_invalidate pd va s2" s2]
    by (simp add: tlb_invalidate_def)
  moreover have "vm_frame s (tlb_invalidate pd va s2)"
    using s2(5) by (simp add: vm_frame_iff tlb_invalidate_def store_def)
  moreover have "pmem (tlb_invalidate pd va s2) = pmem ?s1" using s2(3) by (simp add: tlb_invalidate_def)
  then have "pt_of (tlb_invalidate pd va s2) = pt_of ?s1" by (rule view_simps)
  then have "\<forall>pd'\<in>pds. \<forall>i'. pt_of (tlb_invalidate pd va s2) pd' i' = pt_of s pd' i'"
    using pt_of_store_pte [OF inv pd(1) i pt] by simp
  moreover have "pg_of (tlb_invalidate pd va s2) = pg_of ?s1"
    using s2(3) by (intro view_simps) (simp add: tlb_invalidate_def)
  ultimately show ?thesis using s2(4,6) pg1 by (auto simp: tlb_invalidate_def slots_def)
qed

section \<open>Mapping a page\<close>

text \<open>
  The tail of \<open>page_insert\<close>: the entry is written and the directory entry is given the permissions.
\<close>

lemma page_insert_write:
  assumes inv: "vm_inv pds fl (ex(pp := ex pp + 1)) s" and pd: "pd \<in> pds" "va < UTOP"
    and pt: "pt_of s pd (PDX va) = Some pt" and none: "pg_of s pd (PDX va) (PTX va) = None"
    and pp: "pp < npages s" and perm: "flags_only perm"
  defines "v \<equiv> page2pa pp OR perm OR PTE_P"
  defines "s2 \<equiv> store (pt, PTX va) v s"
  defines "s' \<equiv> store (pd, PDX va) (load (pd, PDX va) s2 OR perm) s2"
  shows "vm_inv pds fl ex s'" "PGNUM v = pp" "vm_frame s s'" "tlb s' = tlb s"
    "\<And>pd' i' j'. (pd', i', j') \<in> slots pds \<Longrightarrow> pg_of s' pd' i' j' =
       (if (pd', i', j') = (pd, PDX va, PTX va) then Some v else pg_of s pd' i' j')"
proof -
  have i: "PDX va < PDX UTOP" using pd by (simp add: below_UTOP_iff)
  note sl = slots_va [OF pd]
  have np: "npages s \<le> 0x100000" using inv by (simp add: vm_inv_def)
  have "flags_only PTE_P" by simp
  then show v: "PGNUM v = pp" using pp np perm by (simp add: v_def PGNUM_flags or.assoc)
  have b: "bit v 0" by (simp add: v_def bit_or_iff jos_consts)
  have "ex(pp := ex pp + 1, pp := (ex(pp := ex pp + 1)) pp - 1) = ex" by auto
  with vm_inv_map [OF inv sl pt none b] have inv2: "vm_inv pds fl ex s2" by (simp add: s2_def v)
  have pt2: "pt_of s2 pd (PDX va) = Some pt"
    using pt_of_store_pte [OF inv pd(1) i pt pd(1)] pt by (simp add: s2_def)
  then have "bit (pmem s2 pd (PDX va)) 0" by (simp add: pt_of_Some)
  from same_view_pde_flags [OF inv2 pd(1) i this perm]
  have sv: "same_view pds s2 s'" by (simp add: s'_def load_def)
  show "vm_inv pds fl ex s'"
    using inv2 vm_inv_same_view [OF sv] by (simp add: s'_def)
  show "vm_frame s s'" "tlb s' = tlb s" by (simp_all add: s'_def s2_def frame_simps)
  show "pg_of s' pd' i' j' = (if (pd', i', j') = (pd, PDX va, PTX va) then Some v else pg_of s pd' i' j')"
    if "(pd', i', j') \<in> slots pds" for pd' i' j'
    using that sv pg_of_store_pte [OF inv pd(1) i pt, where j = "PTX va" and v = v] b
    by (simp add: s2_def same_view_def slots_def)
qed

text \<open>The middle of \<open>page_insert\<close>: whatever the slot held is removed.\<close>

lemma page_insert_clear:
  assumes inv: "vm_inv pds fl ex s" and pd: "pd \<in> pds" "va < UTOP"
    and pt: "pt_of s pd (PDX va) = Some pt" and un: "uninit s \<noteq> 0"
  shows "\<exists>s' fl'. (if load (pt, PTX va) s AND PTE_P = PTE_P then page_remove pd va s else Inr ((), s)) =
      Inr ((), s') \<and> vm_inv pds fl' ex s' \<and> vm_frame s s' \<and> tlb s' \<subseteq> tlb s \<and>
    (pg_of s pd (PDX va) (PTX va) \<noteq> None \<longrightarrow> PGNUM va \<notin> tlb s') \<and> pt_of s' pd (PDX va) = Some pt \<and>
    (\<forall>pd' i' j'. (pd', i', j') \<in> slots pds \<longrightarrow> pg_of s' pd' i' j' =
       (if (pd', i', j') = (pd, PDX va, PTX va) then None else pg_of s pd' i' j'))"
proof -
  have pres: "load (pt, PTX va) s AND PTE_P = PTE_P \<longleftrightarrow> pg_of s pd (PDX va) (PTX va) \<noteq> None"
    using pt by (simp add: load_def pg_of_def)
  show ?thesis
  proof (cases "pg_of s pd (PDX va) (PTX va)")
    case None
    then have "\<not> load (pt, PTX va) s AND PTE_P = PTE_P" using pres by blast
    then show ?thesis using None inv pt by (intro exI [of _ s] exI [of _ fl]) simp
  next
    case (Some w)
    then have "load (pt, PTX va) s AND PTE_P = PTE_P" using pres by blast
    moreover obtain s' fl' where "page_remove pd va s = Inr ((), s')" "vm_inv pds fl' ex s'" "vm_frame s s'"
      "tlb s' = tlb s - {PGNUM va}" "\<forall>pd'\<in>pds. \<forall>i'. pt_of s' pd' i' = pt_of s pd' i'"
      "\<forall>pd' i' j'. (pd', i', j') \<in> slots pds \<longrightarrow> pg_of s' pd' i' j' =
         (if (pd', i', j') = (pd, PDX va, PTX va) then None else pg_of s pd' i' j')"
      using page_remove_Some [OF inv pd Some un] by blast
    ultimately show ?thesis using pt pd(1) by (intro exI [of _ s'] exI [of _ fl']) simp
  qed
qed

text \<open>The outcomes of \<open>page_insert\<close>, as a relation between the state before and after.\<close>

definition inserted ::
    "nat set \<Rightarrow> nat \<Rightarrow> 32 word \<Rightarrow> 32 word \<Rightarrow> 'z vm_scheme \<Rightarrow> 'z vm_scheme \<Rightarrow> bool" where
  "inserted pds pd va v s s' \<longleftrightarrow>
     vm_frame s s' \<and> tlb s' \<subseteq> tlb s \<and> (pg_of s pd (PDX va) (PTX va) \<noteq> None \<longrightarrow> PGNUM va \<notin> tlb s') \<and>
     (\<forall>pd' i' j'. (pd', i', j') \<in> slots pds \<longrightarrow> pg_of s' pd' i' j' =
        (if (pd', i', j') = (pd, PDX va, PTX va) then Some v else pg_of s pd' i' j'))"

lemma page_insert_mapped:
  assumes inv: "vm_inv pds fl ex s" and pd: "pd \<in> pds" "va < UTOP" and perm: "flags_only perm"
    and ins: "insertable pds fl ex s pp" and un: "uninit s \<noteq> 0"
    and few: "card (mappings pds s pp) + ex pp + 1 < 0x10000"
    and pt: "pt_of s pd (PDX va) = Some pt"
    and walk: "pgdir_walk pd va True s0 = Inr (Some (pt, PTX va), s)"
  shows "\<exists>s' fl'. page_insert pd pp va perm s0 = Inr (0, s') \<and> vm_inv pds fl' ex s' \<and>
    inserted pds pd va (page2pa pp OR perm OR PTE_P) s s'"
proof -
  note sl = slots_va [OF pd]
  let ?s1 = "set_page pp (\<lambda>pi. pi\<lparr>pp_ref := pp_ref pi + 1\<rparr>) s"
  let ?ex = "ex(pp := ex pp + 1)"
  have inv1: "vm_inv pds fl ?ex ?s1" by (rule vm_inv_incref [OF inv ins few])
  have pgs: "pg_of ?s1 = pg_of s" "pt_of ?s1 = pt_of s" by (rule view_simps, simp)+
  have un1: "uninit ?s1 \<noteq> 0" using un by simp
  from page_insert_clear [OF inv1 pd pt [folded pgs(2)] un1] obtain s2 fl2 where
    s2: "(if load (pt, PTX va) ?s1 AND PTE_P = PTE_P then page_remove pd va ?s1 else Inr ((), ?s1)) =
        Inr ((), s2)" "vm_inv pds fl2 ?ex s2" "vm_frame ?s1 s2" "tlb s2 \<subseteq> tlb ?s1"
      "pg_of ?s1 pd (PDX va) (PTX va) \<noteq> None \<longrightarrow> PGNUM va \<notin> tlb s2" "pt_of s2 pd (PDX va) = Some pt"
      "\<forall>pd' i' j'. (pd', i', j') \<in> slots pds \<longrightarrow> pg_of s2 pd' i' j' =
        (if (pd', i', j') = (pd, PDX va, PTX va) then None else pg_of ?s1 pd' i' j')"
    by blast
  have "vm_frame s s2" using s2(3) by (simp add: vm_frame_iff set_page_def)
  moreover have "pp < npages s" using ins by (simp add: insertable_def)
  moreover have none: "pg_of s2 pd (PDX va) (PTX va) = None"
    using s2(7) [rule_format, OF sl] by simp
  ultimately have fr: "vm_frame s s2" and pp: "pp < npages s2" by (simp_all add: vm_frame_iff)
  let ?v = "page2pa pp OR perm OR PTE_P"
  let ?s' = "store (pd, PDX va) (load (pd, PDX va) (store (pt, PTX va) ?v s2) OR perm)
    (store (pt, PTX va) ?v s2)"
  note wr = page_insert_write [OF s2(2) pd s2(6) none pp perm]
  have run: "page_insert pd pp va perm s0 = Inr (0, ?s')"
    unfolding page_insert_def walk bindS_Inr option.case Let_def s2(1) ..
  have pg: "pg_of ?s' pd' i' j' = (if (pd', i', j') = (pd, PDX va, PTX va) then Some ?v else pg_of s pd' i' j')"
    if "(pd', i', j') \<in> slots pds" for pd' i' j'
    using wr(5) [OF that] s2(7) [rule_format, OF that] by (simp add: pgs)
  have "inserted pds pd va ?v s ?s'"
    unfolding inserted_def
    using vm_frame_trans [OF fr wr(3)] s2(4,5) pg wr(4) by (simp add: pgs)
  with run wr(1) show ?thesis by blast
qed

lemma page_insert_spec:
  assumes inv: "vm_inv pds fl ex s" and pd: "pd \<in> pds" "va < UTOP" and perm: "flags_only perm"
    and ins: "insertable pds fl ex s pp" and un: "uninit s \<noteq> 0"
    and few: "card (mappings pds s pp) + ex pp + 1 < 0x10000"
  shows "page_insert pd pp va perm s = Inr (- E_NO_MEM, s) \<and> fl = [] \<or>
    (\<exists>s' fl'. page_insert pd pp va perm s = Inr (0, s') \<and> vm_inv pds fl' ex s' \<and>
       inserted pds pd va (page2pa pp OR perm OR PTE_P) s s')"
proof -
  obtain q s0 fl0 where w: "pgdir_walk pd va True s = Inr (q, s0)" "vm_inv pds fl0 ex s0" "vm_frame s s0"
      "tlb s0 = tlb s"
      "\<forall>pd' i' j'. (pd', i', j') \<in> slots pds \<longrightarrow> pg_of s0 pd' i' j' = pg_of s pd' i' j'"
      "\<forall>pp. insertable pds fl ex s pp \<longrightarrow> insertable pds fl0 ex s0 pp"
      "case q of None \<Rightarrow> fl = [] \<and> s0 = s
       | Some q \<Rightarrow> \<exists>pt. q = (pt, PTX va) \<and> pt_of s0 pd (PDX va) = Some pt"
    using pgdir_walk_create [OF inv pd] by blast
  show ?thesis
  proof (cases q)
    case None
    then have "page_insert pd pp va perm s = Inr (- E_NO_MEM, s)" using w(1,7) by (simp add: page_insert_def)
    then show ?thesis using None w(7) by simp
  next
    case (Some q')
    then obtain pt where q: "q = Some (pt, PTX va)" and pt: "pt_of s0 pd (PDX va) = Some pt" using w(7) by auto
    have "mappings pds s0 pp = mappings pds s pp" using w(5) by (simp add: mappings_def cong: conj_cong)
    then have few0: "card (mappings pds s0 pp) + ex pp + 1 < 0x10000" using few by simp
    have un0: "uninit s0 \<noteq> 0" using un w(3) by (simp add: vm_frame_iff)
    from page_insert_mapped [OF w(2) pd perm w(6) [rule_format, OF ins] un0 few0 pt w(1) [unfolded q]]
    obtain s' fl' where s': "page_insert pd pp va perm s = Inr (0, s')" "vm_inv pds fl' ex s'"
      "inserted pds pd va (page2pa pp OR perm OR PTE_P) s0 s'" by blast
    have "inserted pds pd va (page2pa pp OR perm OR PTE_P) s s'"
      using s'(3) w(4,5) slots_va [OF pd] vm_frame_trans [OF w(3)] by (simp add: inserted_def)
    with s' show ?thesis by blast
  qed
qed

end
