(* ===== verification/AddrSpace.thy ===== *)
theory AddrSpace
  imports Vm
begin

text \<open>
  What \<open>kern/pmap.c\<close> promises to the rest of the kernel: an address space is a partial function from
  user addresses to page table entries, which \<open>page_insert\<close> and \<open>page_remove\<close> update at one page.
  The contract is a locale, interpreted on the model; the properties of the component follow.
\<close>

section \<open>The contract\<close>

definition look :: "'z vm_scheme \<Rightarrow> nat \<Rightarrow> 32 word \<Rightarrow> 32 word option" where
  "look s pd va = pg_of s pd (PDX va) (PTX va)"

definition vm_ok :: "nat set \<Rightarrow> 'z vm_scheme \<Rightarrow> bool" where
  "vm_ok pds s \<longleftrightarrow> (\<exists>fl. vm_inv pds fl (\<lambda>_. 0) s) \<and> uninit s \<noteq> 0"

definition mappable :: "nat set \<Rightarrow> 'z vm_scheme \<Rightarrow> nat \<Rightarrow> bool" where
  "mappable pds s p \<longleftrightarrow>
     (\<exists>fl. vm_inv pds fl (\<lambda>_. 0) s \<and> insertable pds fl (\<lambda>_. 0) s p) \<and> card (mappings pds s p) + 1 < 0x10000"

locale address_space =
  fixes inv :: "nat set \<Rightarrow> 's \<Rightarrow> bool"
    and lookup :: "'s \<Rightarrow> nat \<Rightarrow> 32 word \<Rightarrow> 32 word option"
    and can_map :: "nat set \<Rightarrow> 's \<Rightarrow> nat \<Rightarrow> bool"
    and unmap :: "nat \<Rightarrow> 32 word \<Rightarrow> 's \<Rightarrow> ('s, unit) res"
    and insert :: "nat \<Rightarrow> nat \<Rightarrow> 32 word \<Rightarrow> 32 word \<Rightarrow> 's \<Rightarrow> ('s, int) res"
    and exhausted :: "'s \<Rightarrow> bool"
    and frame :: "'s \<Rightarrow> 's \<Rightarrow> bool"
    and kept :: "nat set \<Rightarrow> 's \<Rightarrow> 's \<Rightarrow> bool"
  assumes unmap_law:
      "inv pds s \<Longrightarrow> pd \<in> pds \<Longrightarrow> va < UTOP \<Longrightarrow>
       \<exists>s'. unmap pd va s = Inr ((), s') \<and> inv pds s' \<and> kept pds s s' \<and>
         (\<forall>pd'\<in>pds. \<forall>va'<UTOP. lookup s' pd' va' =
            (if pd' = pd \<and> PGNUM va' = PGNUM va then None else lookup s pd' va'))"
    and insert_law:
      "inv pds s \<Longrightarrow> pd \<in> pds \<Longrightarrow> va < UTOP \<Longrightarrow> flags_only perm \<Longrightarrow> can_map pds s p \<Longrightarrow>
       insert pd p va perm s = Inr (- E_NO_MEM, s) \<and> exhausted s \<or>
       (\<exists>s'. insert pd p va perm s = Inr (0, s') \<and> inv pds s' \<and> frame s s' \<and>
         (\<forall>pd'\<in>pds. \<forall>va'<UTOP. lookup s' pd' va' =
            (if pd' = pd \<and> PGNUM va' = PGNUM va then Some (page2pa p OR perm OR PTE_P)
             else lookup s pd' va')))"
    and kept_refl: "kept pds s s"
    and kept_trans: "kept pds s s' \<Longrightarrow> kept pds s' s'' \<Longrightarrow> kept pds s s''"
begin

text \<open>Unmapping a sequence of pages, as the loop that tears an address space down does.\<close>

lemma unmap_all:
  assumes "inv pds s" "pd \<in> pds" "\<forall>va\<in>set vas. va < UTOP"
  shows "\<exists>s'. for_each (unmap pd) vas s = Inr ((), s') \<and> inv pds s' \<and> kept pds s s' \<and>
    (\<forall>pd'\<in>pds. \<forall>va'<UTOP. lookup s' pd' va' =
       (if pd' = pd \<and> PGNUM va' \<in> PGNUM ` set vas then None else lookup s pd' va'))"
proof (rule for_each_total [where P = "\<lambda>vs s'. inv pds s' \<and> kept pds s s' \<and>
    (\<forall>pd'\<in>pds. \<forall>va'<UTOP. lookup s' pd' va' =
       (if pd' = pd \<and> PGNUM va' \<in> PGNUM ` set vs then None else lookup s pd' va'))"])
  show "inv pds s \<and> kept pds s s \<and> (\<forall>pd'\<in>pds. \<forall>va'<UTOP. lookup s pd' va' =
       (if pd' = pd \<and> PGNUM va' \<in> PGNUM ` set [] then None else lookup s pd' va'))"
    using assms kept_refl by simp
next
  fix xs va ys s1
  assume vas: "vas = xs @ va # ys" and s1: "inv pds s1 \<and> kept pds s s1 \<and>
    (\<forall>pd'\<in>pds. \<forall>va'<UTOP. lookup s1 pd' va' =
       (if pd' = pd \<and> PGNUM va' \<in> PGNUM ` set xs then None else lookup s pd' va'))"
  have "va < UTOP" using assms(3) vas by simp
  from unmap_law [OF conjunct1 [OF s1] assms(2) this] obtain s2 where
    s2: "unmap pd va s1 = Inr ((), s2)" "inv pds s2" "kept pds s1 s2"
      "\<forall>pd'\<in>pds. \<forall>va'<UTOP. lookup s2 pd' va' =
        (if pd' = pd \<and> PGNUM va' = PGNUM va then None else lookup s1 pd' va')" by blast
  have "kept pds s s2" using kept_trans s1 s2(3) by blast
  moreover have "\<forall>pd'\<in>pds. \<forall>va'<UTOP. lookup s2 pd' va' =
       (if pd' = pd \<and> PGNUM va' \<in> PGNUM ` set (xs @ [va]) then None else lookup s pd' va')"
    by (intro ballI allI impI) (use s2(4) s1 in auto)
  ultimately show "\<exists>s'. unmap pd va s1 = Inr ((), s') \<and> inv pds s' \<and> kept pds s s' \<and>
    (\<forall>pd'\<in>pds. \<forall>va'<UTOP. lookup s' pd' va' =
       (if pd' = pd \<and> PGNUM va' \<in> PGNUM ` set (xs @ [va]) then None else lookup s pd' va'))"
    using s2 by blast
qed

text \<open>Mapping a page and unmapping it again leaves every other page as it was.\<close>

lemma insert_unmap:
  assumes "inv pds s" "pd \<in> pds" "va < UTOP" "flags_only perm" "can_map pds s p"
    and "insert pd p va perm s = Inr (0, s1)"
  shows "\<exists>s'. unmap pd va s1 = Inr ((), s') \<and> inv pds s' \<and> lookup s' pd va = None \<and>
    (\<forall>pd'\<in>pds. \<forall>va'<UTOP. \<not> (pd' = pd \<and> PGNUM va' = PGNUM va) \<longrightarrow> lookup s' pd' va' = lookup s pd' va')"
proof -
  from insert_law [OF assms(1-5)] assms(6) have "inv pds s1" and
    l1: "\<forall>pd'\<in>pds. \<forall>va'<UTOP. lookup s1 pd' va' =
      (if pd' = pd \<and> PGNUM va' = PGNUM va then Some (page2pa p OR perm OR PTE_P) else lookup s pd' va')"
    by (auto simp: E_NO_MEM_def)
  from unmap_law [OF this(1) assms(2,3)] obtain s2 where
    s2: "unmap pd va s1 = Inr ((), s2)" "inv pds s2"
      "\<forall>pd'\<in>pds. \<forall>va'<UTOP. lookup s2 pd' va' =
        (if pd' = pd \<and> PGNUM va' = PGNUM va then None else lookup s1 pd' va')" by blast
  have "lookup s2 pd va = None" using s2(3) assms(2,3) by simp
  with s2 l1 show ?thesis by auto
qed

end

section \<open>The model keeps the contract\<close>

lemma slots_look: "pd \<in> pds \<Longrightarrow> va < UTOP \<Longrightarrow>
  (\<And>pd' i' j'. (pd', i', j') \<in> slots pds \<Longrightarrow> pg_of s' pd' i' j' =
     (if (pd', i', j') = (pd, PDX va, PTX va) then n else pg_of s pd' i' j')) \<Longrightarrow>
  pd' \<in> pds \<Longrightarrow> va' < UTOP \<Longrightarrow>
  look s' pd' va' = (if pd' = pd \<and> PGNUM va' = PGNUM va then n else look s pd' va')"
  using slots_va [of pd' pds va'] same_slot_iff [of va' va] by (auto simp: look_def)

text \<open>
  The pages the system accounts for: free pages, page directories, page tables and mapped pages.
  Operations may move pages between these roles and never lose one.
\<close>

definition free_set :: "'z vm_scheme \<Rightarrow> nat set" where
  "free_set s = {p. \<exists>fl. fl_inv fl s \<and> p \<in> set fl}"

definition pool :: "nat set \<Rightarrow> 'z vm_scheme \<Rightarrow> nat set" where
  "pool pds s = free_set s \<union> pds \<union> page_tables pds s \<union> {p. mappings pds s p \<noteq> {}}"

definition vm_kept :: "nat set \<Rightarrow> 'z vm_scheme \<Rightarrow> 'z vm_scheme \<Rightarrow> bool" where
  "vm_kept pds s s' \<longleftrightarrow>
     vm_frame s s' \<and> (\<forall>pd\<in>pds. \<forall>i. pt_of s' pd i = pt_of s pd i) \<and> pool pds s' = pool pds s"

lemma fl_inv_unique: "fl_inv fl s \<Longrightarrow> fl_inv fl' s \<Longrightarrow> fl = fl'"
  using chain_unique unfolding fl_inv_def by blast

lemma free_set_eq: "fl_inv fl s \<Longrightarrow> free_set s = set fl"
  using fl_inv_unique unfolding free_set_def by blast

lemma vm_inv_free_set: "vm_inv pds fl ex s \<Longrightarrow> free_set s = set fl"
  by (simp add: vm_inv_def free_set_eq)

lemma page_remove_pool:
  assumes inv: "vm_inv pds fl (\<lambda>_. 0) s" "vm_inv pds fl' (\<lambda>_. 0) s'"
    and x: "x \<in> slots pds" "x \<in> mappings pds s p"
    and fl': "fl' = (if card (mappings pds s p) + 0 = 1 then p # fl else fl)"
    and pts: "\<forall>pd\<in>pds. \<forall>i. pt_of s' pd i = pt_of s pd i"
    and pg: "\<And>pd' i' j'. (pd', i', j') \<in> slots pds \<Longrightarrow> pg_of s' pd' i' j' =
       (if (pd', i', j') = x then None else pg_of s pd' i' j')"
  shows "pool pds s' = pool pds s"
proof -
  have map: "mappings pds s' q = mappings pds s q - {x}" for q
    using mappings_upd [OF pg x(1)] by simp
  have tab: "page_tables pds s' = page_tables pds s"
    using pts by (simp add: page_tables_def)
  have "q = p" if "x \<in> mappings pds s q" for q
    using that x(2) by (cases x) (auto simp: mappings_def)
  then have other: "mappings pds s' q = mappings pds s q" if "q \<noteq> p" for q
    using map [of q] that by auto
  have emp: "mappings pds s' p = {} \<longleftrightarrow> card (mappings pds s p) = 1"
  proof
    assume "mappings pds s' p = {}"
    then have "mappings pds s p = {x}" using map [of p] x(2) by auto
    then show "card (mappings pds s p) = 1" by simp
  next
    assume "card (mappings pds s p) = 1"
    then have "mappings pds s p = {x}" using x(2) by (metis card_1_singletonE singletonD)
    then show "mappings pds s' p = {}" using map [of p] by simp
  qed
  have "set fl' \<union> {q. mappings pds s' q \<noteq> {}} = set fl \<union> {q. mappings pds s q \<noteq> {}}"
  proof (rule set_eqI)
    fix q
    show "q \<in> set fl' \<union> {q. mappings pds s' q \<noteq> {}} \<longleftrightarrow> q \<in> set fl \<union> {q. mappings pds s q \<noteq> {}}"
      using other [of q] emp x(2) fl' by (cases "q = p") auto
  qed
  then show ?thesis
    unfolding pool_def vm_inv_free_set [OF inv(1)] vm_inv_free_set [OF inv(2)] tab by blast
qed

lemma page_remove_law:
  assumes ok: "vm_ok pds s" and pd: "pd \<in> pds" "va < UTOP"
  shows "\<exists>s'. page_remove pd va s = Inr ((), s') \<and> vm_ok pds s' \<and> vm_kept pds s s' \<and>
    (\<forall>pd'\<in>pds. \<forall>va'<UTOP. look s' pd' va' =
       (if pd' = pd \<and> PGNUM va' = PGNUM va then None else look s pd' va'))"
proof -
  obtain fl where inv: "vm_inv pds fl (\<lambda>_. 0) s" and un: "uninit s \<noteq> 0"
    using ok by (auto simp: vm_ok_def)
  show ?thesis
  proof (cases "pg_of s pd (PDX va) (PTX va)")
    case None
    then have "look s pd' va' = None" if "pd' = pd" "PGNUM va' = PGNUM va" for pd' va'
      using that same_slot_iff [of va' va] by (simp add: look_def)
    then show ?thesis using page_remove_None [OF inv pd None] ok by (auto simp: vm_kept_def)
  next
    case (Some w)
    from page_remove_Some [OF inv pd Some un] obtain s' fl' where
      s': "page_remove pd va s = Inr ((), s')" "vm_inv pds fl' (\<lambda>_. 0) s'" "vm_frame s s'"
        "fl' = (if card (mappings pds s (PGNUM w)) + 0 = 1 then PGNUM w # fl else fl)"
        "\<forall>pd'\<in>pds. \<forall>i'. pt_of s' pd' i' = pt_of s pd' i'"
        "\<forall>pd' i' j'. (pd', i', j') \<in> slots pds \<longrightarrow> pg_of s' pd' i' j' =
          (if (pd', i', j') = (pd, PDX va, PTX va) then None else pg_of s pd' i' j')" by blast
    have "uninit s' = uninit s" using s'(3) by (simp add: vm_frame_iff)
    then have "vm_ok pds s'" using s'(2) un by (auto simp: vm_ok_def)
    moreover have "pool pds s' = pool pds s"
      by (rule page_remove_pool [OF inv s'(2) slots_va [OF pd] mapped_slot [OF slots_va [OF pd] Some] s'(4,5)
            s'(6) [rule_format]])
    then have "vm_kept pds s s'" using s'(3,5) by (simp add: vm_kept_def)
    moreover have "\<forall>pd'\<in>pds. \<forall>va'<UTOP. look s' pd' va' =
        (if pd' = pd \<and> PGNUM va' = PGNUM va then None else look s pd' va')"
      using slots_look [OF pd s'(6) [rule_format]] by simp
    ultimately show ?thesis using s'(1) by blast
  qed
qed

lemma vm_inv_fl_unique: "vm_inv pds fl ex s \<Longrightarrow> vm_inv pds fl' ex' s \<Longrightarrow> fl = fl'"
  using chain_unique unfolding vm_inv_def fl_inv_def by blast

lemma page_insert_law:
  assumes ok: "vm_ok pds s" and pd: "pd \<in> pds" "va < UTOP" and perm: "flags_only perm" and m: "mappable pds s p"
  shows "page_insert pd p va perm s = Inr (- E_NO_MEM, s) \<and> page_free_list s = None \<or>
    (\<exists>s'. page_insert pd p va perm s = Inr (0, s') \<and> vm_ok pds s' \<and> vm_frame s s' \<and>
      (\<forall>pd'\<in>pds. \<forall>va'<UTOP. look s' pd' va' =
         (if pd' = pd \<and> PGNUM va' = PGNUM va then Some (page2pa p OR perm OR PTE_P) else look s pd' va')))"
proof -
  obtain fl where inv: "vm_inv pds fl (\<lambda>_. 0) s" "insertable pds fl (\<lambda>_. 0) s p"
    and few: "card (mappings pds s p) + 0 + 1 < 0x10000" and un: "uninit s \<noteq> 0"
    using ok m by (auto simp: vm_ok_def mappable_def)
  from page_insert_spec [OF inv(1) pd perm inv(2) un few] show ?thesis
  proof
    assume "\<exists>s' fl'. page_insert pd p va perm s = Inr (0, s') \<and> vm_inv pds fl' (\<lambda>_. 0) s' \<and>
      inserted pds pd va (page2pa p OR perm OR PTE_P) s s'"
    then obtain s' fl' where s': "page_insert pd p va perm s = Inr (0, s')" "vm_inv pds fl' (\<lambda>_. 0) s'"
      "vm_frame s s'" "\<forall>pd' i' j'. (pd', i', j') \<in> slots pds \<longrightarrow> pg_of s' pd' i' j' =
        (if (pd', i', j') = (pd, PDX va, PTX va) then Some (page2pa p OR perm OR PTE_P) else pg_of s pd' i' j')"
      by (auto simp: inserted_def)
    have "uninit s' = uninit s" using s'(3) by (simp add: vm_frame_iff)
    then have "vm_ok pds s'" using s'(2) un by (auto simp: vm_ok_def)
    moreover have "\<forall>pd'\<in>pds. \<forall>va'<UTOP. look s' pd' va' =
        (if pd' = pd \<and> PGNUM va' = PGNUM va then Some (page2pa p OR perm OR PTE_P) else look s pd' va')"
      using slots_look [OF pd s'(4) [rule_format]] by simp
    ultimately show ?thesis using s'(1,3) by blast
  next
    assume "page_insert pd p va perm s = Inr (- E_NO_MEM, s) \<and> fl = []"
    then show ?thesis using inv(1) by (simp add: vm_inv_def fl_inv_def)
  qed
qed

interpretation aspace: address_space vm_ok look mappable page_remove page_insert
  "\<lambda>s. page_free_list s = None" vm_frame vm_kept
proof unfold_locales
  show "vm_kept pds s s" for pds and s :: "'b vm_scheme" by (simp add: vm_kept_def)
  show "vm_kept pds s s' \<Longrightarrow> vm_kept pds s' s'' \<Longrightarrow> vm_kept pds s s''" for pds and s s' s'' :: "'b vm_scheme"
    unfolding vm_kept_def using vm_frame_trans by auto
qed (fact page_remove_law page_insert_law)+

lemma vm_inv_fresh:
  assumes "npages s \<le> 0x100000" "fl_inv fl s" "pd_inv pds fl s"
    and "\<And>pd i. pd \<in> pds \<Longrightarrow> i < PDX UTOP \<Longrightarrow> \<not> bit (pmem s pd i) 0"
  shows "vm_inv pds fl (\<lambda>_. 0) s"
proof -
  have "mappings pds s p = {}" for p
    using assms(4) by (auto simp: mappings_def slots_def pg_of_def pt_of_def)
  moreover have "pt_inv pds fl s" using assms(4) by (simp add: pt_inv_def pt_of_def)
  ultimately show ?thesis using assms by (simp add: vm_inv_def rc_inv_def)
qed

text \<open>A machine with sixteen pages: two of them free, an empty page directory and an unused page.\<close>

definition demo_vm :: vm where
  "demo_vm = \<lparr>npages = 16, npages_basemem = 16, kend = 0, kern_pgdir = 0,
     pages = (\<lambda>p. \<lparr>pp_link = (if p = 3 then Some 2 else None), pp_ref = (if p = 4 then 1 else 0)\<rparr>),
     page_free_list = Some 3, pmem = (\<lambda>_ _. 0), tlb = {}, nextfree = 0, mmio_base = MMIOBASE,
     user_mem_check_addr = 0, uninit = 1\<rparr>"

lemma demo_vm_inv: "vm_inv {4} [3, 2] (\<lambda>_. 0) demo_vm"
  by (rule vm_inv_fresh) (simp_all add: demo_vm_def fl_inv_def pd_inv_def)

lemma demo_vm_ok: "vm_ok {4} demo_vm" and demo_mappable: "mappable {4} demo_vm 5"
  and demo_look: "look demo_vm 4 va = None"
proof -
  have "mappings {4} demo_vm 5 = {}" "5 \<notin> page_tables {4} demo_vm"
    by (simp_all add: mappings_def page_tables_def pg_of_def pt_of_def demo_vm_def)
  then have "insertable {4} [3, 2] (\<lambda>_. 0) demo_vm 5" by (simp add: insertable_def demo_vm_def)
  with \<open>mappings {4} demo_vm 5 = {}\<close> demo_vm_inv
  show "mappable {4} demo_vm 5" by (auto simp: mappable_def)
  show "vm_ok {4} demo_vm" using demo_vm_inv by (auto simp: vm_ok_def demo_vm_def)
  show "look demo_vm 4 va = None" by (simp add: look_def pg_of_def pt_of_def demo_vm_def)
qed

section \<open>Properties\<close>

text \<open>
  C4. \<open>page_insert\<close> is total on a consistent system. It fails with \<open>-E_NO_MEM\<close> only when no page is
  free, and then changes nothing. Otherwise it maps the page at exactly the given virtual page, with
  the given permissions, in exactly the given address space; whatever was mapped there is replaced
  (its reference dropped, the page freed if that was the last one), also when it is the same page.
  The reference counts, the free list and the page tables are consistent again afterwards.
\<close>

theorem page_insert_correct:
  assumes "vm_ok pds s" "pd \<in> pds" "va < UTOP" "flags_only perm" "mappable pds s p"
  shows "page_insert pd p va perm s = Inr (- E_NO_MEM, s) \<and> page_free_list s = None \<or>
    (\<exists>s'. page_insert pd p va perm s = Inr (0, s') \<and> vm_ok pds s' \<and> vm_frame s s' \<and>
      (\<forall>pd'\<in>pds. \<forall>va'<UTOP. look s' pd' va' =
         (if pd' = pd \<and> PGNUM va' = PGNUM va then Some (page2pa p OR perm OR PTE_P) else look s pd' va')))"
  using assms by (rule aspace.insert_law)

theorem page_insert_correct_witness:
  "\<exists>s'. page_insert 4 5 0x800000 PTE_W demo_vm = Inr (0, s') \<and> vm_ok {4} s' \<and>
     look s' 4 0x800000 = Some 0x5003 \<and> look s' 4 0x801000 = None"
proof -
  have "(0x800000 :: 32 word) < UTOP" "(0x801000 :: 32 word) < UTOP" "page_free_list demo_vm \<noteq> None"
    by (simp_all add: jos_consts demo_vm_def)
  moreover have "PGNUM 0x801000 \<noteq> PGNUM 0x800000" by (simp add: PGNUM_div)
  moreover have "page2pa 5 OR PTE_W OR PTE_P = 0x5003" by (simp add: page2pa_def jos_consts)
  ultimately show ?thesis
    using page_insert_correct [OF demo_vm_ok _ _ _ demo_mappable, of 4 "0x800000" PTE_W] by (auto simp: demo_look)
qed

text \<open>
  C9. \<open>page_remove\<close> is total on a consistent system and silently does nothing if the address is not
  mapped. Otherwise it clears exactly the entry of that virtual page and invalidates its cached
  translation; the physical page goes to the head of the free list exactly if this was the only
  mapping of it in all address spaces, and the free list is unchanged otherwise.
\<close>

theorem page_remove_correct:
  assumes "vm_inv pds fl (\<lambda>_. 0) s" "uninit s \<noteq> 0" "pd \<in> pds" "va < UTOP"
  shows "look s pd va = None \<and> page_remove pd va s = Inr ((), s) \<or>
    (\<exists>w s' fl'. look s pd va = Some w \<and> page_remove pd va s = Inr ((), s') \<and> vm_frame s s' \<and>
       vm_inv pds fl' (\<lambda>_. 0) s' \<and> tlb s' = tlb s - {PGNUM va} \<and>
       fl' = (if card (mappings pds s (PGNUM w)) = 1 then PGNUM w # fl else fl) \<and>
       (\<forall>pd'\<in>pds. \<forall>va'<UTOP. look s' pd' va' =
          (if pd' = pd \<and> PGNUM va' = PGNUM va then None else look s pd' va')))"
proof (cases "look s pd va")
  case None
  then show ?thesis using page_remove_None [OF assms(1,3,4)] by (simp add: look_def)
next
  case (Some w)
  from page_remove_Some [OF assms(1,3,4) Some [unfolded look_def] assms(2)] obtain s' fl' where
    s': "page_remove pd va s = Inr ((), s')" "vm_inv pds fl' (\<lambda>_. 0) s'" "vm_frame s s'"
      "fl' = (if card (mappings pds s (PGNUM w)) + 0 = 1 then PGNUM w # fl else fl)"
      "tlb s' = tlb s - {PGNUM va}"
      "\<forall>pd' i' j'. (pd', i', j') \<in> slots pds \<longrightarrow> pg_of s' pd' i' j' =
        (if (pd', i', j') = (pd, PDX va, PTX va) then None else pg_of s pd' i' j')" by blast
  have "\<forall>pd'\<in>pds. \<forall>va'<UTOP. look s' pd' va' =
      (if pd' = pd \<and> PGNUM va' = PGNUM va then None else look s pd' va')"
    using slots_look [OF assms(3,4) s'(6) [rule_format]] by simp
  then show ?thesis using Some s'(1-5) by (intro disjI2 exI [of _ w] exI [of _ s'] exI [of _ fl']) simp
qed

theorem page_remove_correct_witness:
  "\<exists>s1 s2. page_insert 4 5 0x800000 PTE_W demo_vm = Inr (0, s1) \<and> look s1 4 0x800000 = Some 0x5003 \<and>
     page_remove 4 0x800000 s1 = Inr ((), s2) \<and> look s2 4 0x800000 = None \<and> vm_ok {4} s2"
proof -
  have va: "(0x800000 :: 32 word) < UTOP" by (simp add: jos_consts)
  have "page_free_list demo_vm \<noteq> None" by (simp add: demo_vm_def)
  moreover have "page2pa 5 OR PTE_W OR PTE_P = 0x5003" by (simp add: page2pa_def jos_consts)
  ultimately obtain s1 where s1: "page_insert 4 5 0x800000 PTE_W demo_vm = Inr (0, s1)" "vm_ok {4} s1"
    "look s1 4 0x800000 = Some 0x5003"
    using page_insert_law [OF demo_vm_ok _ va _ demo_mappable, of 4 PTE_W] va by auto
  then obtain fl where inv: "vm_inv {4} fl (\<lambda>_. 0) s1" "uninit s1 \<noteq> 0" by (auto simp: vm_ok_def)
  from page_remove_correct [OF inv _ va, of 4] s1(3) obtain s2 fl2 where
    s2: "page_remove 4 0x800000 s1 = Inr ((), s2)" "vm_inv {4} fl2 (\<lambda>_. 0) s2" "vm_frame s1 s2"
      "look s2 4 0x800000 = None"
    using va by auto
  have "vm_ok {4} s2" using s2(2,3) inv(2) by (auto simp: vm_ok_def vm_frame_iff)
  with s1 s2 show ?thesis by blast
qed

text \<open>
  \<open>page_lookup\<close> stores the address of the entry only if the variable it is asked to store it in
  holds a non-zero value before the call. In \<open>page_remove\<close> that variable is an uninitialised local:
  if it happens to be zero, removing a mapped page drops its reference and then writes through a
  null pointer.
\<close>

theorem page_remove_uninitialised:
  assumes "vm_inv pds fl (\<lambda>_. 0) s" "pd \<in> pds" "va < UTOP" "look s pd va = Some w" "uninit s = 0"
  shows "\<exists>s'. page_remove pd va s = Inl (NullDeref, s') \<and> look s' pd va = Some w \<and>
    pp_ref (pages s' (PGNUM w)) = pp_ref (pages s (PGNUM w)) - 1"
proof -
  have "PGNUM w \<notin> set fl"
    using vm_inv_mapped(2) [OF assms(1) slots_va [OF assms(2,3)]] assms(4) by (simp add: look_def)
  then have "pp_link (pages s (PGNUM w)) = None" using assms(1) by (simp add: vm_inv_def fl_inv_def)
  then obtain s' where s': "page_decref (PGNUM w) s = Inr ((), s')" "pmem s' = pmem s"
    "pp_ref (pages s' (PGNUM w)) = pp_ref (pages s (PGNUM w)) - 1"
    by (cases "pp_ref (pages s (PGNUM w)) = 1") (simp_all add: page_decref_def page_free_def)
  have "look s' pd va = Some w" using assms(4) s'(2) by (simp add: look_def view_simps [OF s'(2)])
  then show ?thesis
    using page_lookup_spec [OF assms(1-3)] assms(4,5) s' by (simp add: page_remove_def look_def)
qed

theorem page_remove_uninitialised_witness:
  "\<exists>s1 s2. page_insert 4 5 0x800000 PTE_W demo_vm = Inr (0, s1) \<and>
     page_remove 4 0x800000 (s1\<lparr>uninit := 0\<rparr>) = Inl (NullDeref, s2) \<and> look s2 4 0x800000 = Some 0x5003"
proof -
  have va: "(0x800000 :: 32 word) < UTOP" by (simp add: jos_consts)
  have "page_free_list demo_vm \<noteq> None" by (simp add: demo_vm_def)
  moreover have "page2pa 5 OR PTE_W OR PTE_P = 0x5003" by (simp add: page2pa_def jos_consts)
  ultimately obtain s1 where s1: "page_insert 4 5 0x800000 PTE_W demo_vm = Inr (0, s1)" "vm_ok {4} s1"
    "look s1 4 0x800000 = Some 0x5003"
    using page_insert_law [OF demo_vm_ok _ va _ demo_mappable, of 4 PTE_W] va by auto
  let ?s = "s1\<lparr>uninit := 0\<rparr>"
  obtain fl where "vm_inv {4} fl (\<lambda>_. 0) s1" using s1(2) by (auto simp: vm_ok_def)
  then have inv: "vm_inv {4} fl (\<lambda>_. 0) ?s"
    using vm_inv_same_view [OF same_view_pmem, of ?s s1] by simp
  have "look ?s 4 0x800000 = Some 0x5003" using s1(3) by (simp add: look_def view_simps [of ?s s1])
  from page_remove_uninitialised [OF inv _ va this] s1(1) show ?thesis by auto
qed

end
