(* ===== verification/PageInit.thy ===== *)
theory PageInit
  imports AddrSpace
begin

text \<open>
  Boot-time memory management of \<open>kern/pmap.c\<close>: the size of memory, the bump allocator, the free
  list that \<open>page_init\<close> leaves behind, and the stacks that \<open>mem_init_mp\<close> maps.
\<close>

section \<open>Detecting memory\<close>

text \<open>\<open>cmos r\<close> is the byte that \<open>mc146818_read(r)\<close> returns.\<close>

definition NVRAM_BASELO :: nat where [jos_consts]: "NVRAM_BASELO = 0x15"
definition NVRAM_EXTLO :: nat where [jos_consts]: "NVRAM_EXTLO = 0x17"

definition nvram_read :: "(nat \<Rightarrow> nat) \<Rightarrow> nat \<Rightarrow> nat" where
  "nvram_read cmos r = cmos r OR push_bit 8 (cmos (r + 1))"

definition i386_detect_memory :: "(nat \<Rightarrow> nat) \<Rightarrow> 'z vm_scheme \<Rightarrow> 'z vm_scheme" where
  "i386_detect_memory cmos s =
     (let base = nvram_read cmos NVRAM_BASELO * 1024 div 4096;
          ext = nvram_read cmos NVRAM_EXTLO * 1024 div 4096
      in s\<lparr>npages_basemem := base, npages := (if ext \<noteq> 0 then 0x100000 div 4096 + ext else base)\<rparr>)"

definition NCPU :: nat where [jos_consts]: "NCPU = 8"

text \<open>\<open>kstack i\<close> is the physical address of \<open>percpu_kstacks[i]\<close>, which the linker places.\<close>

definition mem_init_mp :: "(nat \<Rightarrow> 32 word) \<Rightarrow> 'z vm_scheme \<Rightarrow> ('z vm_scheme, unit) res" where
  "mem_init_mp kstack s =
     for_each (\<lambda>i s. boot_map_region (kern_pgdir s) (KSTACKTOP - of_nat i * (KSTKSIZE + KSTKGAP) - KSTKSIZE)
                       KSTKSIZE (kstack i) (PTE_W OR PTE_P) s) [0..<NCPU] s"

lemma nvram_read_less: "(\<And>r. cmos r < 256) \<Longrightarrow> nvram_read cmos r < 65536"
proof -
  assume *: "\<And>r. cmos r < 256"
  have "push_bit 8 (cmos (r + 1)) < 2 ^ 16" using * [of "r + 1"] by (simp add: push_bit_eq_mult)
  moreover have "cmos r < 2 ^ 16" using * [of r] by simp
  ultimately have "take_bit 16 (nvram_read cmos r) = nvram_read cmos r"
    by (simp add: nvram_read_def take_bit_or take_bit_nat_eq_self)
  then show ?thesis by (simp add: take_bit_nat_eq_self_iff)
qed

section \<open>The bump allocator\<close>

definition next_free :: "'z vm_scheme \<Rightarrow> 32 word" where
  "next_free s = (if nextfree s = 0 then ROUNDUP (kend s) PGSIZE else nextfree s)"

lemma boot_alloc_0:
  "boot_alloc 0 s = Inr (next_free s, if nextfree s = 0 then s\<lparr>nextfree := ROUNDUP (kend s) PGSIZE\<rparr> else s)"
  by (simp add: boot_alloc_def next_free_def)

section \<open>The initial free list\<close>

text \<open>
  Which pages may be handed out: not page 0, not the hole for devices, not the memory of the kernel
  image and of everything \<open>boot_alloc\<close> gave away (up to page \<open>kp\<close>), not the start-up code of the
  other processors.
\<close>

definition usable :: "nat \<Rightarrow> nat \<Rightarrow> bool" where
  "usable kp i \<longleftrightarrow> i \<noteq> 0 \<and> (i < 160 \<or> 256 \<le> i) \<and> (i < 256 \<or> kp \<le> i) \<and> i \<noteq> 7"

definition kernel_pages :: "'z vm_scheme \<Rightarrow> nat" where
  "kernel_pages s = unat ((next_free s - KERNBASE) div PGSIZE)"

definition init_list :: "nat \<Rightarrow> nat list \<Rightarrow> nat list" where
  "init_list kp is = rev (filter (usable kp) is)"

lemma page_init_body_eq:
  "\<exists>s1. page_init_body i s =
     Inr ((), if usable (kernel_pages s) i
              then (set_page i (\<lambda>pi. pi\<lparr>pp_ref := 0, pp_link := page_free_list s\<rparr>) s1)\<lparr>page_free_list := Some i\<rparr>
              else set_page i (\<lambda>pi. pi\<lparr>pp_ref := 0, pp_link := None\<rparr>) s1) \<and>
   (s1 = s \<or> nextfree s = 0 \<and> s1 = s\<lparr>nextfree := next_free s\<rparr>)"
  by (rule exI [of _ "if 256 \<le> i \<and> nextfree s = 0 then s\<lparr>nextfree := next_free s\<rparr> else s"])
    (auto simp: page_init_body_def boot_alloc_0 usable_def kernel_pages_def next_free_def Let_def
      IOPHYSMEM_def EXTPHYSMEM_def PGSIZE_def MPENTRY_PADDR_def)

definition init_state :: "'z vm_scheme \<Rightarrow> nat list \<Rightarrow> 'z vm_scheme \<Rightarrow> bool" where
  "init_state s0 is s \<longleftrightarrow>
     fl_inv (init_list (kernel_pages s0) is) s \<and> next_free s = next_free s0 \<and> npages s = npages s0 \<and>
     pmem s = pmem s0 \<and> uninit s = uninit s0 \<and> vm.more s = vm.more s0"

lemma page_init_step:
  assumes st: "init_state s0 [0..<k] s" and k: "k < npages s0"
  shows "\<exists>s'. page_init_body k s = Inr ((), s') \<and> init_state s0 ([0..<k] @ [k]) s'"
proof -
  let ?kp = "kernel_pages s0"
  have kp: "kernel_pages s = ?kp" using st by (simp add: init_state_def kernel_pages_def)
  obtain s1 where s1: "page_init_body k s =
     Inr ((), if usable ?kp k
              then (set_page k (\<lambda>pi. pi\<lparr>pp_ref := 0, pp_link := page_free_list s\<rparr>) s1)\<lparr>page_free_list := Some k\<rparr>
              else set_page k (\<lambda>pi. pi\<lparr>pp_ref := 0, pp_link := None\<rparr>) s1)"
    and or: "s1 = s \<or> nextfree s = 0 \<and> s1 = s\<lparr>nextfree := next_free s\<rparr>"
    using page_init_body_eq [of k s] kp by auto
  have nk: "k \<notin> set (init_list ?kp [0..<k])" by (simp add: init_list_def)
  have fl: "fl_inv (init_list ?kp [0..<k]) s1" and same: "next_free s1 = next_free s" "npages s1 = npages s0"
    "pmem s1 = pmem s0" "uninit s1 = uninit s0" "vm.more s1 = vm.more s0" "page_free_list s1 = page_free_list s"
    using st or by (auto simp: init_state_def fl_inv_def next_free_def)
  show ?thesis
  proof (cases "usable ?kp k")
    case True
    let ?s1 = "set_page k (\<lambda>pi. pi\<lparr>pp_ref := 0\<rparr>) s1"
    have "fl_inv (k # init_list ?kp [0..<k]) (push_page k ?s1)"
      using fl_inv_push [of _ ?s1 k] fl_inv_set_ref [OF fl nk, of "\<lambda>_. 0"] nk k same by simp
    moreover have "(set_page k (\<lambda>pi. pi\<lparr>pp_ref := 0, pp_link := page_free_list s\<rparr>) s1)\<lparr>page_free_list := Some k\<rparr>
        = push_page k ?s1"
      using same by (simp add: push_page_def set_page_def)
    moreover have "next_free (push_page k ?s1) = next_free s1" "vm.more (push_page k ?s1) = vm.more s1"
      by (simp_all add: next_free_def push_page_def set_page_def)
    ultimately show ?thesis using True s1 st same by (auto simp: init_state_def init_list_def)
  next
    case False
    let ?s' = "set_page k (\<lambda>pi. pi\<lparr>pp_ref := 0, pp_link := None\<rparr>) s1"
    have "pp_link (pages s1 k) = None" using fl nk by (simp add: fl_inv_def)
    then have "(pages s1 k)\<lparr>pp_ref := 0, pp_link := None\<rparr> = (pages s1 k)\<lparr>pp_ref := 0\<rparr>"
      by (cases "pages s1 k") simp
    then have "?s' = set_page k (\<lambda>pi. pi\<lparr>pp_ref := 0\<rparr>) s1" by (simp add: set_page_def)
    with fl_inv_set_ref [OF fl nk, of "\<lambda>_. 0"] have "fl_inv (init_list ?kp [0..<k]) ?s'" by simp
    moreover have "next_free ?s' = next_free s1" "vm.more ?s' = vm.more s1"
      by (simp_all add: next_free_def set_page_def)
    ultimately show ?thesis using False s1 st same by (auto simp: init_state_def init_list_def)
  qed
qed

lemma page_init_run:
  assumes "page_free_list s = None" "\<And>p. pp_link (pages s p) = None"
  shows "\<exists>s'. page_init s = Inr ((), s') \<and> init_state s [0..<npages s] s'"
  unfolding page_init_def
proof (rule for_each_total)
  show "init_state s [] s" using assms by (simp add: init_state_def init_list_def fl_inv_def)
next
  fix xs i ys s1
  assume split: "[0..<npages s] = xs @ i # ys" and st: "init_state s xs s1"
  have "xs = take (length xs) [0..<npages s]" "[0..<npages s] ! length xs = i"
    "length xs < npages s"
    using split by (simp_all, metis length_upt diff_zero length_append length_Cons less_add_same_cancel1 zero_less_Suc)
  then have "xs = [0..<i]" "i < npages s" by (simp_all add: take_upt)
  then show "\<exists>s'. page_init_body i s1 = Inr ((), s') \<and> init_state s (xs @ [i]) s'"
    using page_init_step st by blast
qed

section \<open>Properties\<close>

lemma vm_inv_boot:
  assumes "fl_inv fl s" "npages s \<le> 0x100000"
  shows "vm_inv {} fl (\<lambda>_. 0) s"
proof -
  have "mappings {} s p = {}" for p by (simp add: mappings_def slots_def)
  then show ?thesis using assms by (simp add: vm_inv_def pd_inv_def pt_inv_def rc_inv_def)
qed

text \<open>
  C11. After \<open>page_init\<close> on a zeroed \<open>pages\<close> array the free list visits exactly the usable pages, in
  descending order: page 0, the hole \<open>[IOPHYSMEM, EXTPHYSMEM)\<close>, the pages of the kernel and of the
  boot allocator, and the page at \<open>MPENTRY_PADDR\<close> are left out, and memory is not touched. The
  invariant of the virtual memory system holds from then on.
\<close>

theorem page_init_correct:
  assumes "page_free_list s = None" "\<forall>p. pp_link (pages s p) = None" "npages s \<le> 0x100000"
  shows "\<exists>s' fl. page_init s = Inr ((), s') \<and> vm_inv {} fl (\<lambda>_. 0) s' \<and>
    fl = rev (filter (\<lambda>i. i \<noteq> 0 \<and> (i < 160 \<or> 256 \<le> i) \<and> (i < 256 \<or> kernel_pages s \<le> i) \<and> i \<noteq> 7)
                [0..<npages s]) \<and>
    next_free s' = next_free s \<and> pmem s' = pmem s"
proof -
  obtain s' where run: "page_init s = Inr ((), s')" and st: "init_state s [0..<npages s] s'"
    using page_init_run [of s] assms by auto
  have "init_list (kernel_pages s) [0..<npages s] =
      rev (filter (\<lambda>i. i \<noteq> 0 \<and> (i < 160 \<or> 256 \<le> i) \<and> (i < 256 \<or> kernel_pages s \<le> i) \<and> i \<noteq> 7) [0..<npages s])"
    unfolding init_list_def by (simp add: usable_def cong: filter_cong)
  with run st assms(3) show ?thesis by (auto simp: init_state_def intro!: vm_inv_boot)
qed

definition boot_vm :: vm where
  "boot_vm = \<lparr>npages = 300, npages_basemem = 160, kend = 0xF0115000, kern_pgdir = 277,
     pages = (\<lambda>_. \<lparr>pp_link = None, pp_ref = 0\<rparr>), page_free_list = None, pmem = (\<lambda>_ _. 0), tlb = {},
     nextfree = 0xF0118000, mmio_base = MMIOBASE, user_mem_check_addr = 0, uninit = 1\<rparr>"

theorem page_init_correct_witness:
  "\<exists>s'. page_init boot_vm = Inr ((), s') \<and> pmem s' = (\<lambda>_ _. 0) \<and>
     vm_inv {} (rev ([1, 2, 3, 4, 5, 6] @ [8..<160] @ [280..<300])) (\<lambda>_. 0) s'"
proof -
  have kp: "kernel_pages boot_vm = 280"
    by (simp add: kernel_pages_def next_free_def boot_vm_def KERNBASE_def PGSIZE_def)
  have "filter (\<lambda>i. i \<noteq> 0 \<and> (i < 160 \<or> 256 \<le> i) \<and> (i < 256 \<or> 280 \<le> i) \<and> i \<noteq> 7) [0..<300] =
      [1, 2, 3, 4, 5, 6] @ [8..<160] @ [280..<300 :: nat]" by code_simp
  with page_init_correct [of boot_vm] kp show ?thesis by (auto simp: boot_vm_def)
qed

end
