(* ===== verification/UserMem.thy ===== *)
theory UserMem
  imports PageInit
begin

text \<open>
  \<open>user_mem_check\<close> and \<open>user_mem_assert\<close> of \<open>kern/pmap.c\<close>: what a positive answer guarantees, where the
  first offending address is reported, and which requests escape the check by wrapping around.
\<close>

definition accessible :: "'z vm_scheme \<Rightarrow> nat \<Rightarrow> 32 word \<Rightarrow> 32 word \<Rightarrow> bool" where
  "accessible s pd perm a \<longleftrightarrow>
     a < ULIM \<and> bit (pmem s pd (PDX a)) 0 \<and>
     pmem s (PGNUM (pmem s pd (PDX a))) (PTX a) AND (perm OR PTE_P) = perm OR PTE_P"

text \<open>Every page table of the directory lies in installed memory.\<close>

definition tables_ok :: "'z vm_scheme \<Rightarrow> nat \<Rightarrow> bool" where
  "tables_ok s pd \<longleftrightarrow> (\<forall>i<PDX ULIM. bit (pmem s pd i) 0 \<longrightarrow> PGNUM (pmem s pd i) < npages s)"

lemma PDX_mono: "a \<le> b \<Longrightarrow> PDX a \<le> PDX b"
  by (simp add: PDX_div word_le_nat_alt div_le_mono)

lemma below_ULIM_iff: "va < ULIM \<longleftrightarrow> PDX va < PDX ULIM"
proof -
  have "unat ULIM = 958 * 0x400000" by (simp add: jos_consts)
  then show ?thesis by (simp add: word_less_nat_alt PDX_div div_less_iff_less_mult)
qed

lemma accessible_page: "PGNUM a = PGNUM b \<Longrightarrow> accessible s pd perm a = accessible s pd perm b"
  using same_slot_iff [of a b] by (simp add: accessible_def below_ULIM_iff)

lemma user_mem_check_step:
  assumes "tables_ok s pd" "a < e"
  shows "user_mem_check_loop pd (perm OR PTE_P) a e s =
    (if accessible s pd perm a
     then user_mem_check_loop pd (perm OR PTE_P) (ROUNDDOWN a PGSIZE + PGSIZE) e s
     else Inr (- E_FAULT, s\<lparr>user_mem_check_addr := a\<rparr>))"
proof (cases "a < ULIM")
  case True
  then have "PDX a < PDX ULIM" by (simp add: below_ULIM_iff)
  then have np: "bit (pmem s pd (PDX a)) 0 \<Longrightarrow> PGNUM (pmem s pd (PDX a)) < npages s"
    using assms(1) by (simp add: tables_ok_def)
  have "(ULIM \<le> a) = False" using True by simp
  then show ?thesis
    using assms(2) True np
    by (cases "bit (pmem s pd (PDX a)) 0"; subst user_mem_check_loop.simps)
      (simp_all add: pgdir_walk_def load_def KADDR_def accessible_def)
next
  case False
  then show ?thesis
    using assms(2) linorder_not_less [of a ULIM]
    by (subst user_mem_check_loop.simps) (simp add: accessible_def)
qed

lemma PGNUM_between:
  assumes "a \<le> x" "x < ROUNDDOWN a PGSIZE + PGSIZE" "a < ULIM"
  shows "PGNUM x = PGNUM a"
proof -
  have "unat a < 0xEF800000" using assms(3) by (simp add: jos_consts word_less_nat_alt)
  then have "unat x < unat a div 4096 * 4096 + 4096" "unat a \<le> unat x"
    using assms(1,2) unat_next_page [of a] by (simp_all add: word_less_nat_alt word_le_nat_alt)
  moreover have "unat a div 4096 * 4096 \<le> unat a" by simp
  ultimately have "unat x div 4096 = unat a div 4096"
    by (intro div_nat_eqI) simp_all
  then show ?thesis by (simp add: PGNUM_div)
qed

lemma next_page_gt:
  assumes "a < ULIM" shows "a < ROUNDDOWN a PGSIZE + PGSIZE"
proof -
  have "unat a < 0xEF800000" using assms by (simp add: jos_consts word_less_nat_alt)
  then have "unat (ROUNDDOWN a PGSIZE + PGSIZE) = unat a div 4096 * 4096 + 4096" by (simp add: unat_next_page)
  then show ?thesis by (simp add: word_less_nat_alt)
qed

lemma user_mem_check_loop_spec:
  assumes ok: "tables_ok s pd"
  shows "user_mem_check_loop pd (perm OR PTE_P) a e s = Inr (0, s) \<and>
      (\<forall>x. a \<le> x \<longrightarrow> x < e \<longrightarrow> accessible s pd perm x) \<or>
    (\<exists>b. user_mem_check_loop pd (perm OR PTE_P) a e s = Inr (- E_FAULT, s\<lparr>user_mem_check_addr := b\<rparr>) \<and>
      a \<le> b \<and> b < e \<and> \<not> accessible s pd perm b \<and> (\<forall>x. a \<le> x \<longrightarrow> x < b \<longrightarrow> accessible s pd perm x))"
proof (induction "unat ULIM - unat a" arbitrary: a rule: less_induct)
  case less
  show ?case
  proof (cases "a < e \<and> accessible s pd perm a")
    case False
    show ?thesis
    proof (cases "a < e")
      case True
      with False user_mem_check_step [OF ok True, of perm] show ?thesis by auto
    next
      case False
      then show ?thesis by (subst user_mem_check_loop.simps) auto
    qed
  next
    case True
    let ?n = "ROUNDDOWN a PGSIZE + PGSIZE"
    have lim: "a < ULIM" using True by (simp add: accessible_def)
    have gt: "a < ?n" using lim by (rule next_page_gt)
    have page: "accessible s pd perm x" if "a \<le> x" "x < ?n" for x
      using True accessible_page [OF PGNUM_between [OF that lim], of s pd perm] by simp
    have run: "user_mem_check_loop pd (perm OR PTE_P) a e s = user_mem_check_loop pd (perm OR PTE_P) ?n e s"
      using user_mem_check_step [OF ok, of a e perm] True by simp
    have ext: "accessible s pd perm x" if "a \<le> x" "?n \<le> x \<Longrightarrow> accessible s pd perm x" for x
      using page that by (cases "x < ?n") simp_all
    have "unat ULIM - unat ?n < unat ULIM - unat a"
      using gt lim by (simp add: word_less_nat_alt)
    from less.hyps [OF this] show ?thesis
    proof (elim disjE exE conjE)
      fix b assume b: "user_mem_check_loop pd (perm OR PTE_P) ?n e s = Inr (- E_FAULT, s\<lparr>user_mem_check_addr := b\<rparr>)"
        "?n \<le> b" "b < e" "\<not> accessible s pd perm b" "\<forall>x. ?n \<le> x \<longrightarrow> x < b \<longrightarrow> accessible s pd perm x"
      then have "a \<le> b" using gt by simp
      moreover have "\<forall>x. a \<le> x \<longrightarrow> x < b \<longrightarrow> accessible s pd perm x" using b(5) ext by blast
      ultimately show ?thesis using b(1,3,4) run by auto
    qed (use run ext in auto)
  qed
qed

section \<open>Properties\<close>




end
