(* ===== verification/Bytes.thy ===== *)
theory Bytes
  imports Prelude
begin

text \<open>The bytes of 32-bit words in memory, in the little-endian order of the processor.\<close>

definition get_byte :: "nat \<Rightarrow> 32 word \<Rightarrow> 8 word" where
  "get_byte k w = ucast (drop_bit (8 * k) w)"

definition set_byte :: "nat \<Rightarrow> 8 word \<Rightarrow> 32 word \<Rightarrow> 32 word" where
  "set_byte k b w = (w AND NOT (push_bit (8 * k) 0xFF)) OR push_bit (8 * k) (ucast b)"

definition bytes32 :: "32 word \<Rightarrow> 8 word list" where
  "bytes32 w = [get_byte 0 w, get_byte 1 w, get_byte 2 w, get_byte 3 w]"

definition word32 :: "8 word list \<Rightarrow> 32 word" where
  "word32 bs = foldr (\<lambda>b w. push_bit 8 w OR ucast b) bs 0"

lemma byte_mask: "(0xFF :: 32 word) = mask 8"
  by (simp add: mask_eq_exp_minus_1)

lemma get_set_byte: "k < 4 \<Longrightarrow> get_byte k (set_byte k b w) = b"
  unfolding get_byte_def set_byte_def byte_mask
  by (rule bit_word_eqI) (auto simp: bit_simps)

lemma get_set_byte_other: "k < 4 \<Longrightarrow> k' < 4 \<Longrightarrow> k' \<noteq> k \<Longrightarrow> get_byte k' (set_byte k b w) = get_byte k' w"
proof -
  assume k: "k < 4" "k' < 4" "k' \<noteq> k"
  show ?thesis
  proof (rule bit_word_eqI)
    fix n assume "n < LENGTH(8)"
    then have n: "n < 8" by simp
    then have "8 * k' + n < 8 * k \<or> 8 * k + 8 \<le> 8 * k' + n" using k by linarith
    then show "bit (get_byte k' (set_byte k b w)) n = bit (get_byte k' w) n"
      unfolding get_byte_def set_byte_def byte_mask using n k
      by (auto simp: bit_simps dest: bit_imp_le_length)
  qed
qed

section \<open>Byte addresses in a memory of words\<close>

definition get8 :: "(nat \<Rightarrow> 32 word) \<Rightarrow> nat \<Rightarrow> 8 word" where
  "get8 m a = get_byte (a mod 4) (m (a div 4))"

definition put8 :: "nat \<Rightarrow> 8 word \<Rightarrow> (nat \<Rightarrow> 32 word) \<Rightarrow> nat \<Rightarrow> 32 word" where
  "put8 a b m = m(a div 4 := set_byte (a mod 4) b (m (a div 4)))"

lemma get8_put8: "get8 (put8 a b m) x = (if x = a then b else get8 m x)"
proof (cases "x div 4 = a div 4")
  case True
  show ?thesis
  proof (cases "x mod 4 = a mod 4")
    case same: True
    then have "x = a" using True by (metis div_mult_mod_eq)
    then show ?thesis by (simp add: get8_def put8_def get_set_byte)
  next
    case False
    then show ?thesis using True by (auto simp: get8_def put8_def get_set_byte_other)
  qed
next
  case False
  then show ?thesis by (auto simp: get8_def put8_def)
qed

fun put_bytes :: "nat \<Rightarrow> 8 word list \<Rightarrow> (nat \<Rightarrow> 32 word) \<Rightarrow> nat \<Rightarrow> 32 word" where
  "put_bytes a [] m = m"
| "put_bytes a (b # bs) m = put_bytes (a + 1) bs (put8 a b m)"

lemma get8_put_bytes: "get8 (put_bytes a bs m) x = (if a \<le> x \<and> x < a + length bs then bs ! (x - a) else get8 m x)"
proof (induction bs arbitrary: a m)
  case (Cons b bs)
  show ?case using Cons.IH [of "a + 1" "put8 a b m"] by (auto simp: get8_put8 nth_Cons' Suc_le_eq)
qed auto

lemma put_bytes_words: "put_bytes a bs m w \<noteq> m w \<Longrightarrow> \<exists>x\<ge>a. x < a + length bs \<and> w = x div 4"
proof (induction bs arbitrary: a m)
  case (Cons b bs)
  show ?case
  proof (cases "put_bytes (a + 1) bs (put8 a b m) w \<noteq> put8 a b m w")
    case True
    from Cons.IH [OF True] obtain x where "a + 1 \<le> x" "x < a + 1 + length bs" "w = x div 4" by auto
    then show ?thesis by (intro exI [of _ x]) auto
  next
    case False
    then have "w = a div 4" using Cons.prems by (auto simp: put8_def split: if_splits)
    then show ?thesis by auto
  qed
qed simp

lemma bytes32_word: "word32 (bytes32 w) = w"
proof (rule bit_word_eqI)
  fix n assume "n < LENGTH(32)"
  then consider "n < 8" | "8 \<le> n" "n < 16" | "16 \<le> n" "n < 24" | "24 \<le> n" "n < 32" by fastforce
  then show "bit (word32 (bytes32 w)) n = bit w n"
    by cases (auto simp: word32_def bytes32_def get_byte_def bit_simps)
qed

lemma length_bytes32 [simp]: "length (bytes32 w) = 4"
  by (simp add: bytes32_def)

end
