(* ===== verification/Kern.thy ===== *)
theory Kern
  imports UserMem Bytes
begin

text \<open>
  The state of the kernel: \<open>struct Env\<close> and \<open>struct Trapframe\<close> of \<open>inc/env.h\<close> and \<open>inc/trap.h\<close>, the
  processors of \<open>kern/cpu.h\<close>, the big kernel lock, the clock, the console buffer and the transmit
  ring of the network card. The record extends the one of \<open>kern/pmap.c\<close>, so that all operations on
  pages apply to it. Memory is reached through the page tables in force, as the processor does.
\<close>

section \<open>Environments and processors\<close>

record PushRegs =
  reg_edi :: "32 word"
  reg_esi :: "32 word"
  reg_ebp :: "32 word"
  reg_oesp :: "32 word"
  reg_ebx :: "32 word"
  reg_edx :: "32 word"
  reg_ecx :: "32 word"
  reg_eax :: "32 word"

record Trapframe =
  tf_regs :: PushRegs
  tf_es :: "16 word"
  tf_ds :: "16 word"
  tf_trapno :: "32 word"
  tf_err :: "32 word"
  tf_eip :: "32 word"
  tf_cs :: "16 word"
  tf_eflags :: "32 word"
  tf_esp :: "32 word"
  tf_ss :: "16 word"

datatype EnvType = ENV_TYPE_USER | ENV_TYPE_FS | ENV_TYPE_NS

record Env =
  env_tf :: Trapframe
  env_link :: "nat option"
  env_id :: "32 word"
  env_parent_id :: "32 word"
  env_type :: EnvType
  env_status :: "32 word"
  env_runs :: "32 word"
  env_cpunum :: nat
  env_pgdir :: "nat option"
  env_pgfault_upcall :: "32 word"
  env_ipc_recving :: bool
  env_ipc_dstva :: "32 word"
  env_ipc_value :: "32 word"
  env_ipc_from :: "32 word"
  env_ipc_perm :: "32 word"

definition NENV :: nat where [jos_consts]: "NENV = 1024"
definition ENVGENSHIFT :: nat where [jos_consts]: "ENVGENSHIFT = 12"
definition ENV_FREE :: "32 word" where [jos_consts]: "ENV_FREE = 0"
definition ENV_DYING :: "32 word" where [jos_consts]: "ENV_DYING = 1"
definition ENV_RUNNABLE :: "32 word" where [jos_consts]: "ENV_RUNNABLE = 2"
definition ENV_RUNNING :: "32 word" where [jos_consts]: "ENV_RUNNING = 3"
definition ENV_NOT_RUNNABLE :: "32 word" where [jos_consts]: "ENV_NOT_RUNNABLE = 4"

definition CPU_UNUSED :: "32 word" where [jos_consts]: "CPU_UNUSED = 0"
definition CPU_STARTED :: "32 word" where [jos_consts]: "CPU_STARTED = 1"
definition CPU_HALTED :: "32 word" where [jos_consts]: "CPU_HALTED = 2"

definition ENVX :: "32 word \<Rightarrow> nat" where
  "ENVX envid = unat (envid AND 1023)"

record CpuInfo =
  cpu_status :: "32 word"
  cpu_env :: "nat option"

text \<open>A descriptor of the transmit ring, with the fields that the driver reads and writes.\<close>

record tx_desc =
  td_buffer_addr :: "32 word"
  td_length :: "16 word"
  td_cmd :: "8 word"
  td_status :: "8 word"

text \<open>
  \<open>envs\<close> is indexed by slot; the slot \<open>NENV\<close> stands for the memory behind the array, which the
  scheduler can reach. \<open>cpunum\<close> is the processor that executes the code and \<open>cr3\<close> its page
  directory; \<open>kernel_lock\<close> is the processor that holds the lock. \<open>serial_in\<close> are the characters
  that the serial port still has to deliver, \<open>kbd_in\<close> the scan codes of the keyboard and
  \<open>kbd_shift\<close> its modifier state; \<open>cons_out\<close> is what was written to the console; \<open>e1000\<close> are the registers of the network card.
\<close>

record kstate = vm +
  envs :: "nat \<Rightarrow> Env"
  env_free_list :: "nat option"
  cpus :: "nat \<Rightarrow> CpuInfo"
  cpunum :: nat
  cr3 :: nat
  kernel_lock :: "nat option"
  ticks :: "32 word"
  cons_buf :: "nat \<Rightarrow> 8 word"
  cons_rpos :: "32 word"
  cons_wpos :: "32 word"
  serial_in :: "8 word list"
  kbd_in :: "8 word list"
  kbd_shift :: "32 word"
  cons_out :: "8 word list"
  e1000 :: "nat \<Rightarrow> 32 word"
  tx_desc_buf :: "nat \<Rightarrow> tx_desc"
  tx_data_buf :: "nat \<Rightarrow> nat \<Rightarrow> 8 word"

definition curenv :: "kstate \<Rightarrow> nat option" where
  "curenv s = cpu_env (cpus s (cpunum s))"

definition set_curenv :: "nat option \<Rightarrow> kstate \<Rightarrow> kstate" where
  "set_curenv e s = s\<lparr>cpus := (cpus s)(cpunum s := (cpus s (cpunum s))\<lparr>cpu_env := e\<rparr>)\<rparr>"

definition set_env :: "nat \<Rightarrow> (Env \<Rightarrow> Env) \<Rightarrow> kstate \<Rightarrow> kstate" where
  "set_env e f s = s\<lparr>envs := (envs s)(e := f (envs s e))\<rparr>"

definition lcr3 :: "nat \<Rightarrow> kstate \<Rightarrow> kstate" where
  "lcr3 p s = s\<lparr>cr3 := p, tlb := {}\<rparr>"

text \<open>\<open>PADDR\<close> of a pointer that may be null panics, as for any address below \<open>KERNBASE\<close>.\<close>

definition PADDR :: "nat option \<Rightarrow> kstate \<Rightarrow> (kstate, nat) res" where
  "PADDR kva s = (case kva of None \<Rightarrow> Inl (Panic, s) | Some p \<Rightarrow> Inr (p, s))"

text \<open>Following a pointer to an environment.\<close>

definition deref :: "nat option \<Rightarrow> kstate \<Rightarrow> (kstate, nat) res" where
  "deref p s = (case p of None \<Rightarrow> Inl (NullDeref, s) | Some e \<Rightarrow> Inr (e, s))"

section \<open>The kernel lock\<close>

definition lock_kernel :: "kstate \<Rightarrow> (kstate, unit) res" where
  "lock_kernel s =
     (if kernel_lock s = Some (cpunum s) then Inl (Panic, s)
      else if kernel_lock s \<noteq> None then Inl (Spinning, s)
      else Inr ((), s\<lparr>kernel_lock := Some (cpunum s)\<rparr>))"

definition unlock_kernel :: "kstate \<Rightarrow> (kstate, unit) res" where
  "unlock_kernel s =
     (if kernel_lock s = Some (cpunum s) then Inr ((), s\<lparr>kernel_lock := None\<rparr>) else Inl (Panic, s))"

section \<open>Memory through the page tables in force\<close>

definition translate :: "32 word \<Rightarrow> kstate \<Rightarrow> (nat \<times> nat \<times> bool) option" where
  "translate va s =
     (let pde = pmem s (cr3 s) (PDX va); pte = pmem s (PGNUM pde) (PTX va)
      in if bit pde 0 \<and> bit pte 0
         then Some (PGNUM pte, unat va mod 4096, bit pde 1 \<and> bit pte 1) else None)"

text \<open>An access that the page tables do not allow faults inside the kernel, which panics.\<close>

definition read_byte :: "32 word \<Rightarrow> kstate \<Rightarrow> (kstate, 8 word) res" where
  "read_byte va s =
     (case translate va s of
        None \<Rightarrow> Inl (Panic, s)
      | Some (p, off, _) \<Rightarrow> Inr (get_byte (off mod 4) (pmem s p (off div 4)), s))"

definition write_byte :: "32 word \<Rightarrow> 8 word \<Rightarrow> kstate \<Rightarrow> (kstate, unit) res" where
  "write_byte va b s =
     (case translate va s of
        Some (p, off, True) \<Rightarrow>
          Inr ((), store (p, off div 4) (set_byte (off mod 4) b (pmem s p (off div 4))) s)
      | _ \<Rightarrow> Inl (Panic, s))"

fun write_bytes :: "32 word \<Rightarrow> 8 word list \<Rightarrow> kstate \<Rightarrow> (kstate, unit) res" where
  "write_bytes va [] s = Inr ((), s)"
| "write_bytes va (b # bs) s = bindS (write_byte va b s) (\<lambda>_ s. write_bytes (va + 1) bs s)"

fun read_bytes :: "32 word \<Rightarrow> nat \<Rightarrow> kstate \<Rightarrow> (kstate, 8 word list) res" where
  "read_bytes va 0 s = Inr ([], s)"
| "read_bytes va (Suc n) s =
     bindS (read_byte va s) (\<lambda>b s. bindS (read_bytes (va + 1) n s) (\<lambda>bs s. Inr (b # bs, s)))"

end
