(* ===== verification/Envs.thy ===== *)
theory Envs
  imports Kern
begin

text \<open>
  \<open>kern/env.c\<close> and \<open>kern/sched.c\<close>: environments are looked up, created, loaded, scheduled, run and
  torn down. Running an environment leaves the kernel, so \<open>env_run\<close> stops with \<open>Running\<close>.
\<close>

section \<open>Looking up an environment\<close>

text \<open>The result is the error code and the value stored through \<open>env_store\<close>.\<close>

definition envid2env :: "32 word \<Rightarrow> bool \<Rightarrow> kstate \<Rightarrow> (kstate, int \<times> nat option) res" where
  "envid2env envid checkperm s =
     (if envid = 0 then Inr ((0, curenv s), s)
      else
        let e = ENVX envid
        in if env_status (envs s e) = ENV_FREE \<or> env_id (envs s e) \<noteq> envid then Inr ((- E_BAD_ENV, None), s)
           else if checkperm \<and> curenv s \<noteq> Some e then
             bindS (deref (curenv s) s) (\<lambda>c s.
               if env_parent_id (envs s e) \<noteq> env_id (envs s c) then Inr ((- E_BAD_ENV, None), s)
               else Inr ((0, Some e), s))
           else Inr ((0, Some e), s))"

section \<open>Creating environments\<close>

definition env_init_step :: "kstate \<Rightarrow> nat \<Rightarrow> kstate" where
  "env_init_step s i =
     (set_env i (\<lambda>e. e\<lparr>env_status := ENV_FREE, env_id := 0, env_link := env_free_list s\<rparr>) s)\<lparr>env_free_list := Some i\<rparr>"

definition env_init :: "kstate \<Rightarrow> kstate" where
  "env_init s = foldl env_init_step (s\<lparr>env_free_list := None\<rparr>) (rev [0..<NENV])"

definition env_setup_vm :: "nat \<Rightarrow> kstate \<Rightarrow> (kstate, int) res" where
  "env_setup_vm e s =
     bindS (page_alloc ALLOC_ZERO s) (\<lambda>p s.
       case p of
         None \<Rightarrow> Inr (- E_NO_MEM, s)
       | Some p \<Rightarrow>
           bindS (page2kva p (set_page p (\<lambda>pi. pi\<lparr>pp_ref := pp_ref pi + 1\<rparr>) s)) (\<lambda>pgdir s.
             let s1 = set_env e (\<lambda>v. v\<lparr>env_pgdir := Some pgdir\<rparr>) s;
                 s2 = s1\<lparr>pmem := (pmem s1)(pgdir := (\<lambda>i. if i < PDX UTOP then 0
                                                        else if i < NPDENTRIES then pmem s1 (kern_pgdir s1) i
                                                        else pmem s1 pgdir i))\<rparr>
             in Inr (0, store (pgdir, PDX UVPT) (page2pa pgdir OR PTE_P OR PTE_U) s2)))"

definition zero_regs :: PushRegs where
  "zero_regs = \<lparr>reg_edi = 0, reg_esi = 0, reg_ebp = 0, reg_oesp = 0, reg_ebx = 0, reg_edx = 0,
     reg_ecx = 0, reg_eax = 0\<rparr>"

definition zero_tf :: Trapframe where
  "zero_tf = \<lparr>tf_regs = zero_regs, tf_es = 0, tf_ds = 0, tf_trapno = 0, tf_err = 0, tf_eip = 0,
     tf_cs = 0, tf_eflags = 0, tf_esp = 0, tf_ss = 0\<rparr>"

definition GD_KT :: "16 word" where [jos_consts]: "GD_KT = 0x08"
definition GD_UT :: "16 word" where [jos_consts]: "GD_UT = 0x18"
definition GD_UD :: "16 word" where [jos_consts]: "GD_UD = 0x20"
definition FL_IF :: "32 word" where [jos_consts]: "FL_IF = 0x200"
definition FL_IOPL_3 :: "32 word" where [jos_consts]: "FL_IOPL_3 = 0x3000"

text \<open>The trap frame of a new environment: user segments, the stack pointer, interrupts enabled.\<close>

definition init_tf :: Trapframe where
  "init_tf = zero_tf\<lparr>tf_ds := GD_UD OR 3, tf_es := GD_UD OR 3, tf_ss := GD_UD OR 3, tf_esp := USTACKTOP,
     tf_cs := GD_UT OR 3, tf_eflags := FL_IF\<rparr>"

definition new_envid :: "nat \<Rightarrow> 32 word \<Rightarrow> 32 word" where
  "new_envid slot old =
     (let generation = (old + push_bit ENVGENSHIFT 1) AND NOT 1023
      in (if sint generation \<le> 0 then push_bit ENVGENSHIFT 1 else generation) OR of_nat slot)"

definition env_alloc :: "32 word \<Rightarrow> kstate \<Rightarrow> (kstate, int \<times> nat option) res" where
  "env_alloc parent_id s =
     (case env_free_list s of
        None \<Rightarrow> Inr ((- E_NO_FREE_ENV, None), s)
      | Some e \<Rightarrow>
          bindS (env_setup_vm e s) (\<lambda>r s.
            if r < 0 then Inr ((r, None), s)
            else
              let s1 = set_env e (\<lambda>v. v\<lparr>env_id := new_envid e (env_id v), env_parent_id := parent_id,
                         env_type := ENV_TYPE_USER, env_status := ENV_RUNNABLE, env_runs := 0,
                         env_tf := init_tf, env_pgfault_upcall := 0, env_ipc_recving := False\<rparr>) s
              in Inr ((0, Some e), s1\<lparr>env_free_list := env_link (envs s1 e)\<rparr>)))"

text \<open>The addresses that \<open>region_alloc\<close> maps, from the rounded-down start to the rounded-up end.\<close>

definition region_pages :: "32 word \<Rightarrow> 32 word \<Rightarrow> 32 word list" where
  "region_pages start stop = (if start < stop then map (\<lambda>off. start + off) (page_offsets (stop - start)) else [])"

text \<open>The body of the loop: allocate a page and map it writable.\<close>

definition region_page :: "nat \<Rightarrow> 32 word \<Rightarrow> kstate \<Rightarrow> (kstate, unit) res" where
  "region_page e a s =
     bindS (page_alloc 0 s) (\<lambda>page s.
       case page of
         None \<Rightarrow> Inl (Panic, s)
       | Some p \<Rightarrow>
           bindS (deref (env_pgdir (envs s e)) s) (\<lambda>pd s.
             bindS (page_insert pd p a (PTE_W OR PTE_U) s) (\<lambda>r s.
               if r \<noteq> 0 then Inl (Panic, s) else Inr ((), s))))"

definition region_alloc :: "nat \<Rightarrow> 32 word \<Rightarrow> 32 word \<Rightarrow> kstate \<Rightarrow> (kstate, unit) res" where
  "region_alloc e va len s =
     (let start = ROUNDDOWN va PGSIZE; stop = ROUNDUP (va + len) PGSIZE
      in if stop > UTOP then Inl (Panic, s)
         else for_each (region_page e) (region_pages start stop) s)"

section \<open>Loading a program\<close>

text \<open>The image is a function from offsets to bytes; multi-byte fields are little-endian.\<close>

definition le16 :: "(nat \<Rightarrow> 8 word) \<Rightarrow> nat \<Rightarrow> 32 word" where
  "le16 binary off = word32 [binary off, binary (off + 1)]"

definition le32 :: "(nat \<Rightarrow> 8 word) \<Rightarrow> nat \<Rightarrow> 32 word" where
  "le32 binary off = word32 [binary off, binary (off + 1), binary (off + 2), binary (off + 3)]"

definition ELF_MAGIC :: "32 word" where [jos_consts]: "ELF_MAGIC = 0x464C457F"
definition ELF_PROG_LOAD :: "32 word" where [jos_consts]: "ELF_PROG_LOAD = 1"

definition load_segment :: "nat \<Rightarrow> (nat \<Rightarrow> 8 word) \<Rightarrow> nat \<Rightarrow> kstate \<Rightarrow> (kstate, unit) res" where
  "load_segment e binary ph s =
     (let p_type = le32 binary ph; p_offset = le32 binary (ph + 4); p_va = le32 binary (ph + 8);
          p_filesz = le32 binary (ph + 16); p_memsz = le32 binary (ph + 20)
      in if p_type = ELF_PROG_LOAD then
           if p_filesz \<le> p_memsz then
             bindS (region_alloc e p_va p_memsz s) (\<lambda>_ s.
             bindS (write_bytes p_va (replicate (unat p_memsz) 0) s) (\<lambda>_ s.
               write_bytes p_va (map (\<lambda>i. binary (unat p_offset + i)) [0..<unat p_filesz]) s))
           else Inl (Panic, s)
         else Inr ((), s))"

definition load_icode :: "nat \<Rightarrow> (nat \<Rightarrow> 8 word) \<Rightarrow> kstate \<Rightarrow> (kstate, unit) res" where
  "load_icode e binary s =
     (if le32 binary 0 \<noteq> ELF_MAGIC then Inl (Panic, s)
      else
        bindS (PADDR (env_pgdir (envs s e)) s) (\<lambda>pd s.
        bindS (for_each (\<lambda>k s. load_segment e binary (unat (le32 binary 28) + 32 * k) s)
                 [0..<unat (le16 binary 44)] (lcr3 pd s)) (\<lambda>_ s.
        let s1 = set_env e (\<lambda>v. v\<lparr>env_tf := (env_tf v)\<lparr>tf_eip := le32 binary 24\<rparr>\<rparr>) s
        in bindS (region_alloc e (USTACKTOP - PGSIZE) PGSIZE s1) (\<lambda>_ s.
             Inr ((), lcr3 (kern_pgdir s) s)))))"

definition env_create :: "(nat \<Rightarrow> 8 word) \<Rightarrow> EnvType \<Rightarrow> kstate \<Rightarrow> (kstate, unit) res" where
  "env_create binary type s =
     bindS (env_alloc 0 s) (\<lambda>(r, e) s.
       if r \<noteq> 0 then Inl (Panic, s)
       else bindS (deref e s) (\<lambda>e s.
         bindS (load_icode e binary s) (\<lambda>_ s.
           let s1 = set_env e (\<lambda>v. v\<lparr>env_type := type\<rparr>) s
           in Inr ((), if type = ENV_TYPE_FS
                       then set_env e (\<lambda>v. v\<lparr>env_tf := (env_tf v)\<lparr>tf_eflags := tf_eflags (env_tf v) OR FL_IOPL_3\<rparr>\<rparr>) s1
                       else s1))))"

section \<open>Tearing an environment down\<close>

definition free_pte :: "nat \<Rightarrow> nat \<Rightarrow> nat \<Rightarrow> nat \<Rightarrow> kstate \<Rightarrow> (kstate, unit) res" where
  "free_pte pgdir pt pdeno pteno s =
     (if load (pt, pteno) s AND PTE_P \<noteq> 0 then page_remove pgdir (PGADDR pdeno pteno 0) s else Inr ((), s))"

definition free_pde :: "nat \<Rightarrow> nat \<Rightarrow> kstate \<Rightarrow> (kstate, unit) res" where
  "free_pde pgdir pdeno s =
     (if load (pgdir, pdeno) s AND PTE_P = 0 then Inr ((), s)
      else
        let pa = PTE_ADDR (load (pgdir, pdeno) s)
        in bindS (KADDR pa s) (\<lambda>pt s.
           bindS (for_each (free_pte pgdir pt pdeno) [0..<NPTENTRIES] s) (\<lambda>_ s.
           bindS (pa2page pa (store (pgdir, pdeno) 0 s)) page_decref)))"

definition env_free :: "nat \<Rightarrow> kstate \<Rightarrow> (kstate, unit) res" where
  "env_free e s =
     (let s0 = (if curenv s = Some e then lcr3 (kern_pgdir s) s else s)
      in bindS (deref (env_pgdir (envs s0 e)) s0) (\<lambda>pgdir s.
         bindS (for_each (free_pde pgdir) [0..<PDX UTOP] s) (\<lambda>_ s.
         bindS (PADDR (env_pgdir (envs s e)) s) (\<lambda>pd s.
         bindS (pa2page (page2pa pd) (set_env e (\<lambda>v. v\<lparr>env_pgdir := None\<rparr>) s)) (\<lambda>pp s.
         bindS (page_decref pp s) (\<lambda>_ s.
           let s1 = set_env e (\<lambda>v. v\<lparr>env_status := ENV_FREE, env_link := env_free_list s\<rparr>) s
           in Inr ((), s1\<lparr>env_free_list := Some e\<rparr>)))))))"

section \<open>Running environments\<close>

definition env_pop_tf :: "nat \<Rightarrow> kstate \<Rightarrow> (kstate, unit) res" where
  "env_pop_tf e s =
     bindS (deref (curenv s) s) (\<lambda>c s.
       Inl (Running e, set_env c (\<lambda>v. v\<lparr>env_cpunum := cpunum s\<rparr>) s))"

definition env_run :: "nat \<Rightarrow> kstate \<Rightarrow> (kstate, unit) res" where
  "env_run e s =
     bindS (if curenv s \<noteq> Some e then
              let s0 = (case curenv s of
                          Some c \<Rightarrow> if env_status (envs s c) = ENV_RUNNING
                                    then set_env c (\<lambda>v. v\<lparr>env_status := ENV_RUNNABLE\<rparr>) s else s
                        | None \<Rightarrow> s);
                  s1 = set_env e (\<lambda>v. v\<lparr>env_status := ENV_RUNNING, env_runs := env_runs v + 1\<rparr>)
                         (set_curenv (Some e) s0)
              in bindS (PADDR (env_pgdir (envs s1 e)) s1) (\<lambda>pd s. Inr ((), lcr3 pd s))
            else Inr ((), s))
       (\<lambda>_ s. bindS (unlock_kernel s) (\<lambda>_ s. env_pop_tf e s))"

text \<open>
  The search of \<open>sched_yield\<close>: \<open>n\<close> iterations are left and \<open>idle\<close> is the index of the candidate. The
  index wraps only after \<open>envs + NENV\<close> itself has been examined.
\<close>

fun sched_search :: "nat \<Rightarrow> nat \<Rightarrow> kstate \<Rightarrow> nat option" where
  "sched_search 0 idle s = None"
| "sched_search (Suc n) idle s =
     (if env_status (envs s idle) = ENV_RUNNABLE then Some idle
      else sched_search n (if idle \<ge> NENV then 0 else idle + 1) s)"

definition sched_halt :: "kstate \<Rightarrow> (kstate, unit) res" where
  "sched_halt s =
     (if (\<forall>i\<in>set [0..<NENV]. \<not> (env_status (envs s i) = ENV_RUNNABLE \<or> env_status (envs s i) = ENV_RUNNING \<or>
                              env_status (envs s i) = ENV_DYING))
      then Inl (InMonitor, s)
      else
        let s1 = lcr3 (kern_pgdir s) (set_curenv None s);
            s2 = s1\<lparr>cpus := (cpus s1)(cpunum s1 := (cpus s1 (cpunum s1))\<lparr>cpu_status := CPU_HALTED\<rparr>)\<rparr>
        in bindS (unlock_kernel s2) (\<lambda>_ s. Inl (Halted, s)))"

definition sched_yield :: "kstate \<Rightarrow> (kstate, unit) res" where
  "sched_yield s =
     (case sched_search 1024 (case curenv s of None \<Rightarrow> 0 | Some c \<Rightarrow> c + 1) s of
        Some e \<Rightarrow> env_run e s
      | None \<Rightarrow>
          (case curenv s of
             Some c \<Rightarrow> if env_status (envs s c) = ENV_RUNNING then env_run c s else sched_halt s
           | None \<Rightarrow> sched_halt s))"

definition env_destroy :: "nat \<Rightarrow> kstate \<Rightarrow> (kstate, unit) res" where
  "env_destroy e s =
     (if env_status (envs s e) = ENV_RUNNING \<and> curenv s \<noteq> Some e
      then Inr ((), set_env e (\<lambda>v. v\<lparr>env_status := ENV_DYING\<rparr>) s)
      else bindS (env_free e s) (\<lambda>_ s.
        if curenv s = Some e then sched_yield (set_curenv None s) else Inr ((), s)))"

end
