(* ===== verification/Spaces.thy ===== *)
theory Spaces
  imports Envs
begin

text \<open>
  Address spaces come and go: the steps by which \<open>env_setup_vm\<close> adds a page directory to the system
  and \<open>env_free\<close> takes one out again, page by page and table by table, keep the invariant.
\<close>

section \<open>Giving up a page\<close>

lemma page_decref_last:
  assumes inv: "vm_inv pds fl ex s" and p: "p < npages s" "p \<notin> set fl" "p \<notin> pds" "p \<notin> page_tables pds s"
    "mappings pds s p = {}" "ex p = 0" and ref: "pp_ref (pages s p) = 1"
  shows "\<exists>s'. page_decref p s = Inr ((), s') \<and> vm_inv pds (p # fl) ex s' \<and> vm_frame s s' \<and>
    pmem s' = pmem s \<and> tlb s' = tlb s"
proof -
  let ?s1 = "set_page p (\<lambda>pi. pi\<lparr>pp_ref := pp_ref pi - 1\<rparr>) s"
  have "vm_inv pds fl (ex(p := 0)) ?s1"
    using p ref by (intro vm_inv_set_ref [OF inv]) simp_all
  moreover have "ex(p := 0) = ex" using p(6) by auto
  ultimately have inv1: "vm_inv pds fl ex ?s1" by simp
  have "limbo pds fl ex ?s1 p"
    using p ref by (simp add: limbo_def view_simps [of ?s1 s])
  note push = vm_inv_push [OF inv1 this]
  have "pp_link (pages s p) = None" using inv p(2) by (simp add: vm_inv_def fl_inv_def)
  then have "page_decref p s = Inr ((), push_page p ?s1)"
    using ref by (simp add: page_decref_def page_free_def push_page_def)
  moreover have "vm_frame s (push_page p ?s1)" by (simp add: frame_simps)
  ultimately show ?thesis using push by simp
qed

section \<open>Dropping an empty page table\<close>

lemma vm_inv_drop_table:
  assumes inv: "vm_inv pds fl ex s" and pd: "pd \<in> pds" "i < PDX UTOP" and pt: "pt_of s pd i = Some pt"
    and empty: "\<And>j. j < NPTENTRIES \<Longrightarrow> pg_of s pd i j = None"
  defines "s' \<equiv> store (pd, i) 0 s"
  shows "vm_inv pds fl ex s'" "pt_of s' pd' i' = (if (pd', i') = (pd, i) then None else pt_of s pd' i')"
    "(pd', i', j') \<in> slots pds \<Longrightarrow> pg_of s' pd' i' j' = pg_of s pd' i' j'"
    "pt \<notin> page_tables pds s'" "mappings pds s' = mappings pds s"
proof -
  have pmem: "pmem s' = (pmem s)(pd := (pmem s pd)(i := 0))" by (simp add: s'_def pmem_store)
  have same: "npages s' = npages s" "pages s' = pages s" by (simp_all add: s'_def)
  have pts: "pt_of s' pd' i' = (if (pd', i') = (pd, i) then None else pt_of s pd' i')" for pd' i'
    by (auto simp: pt_of_def pmem)
  then show "pt_of s' pd' i' = (if (pd', i') = (pd, i) then None else pt_of s pd' i')" .
  have pgs: "pg_of s' pd' i' j' = pg_of s pd' i' j'" if "(pd', i', j') \<in> slots pds" for pd' i' j'
  proof (cases "(pd', i') = (pd, i)")
    case True
    then show ?thesis using empty [of j'] that by (simp add: pg_of_def pts slots_def)
  next
    case False
    have in': "pd' \<in> pds" "i' < PDX UTOP" using that by (simp_all add: slots_def)
    show ?thesis
    proof (cases "pt_of s pd' i'")
      case None
      then show ?thesis using False by (simp add: pg_of_def pts)
    next
      case (Some x)
      then have "x \<noteq> pd" using vm_inv_pt(3) [OF inv in' Some] pd by blast
      then show ?thesis using False Some by (auto simp: pg_of_def pts pmem)
    qed
  qed
  then show "(pd', i', j') \<in> slots pds \<Longrightarrow> pg_of s' pd' i' j' = pg_of s pd' i' j'" .
  show map: "mappings pds s' = mappings pds s"
    using pgs by (simp add: mappings_def fun_eq_iff cong: conj_cong)
  have sub: "page_tables pds s' \<subseteq> page_tables pds s"
    by (auto simp: page_tables_def pts split: if_splits)
  show "pt \<notin> page_tables pds s'"
  proof
    assume "pt \<in> page_tables pds s'"
    then obtain pd1 i1 where a: "pd1 \<in> pds" "i1 < PDX UTOP" "pt_of s' pd1 i1 = Some pt"
      unfolding page_tables_def by blast
    then have "(pd1, i1) \<noteq> (pd, i)" "pt_of s pd1 i1 = Some pt" by (simp_all add: pts split: if_splits)
    then show False using vm_inv_pt(6) [OF inv pd pt a(1,2)] by simp
  qed
  have "pt_inv pds fl s'"
    unfolding pt_inv_def
  proof (intro ballI allI impI)
    fix pd1 i1 pt1 assume a: "pd1 \<in> pds" "i1 < PDX UTOP" "pt_of s' pd1 i1 = Some pt1"
    then have "pt_of s pd1 i1 = Some pt1" by (simp add: pts split: if_splits)
    note t = vm_inv_pt [OF inv a(1,2) this]
    show "pt1 < npages s' \<and> pt1 \<notin> set fl \<and> pt1 \<notin> pds \<and> pp_ref (pages s' pt1) = 1 \<and>
      (\<forall>pd'\<in>pds. \<forall>i'<PDX UTOP. pt_of s' pd' i' = Some pt1 \<longrightarrow> pd' = pd1 \<and> i' = i1)"
      using t(1-4) t(6) by (simp add: pts same)
  qed
  moreover have "rc_inv pds fl ex s'"
    unfolding rc_inv_def map same
  proof (intro allI impI)
    fix q assume "0 < card (mappings pds s q) + ex q"
    from vm_inv_rc [OF inv this] sub
    show "q < npages s \<and> q \<notin> set fl \<and> q \<notin> pds \<and> q \<notin> page_tables pds s' \<and>
        unat (pp_ref (pages s q)) = card (mappings pds s q) + ex q" by auto
  qed
  ultimately show "vm_inv pds fl ex s'"
    using inv by (simp add: vm_inv_def pd_inv_def s'_def)
qed

section \<open>Page directories\<close>

lemma vm_inv_drop_dir:
  assumes inv: "vm_inv pds fl ex s" and pd: "pd \<in> pds" and empty: "\<And>i. i < PDX UTOP \<Longrightarrow> pt_of s pd i = None"
  shows "vm_inv (pds - {pd}) fl ex s" "pd \<notin> page_tables (pds - {pd}) s" "mappings (pds - {pd}) s = mappings pds s"
    "mappings pds s pd = {}"
proof -
  show map: "mappings (pds - {pd}) s = mappings pds s"
    using empty by (auto simp: mappings_def slots_def pg_of_def fun_eq_iff)
  have tab: "page_tables (pds - {pd}) s = page_tables pds s"
    using empty by (auto simp: page_tables_def)
  show "pd \<notin> page_tables (pds - {pd}) s"
    using vm_inv_pt(3) [OF inv] pd unfolding tab page_tables_def by blast
  show "mappings pds s pd = {}"
  proof (rule ccontr)
    assume "mappings pds s pd \<noteq> {}"
    then have "0 < card (mappings pds s pd) + ex pd" using vm_inv_finite [OF inv, of pd] by (simp add: card_gt_0_iff)
    from vm_inv_rc(3) [OF inv this] pd show False by simp
  qed
  have "pd_inv (pds - {pd}) fl s" using inv by (simp add: vm_inv_def pd_inv_def)
  moreover have "pt_inv (pds - {pd}) fl s"
    unfolding pt_inv_def
  proof (intro ballI allI impI)
    fix pd1 i1 pt1 assume "pd1 \<in> pds - {pd}" "i1 < PDX UTOP" "pt_of s pd1 i1 = Some pt1"
    then have "pd1 \<in> pds" "i1 < PDX UTOP" "pt_of s pd1 i1 = Some pt1" by simp_all
    note t = vm_inv_pt [OF inv this]
    moreover have "\<forall>pd'\<in>pds - {pd}. \<forall>i'<PDX UTOP. pt_of s pd' i' = Some pt1 \<longrightarrow> pd' = pd1 \<and> i' = i1"
      using t(6) by blast
    ultimately show "pt1 < npages s \<and> pt1 \<notin> set fl \<and> pt1 \<notin> pds - {pd} \<and> pp_ref (pages s pt1) = 1 \<and>
      (\<forall>pd'\<in>pds - {pd}. \<forall>i'<PDX UTOP. pt_of s pd' i' = Some pt1 \<longrightarrow> pd' = pd1 \<and> i' = i1)"
      by simp
  qed
  moreover have "rc_inv (pds - {pd}) fl ex s"
    unfolding rc_inv_def map tab
  proof (intro allI impI)
    fix q assume "0 < card (mappings pds s q) + ex q"
    from vm_inv_rc [OF inv this] show "q < npages s \<and> q \<notin> set fl \<and> q \<notin> pds - {pd} \<and> q \<notin> page_tables pds s \<and>
        unat (pp_ref (pages s q)) = card (mappings pds s q) + ex q" by simp
  qed
  ultimately show "vm_inv (pds - {pd}) fl ex s" using inv by (simp add: vm_inv_def)
qed

text \<open>A fresh page with an empty user part becomes the directory of a new address space.\<close>

lemma vm_inv_add_dir:
  assumes inv: "vm_inv pds fl ex s" and lim: "limbo pds fl ex s p"
    and empty': "\<forall>i<PDX UTOP. \<not> bit (pmem s' p i) 0"
    and pmem': "\<forall>q. q \<noteq> p \<longrightarrow> pmem s' q = pmem s q"
    and pages: "pages s' = (pages s)(p := (pages s p)\<lparr>pp_ref := 1\<rparr>)"
    and same: "npages s' = npages s" "page_free_list s' = page_free_list s"
  shows "vm_inv (insert p pds) fl ex s'"
    "pd \<in> pds \<Longrightarrow> i < PDX UTOP \<Longrightarrow> pg_of s' pd i j = pg_of s pd i j" "i < PDX UTOP \<Longrightarrow> pg_of s' p i j = None"
    "page_tables (insert p pds) s' = page_tables pds s" "mappings (insert p pds) s' = mappings pds s"
proof -
  have p: "p < npages s" "p \<notin> set fl" "p \<notin> pds" "p \<notin> page_tables pds s" "mappings pds s p = {}" "ex p = 0"
    using lim by (simp_all add: limbo_def)
  note empty = empty' [rule_format] and pmem = pmem' [rule_format]
  have pt: "pt_of s' pd i = pt_of s pd i" if "pd \<in> pds" for pd i
  proof -
    have "pd \<noteq> p" using that p(3) by blast
    from pmem [OF this] show ?thesis by (simp add: pt_of_def)
  qed
  have ptp: "pt_of s' p i = None" if "i < PDX UTOP" for i using empty [OF that] by (simp add: pt_of_def)
  show tab: "page_tables (insert p pds) s' = page_tables pds s"
    by (simp add: page_tables_def pt ptp cong: conj_cong)
  have pg: "pg_of s' pd i j = pg_of s pd i j" if "pd \<in> pds" "i < PDX UTOP" for pd i j
  proof (cases "pt_of s pd i")
    case (Some x)
    then have "x \<noteq> p" using vm_inv_pt(5) [OF inv that Some] p(4) by blast
    then show ?thesis using Some pmem [of x] by (simp add: pg_of_def pt [OF that(1)])
  qed (simp add: pg_of_def pt that)
  then show "pd \<in> pds \<Longrightarrow> i < PDX UTOP \<Longrightarrow> pg_of s' pd i j = pg_of s pd i j" .
  show "i < PDX UTOP \<Longrightarrow> pg_of s' p i j = None" by (simp add: pg_of_def ptp)
  show map: "mappings (insert p pds) s' = mappings pds s"
    using pg ptp by (auto simp: mappings_def slots_def fun_eq_iff pg_of_def)
  have fl: "fl_inv fl s'"
    using fl_inv_set_ref [of fl s p "\<lambda>_. 1"] inv p(2) pages same by (simp add: vm_inv_def fl_inv_def)
  have "pd_inv (insert p pds) fl s'" using inv p pages same by (auto simp: vm_inv_def pd_inv_def)
  moreover have "pt_inv (insert p pds) fl s'"
    unfolding pt_inv_def
  proof (intro ballI allI impI)
    fix pd1 i1 pt1 assume a: "pd1 \<in> insert p pds" "i1 < PDX UTOP" "pt_of s' pd1 i1 = Some pt1"
    then have a': "pd1 \<in> pds" "pt_of s pd1 i1 = Some pt1" using ptp pt by auto
    note t = vm_inv_pt [OF inv a'(1) a(2) a'(2)]
    then have "pt1 \<noteq> p" using p(4) by auto
    then show "pt1 < npages s' \<and> pt1 \<notin> set fl \<and> pt1 \<notin> insert p pds \<and> pp_ref (pages s' pt1) = 1 \<and>
      (\<forall>pd'\<in>insert p pds. \<forall>i'<PDX UTOP. pt_of s' pd' i' = Some pt1 \<longrightarrow> pd' = pd1 \<and> i' = i1)"
      using t by (simp add: pages same ptp pt)
  qed
  moreover have "rc_inv (insert p pds) fl ex s'"
    unfolding rc_inv_def map tab
  proof (intro allI impI)
    fix q assume q: "0 < card (mappings pds s q) + ex q"
    then have "q \<noteq> p" using p by auto
    then show "q < npages s' \<and> q \<notin> set fl \<and> q \<notin> insert p pds \<and> q \<notin> page_tables pds s \<and>
        unat (pp_ref (pages s' q)) = card (mappings pds s q) + ex q"
      using vm_inv_rc [OF inv q] pages same by simp
  qed
  ultimately show "vm_inv (insert p pds) fl ex s'" using fl inv same by (simp add: vm_inv_def)
qed

section \<open>The loops of \<open>env_free\<close>\<close>

lemma PGADDR_below: "i < PDX UTOP \<Longrightarrow> j < NPTENTRIES \<Longrightarrow> PGADDR i j 0 < UTOP"
  by (simp add: below_UTOP_iff NPTENTRIES_def PDX_UTOP)

lemma free_pte_eq:
  assumes "vm_inv pds fl ex s" "pd \<in> pds" "i < PDX UTOP" "j < NPTENTRIES" "pt_of s pd i = Some pt"
  shows "free_pte pd pt i j s = page_remove pd (PGADDR i j 0) s"
proof (cases "bit (pmem s pt j) 0")
  case True
  then show ?thesis by (simp add: free_pte_def load_def)
next
  case False
  have d: "PDX (PGADDR i j 0) = i" "PTX (PGADDR i j 0) = j"
    using assms(3,4) by (simp_all add: NPTENTRIES_def PDX_UTOP)
  have "pg_of s pd (PDX (PGADDR i j 0)) (PTX (PGADDR i j 0)) = None"
    using False assms(5) by (simp add: pg_of_def d)
  then show ?thesis
    using page_remove_None [OF assms(1,2) PGADDR_below [OF assms(3,4)]] False by (simp add: free_pte_def load_def)
qed

lemma free_ptes_eq:
  assumes "vm_ok pds s" "pd \<in> pds" "i < PDX UTOP" "\<forall>j\<in>set js. j < NPTENTRIES" "pt_of s pd i = Some pt"
  shows "for_each (free_pte pd pt i) js s = for_each (page_remove pd) (map (\<lambda>j. PGADDR i j 0) js) s"
  using assms
proof (induction js arbitrary: s)
  case (Cons j js)
  obtain fl where inv: "vm_inv pds fl (\<lambda>_. 0) s" using Cons.prems(1) by (auto simp: vm_ok_def)
  have j: "j < NPTENTRIES" using Cons.prems(4) by simp
  from aspace.unmap_law [OF Cons.prems(1,2) PGADDR_below [OF Cons.prems(3) j]] obtain s' where
    s': "page_remove pd (PGADDR i j 0) s = Inr ((), s')" "vm_ok pds s'" "vm_kept pds s s'" by blast
  have "pt_of s' pd i = Some pt" using s'(3) Cons.prems(2,5) by (simp add: vm_kept_def)
  with Cons.IH [OF s'(2) Cons.prems(2,3)] Cons.prems(4) s'(1)
  show ?case by (simp add: free_pte_eq [OF inv Cons.prems(2,3) j Cons.prems(5)])
qed simp

lemma vm_okD: "vm_ok pds s \<Longrightarrow> \<exists>fl. vm_inv pds fl (\<lambda>_. 0) s \<and> fl_inv fl s"
  by (auto simp: vm_ok_def vm_inv_def)

lemma PDX_PTX_PGADDR:
  "i < PDX UTOP \<Longrightarrow> j < NPTENTRIES \<Longrightarrow> PDX (PGADDR i j 0) = i \<and> PTX (PGADDR i j 0) = j"
  by (simp add: NPTENTRIES_def PDX_UTOP)

lemma table_vas:
  assumes "i < PDX UTOP"
  shows "PGNUM va \<in> PGNUM ` set (map (\<lambda>j. PGADDR i j 0) [0..<NPTENTRIES]) \<longleftrightarrow> PDX va = i"
proof
  assume "PGNUM va \<in> PGNUM ` set (map (\<lambda>j. PGADDR i j 0) [0..<NPTENTRIES])"
  then obtain j where j: "j < NPTENTRIES" "PGNUM va = PGNUM (PGADDR i j 0)"
    unfolding set_map set_upt by (elim imageE) simp
  then have "PDX va = PDX (PGADDR i j 0)" by (simp only: same_slot_iff [symmetric])
  then show "PDX va = i" using PDX_PTX_PGADDR [OF assms j(1)] by simp
next
  assume i: "PDX va = i"
  have j: "PTX va < NPTENTRIES" by (simp add: NPTENTRIES_def)
  then have "PGNUM va = PGNUM (PGADDR i (PTX va) 0)"
    using PDX_PTX_PGADDR [OF assms j] i same_slot_iff [of va "PGADDR i (PTX va) 0"] by simp
  then show "PGNUM va \<in> PGNUM ` set (map (\<lambda>j. PGADDR i j 0) [0..<NPTENTRIES])"
    unfolding set_map set_upt by (intro image_eqI [of _ _ "PGADDR i (PTX va) 0"] image_eqI [of _ _ "PTX va"]) (use j in simp_all)
qed

text \<open>After the inner loop every entry of the table is gone; all other tables are untouched.\<close>

lemma free_ptes_spec:
  assumes ok: "vm_ok pds s" and pd: "pd \<in> pds" "i < PDX UTOP" and pt: "pt_of s pd i = Some pt"
  shows "\<exists>s'. for_each (free_pte pd pt i) [0..<NPTENTRIES] s = Inr ((), s') \<and> vm_ok pds s' \<and> vm_kept pds s s' \<and>
    (\<forall>j<NPTENTRIES. pg_of s' pd i j = None) \<and>
    (\<forall>pd' i' j'. (pd', i', j') \<in> slots pds \<longrightarrow> (pd', i') \<noteq> (pd, i) \<longrightarrow> pg_of s' pd' i' j' = pg_of s pd' i' j')"
proof -
  let ?vas = "map (\<lambda>j. PGADDR i j 0) [0..<NPTENTRIES]"
  have below: "\<forall>va\<in>set ?vas. va < UTOP" using PGADDR_below [OF pd(2)] by auto
  from aspace.unmap_all [OF ok pd(1) below] obtain s' where
    s': "for_each (page_remove pd) ?vas s = Inr ((), s')" "vm_ok pds s'" "vm_kept pds s s'"
      "\<forall>pd'\<in>pds. \<forall>va'<UTOP. look s' pd' va' =
        (if pd' = pd \<and> PGNUM va' \<in> PGNUM ` set ?vas then None else look s pd' va')" by blast
  have "for_each (free_pte pd pt i) [0..<NPTENTRIES] s = Inr ((), s')"
    using free_ptes_eq [OF ok pd _ pt, of "[0..<NPTENTRIES]"] s'(1) by simp
  moreover have "pg_of s' pd i j = None" if "j < NPTENTRIES" for j
    using s'(4) [rule_format, OF pd(1) PGADDR_below [OF pd(2) that]] table_vas [OF pd(2), of "PGADDR i j 0"]
      PDX_PTX_PGADDR [OF pd(2) that] by (simp only: look_def simp_thms if_True)
  moreover have "pg_of s' pd' i' j' = pg_of s pd' i' j'" if "(pd', i', j') \<in> slots pds" "(pd', i') \<noteq> (pd, i)" for pd' i' j'
  proof -
    have in': "pd' \<in> pds" "i' < PDX UTOP" "j' < NPTENTRIES" using that(1) by (simp_all add: slots_def)
    show ?thesis
      using s'(4) [rule_format, OF in'(1) PGADDR_below [OF in'(2,3)]] table_vas [OF pd(2), of "PGADDR i' j' 0"]
        PDX_PTX_PGADDR [OF in'(2,3)] that(2) by (simp only: look_def prod.inject) (metis (full_types))
  qed
  ultimately show ?thesis using s'(2,3) by blast
qed

text \<open>One round of the outer loop: the entries, then the table itself.\<close>

lemma drop_table_pool:
  assumes inv: "vm_inv pds fl ex s" "vm_inv pds (pt # fl) ex s'" and pd: "pd \<in> pds" "i < PDX UTOP"
    and pt: "pt_of s pd i = Some pt"
    and pts: "\<And>pd' i'. pt_of s' pd' i' = (if (pd', i') = (pd, i) then None else pt_of s pd' i')"
    and map: "mappings pds s' = mappings pds s"
  shows "pool pds s' = pool pds s"
proof -
  have "insert pt (page_tables pds s') = page_tables pds s"
  proof (intro equalityI subsetI)
    fix q assume "q \<in> page_tables pds s"
    then obtain pd1 i1 where a: "pd1 \<in> pds" "i1 < PDX UTOP" "pt_of s pd1 i1 = Some q"
      unfolding page_tables_def by blast
    show "q \<in> insert pt (page_tables pds s')"
    proof (cases "(pd1, i1) = (pd, i)")
      case True
      then show ?thesis using a(3) pt by simp
    next
      case False
      then have "pt_of s' pd1 i1 = Some q" using a(3) pts [of pd1 i1] by simp
      then show ?thesis using a(1,2) unfolding page_tables_def by blast
    qed
  next
    fix q assume "q \<in> insert pt (page_tables pds s')"
    then consider "q = pt" | pd1 i1 where "pd1 \<in> pds" "i1 < PDX UTOP" "pt_of s' pd1 i1 = Some q"
      unfolding page_tables_def by blast
    then show "q \<in> page_tables pds s"
    proof cases
      case 1
      then show ?thesis using vm_inv_pt(5) [OF inv(1) pd pt] by simp
    next
      case 2
      then have "pt_of s pd1 i1 = Some q" using pts [of pd1 i1] by (simp split: if_splits)
      then show ?thesis using 2(1,2) unfolding page_tables_def by blast
    qed
  qed
  then show ?thesis
    unfolding pool_def vm_inv_free_set [OF inv(1)] vm_inv_free_set [OF inv(2)] map by auto
qed

lemma free_pde_spec:
  assumes ok: "vm_ok pds s" and pd: "pd \<in> pds" "i < PDX UTOP"
  shows "\<exists>s'. free_pde pd i s = Inr ((), s') \<and> vm_ok pds s' \<and> vm_frame s s' \<and> pool pds s' = pool pds s \<and>
    pt_of s' pd i = None \<and>
    (\<forall>pd'\<in>pds. \<forall>i'. (pd', i') \<noteq> (pd, i) \<longrightarrow> pt_of s' pd' i' = pt_of s pd' i') \<and>
    (\<forall>pd' i' j'. (pd', i', j') \<in> slots pds \<longrightarrow> (pd', i') \<noteq> (pd, i) \<longrightarrow> pg_of s' pd' i' j' = pg_of s pd' i' j')"
proof (cases "pt_of s pd i")
  case None
  then have "free_pde pd i s = Inr ((), s)" by (simp add: free_pde_def load_def pt_of_None)
  then show ?thesis using ok None by simp
next
  case (Some pt)
  then have pde: "bit (pmem s pd i) 0" "PGNUM (pmem s pd i) = pt" by (simp_all add: pt_of_Some)
  obtain fl where inv: "vm_inv pds fl (\<lambda>_. 0) s" using ok by (auto simp: vm_ok_def)
  note t = vm_inv_pt [OF inv pd Some]
  from free_ptes_spec [OF ok pd Some] obtain s1 where
    s1: "for_each (free_pte pd pt i) [0..<NPTENTRIES] s = Inr ((), s1)" "vm_ok pds s1" "vm_kept pds s s1"
      "\<forall>j<NPTENTRIES. pg_of s1 pd i j = None"
      "\<forall>pd' i' j'. (pd', i', j') \<in> slots pds \<longrightarrow> (pd', i') \<noteq> (pd, i) \<longrightarrow> pg_of s1 pd' i' j' = pg_of s pd' i' j'"
    by blast
  have fr1: "vm_frame s s1" and pts1: "\<forall>pd\<in>pds. \<forall>i. pt_of s1 pd i = pt_of s pd i"
    and pool1: "pool pds s1 = pool pds s" using s1(3) by (simp_all add: vm_kept_def)
  obtain fl1 where inv1: "vm_inv pds fl1 (\<lambda>_. 0) s1" and un: "uninit s1 \<noteq> 0"
    using s1(2) by (auto simp: vm_ok_def)
  have pt1: "pt_of s1 pd i = Some pt" using pts1 pd Some by simp
  note drop = vm_inv_drop_table [OF inv1 pd pt1 s1(4) [rule_format]]
  let ?s2 = "store (pd, i) 0 s1"
  note t1 = vm_inv_pt [OF inv1 pd pt1]
  have nomap: "mappings pds ?s2 pt = {}"
  proof (rule ccontr)
    assume "mappings pds ?s2 pt \<noteq> {}"
    then have "0 < card (mappings pds s1 pt) + 0"
      using vm_inv_finite [OF inv1, of pt] drop(5) by (simp add: card_gt_0_iff)
    from vm_inv_rc(4) [OF inv1 this] t1(5) show False by simp
  qed
  have "pt < npages ?s2" "pp_ref (pages ?s2 pt) = 1" using t1 by simp_all
  from page_decref_last [OF drop(1) this(1) t1(2,3) drop(4) nomap _ this(2)] obtain s3 where
    s3: "page_decref pt ?s2 = Inr ((), s3)" "vm_inv pds (pt # fl1) (\<lambda>_. 0) s3" "vm_frame ?s2 s3" "pmem s3 = pmem ?s2"
    by auto
  note v3 = view_simps [OF s3(4)]
  have np: "npages s1 = npages s" using fr1 by (simp add: vm_frame_iff)
  have "free_pde pd i s = Inr ((), s3)"
    using pde s1(1) s3(1) t(1) np by (simp add: free_pde_def load_def KADDR_def pa2page_def)
  moreover have fr: "vm_frame s s3"
    using fr1 s3(3) by (simp add: vm_frame_iff store_def)
  moreover have "uninit s3 \<noteq> 0" using s3(3) un by (simp add: vm_frame_iff)
  then have "vm_ok pds s3" using s3(2) by (auto simp: vm_ok_def)
  moreover have "pool pds s3 = pool pds s1"
    by (rule drop_table_pool [OF inv1 s3(2) pd pt1]) (simp_all add: v3 drop)
  moreover have "pt_of s3 pd i = None" "\<forall>pd'\<in>pds. \<forall>i'. (pd', i') \<noteq> (pd, i) \<longrightarrow> pt_of s3 pd' i' = pt_of s pd' i'"
    using pts1 by (auto simp: v3 drop(2))
  moreover have "\<forall>pd' i' j'. (pd', i', j') \<in> slots pds \<longrightarrow> (pd', i') \<noteq> (pd, i) \<longrightarrow> pg_of s3 pd' i' j' = pg_of s pd' i' j'"
    using s1(5) by (simp add: v3 drop(3))
  ultimately show ?thesis using pool1 by auto
qed

lemma free_pdes_spec:
  assumes ok: "vm_ok pds s" and pd: "pd \<in> pds"
  shows "\<exists>s'. for_each (free_pde pd) [0..<PDX UTOP] s = Inr ((), s') \<and> vm_ok pds s' \<and> vm_frame s s' \<and>
    pool pds s' = pool pds s \<and> (\<forall>i<PDX UTOP. pt_of s' pd i = None) \<and>
    (\<forall>pd' i' j'. (pd', i', j') \<in> slots (pds - {pd}) \<longrightarrow> pg_of s' pd' i' j' = pg_of s pd' i' j')"
proof -
  let ?P = "\<lambda>is s'. vm_ok pds s' \<and> vm_frame s s' \<and> pool pds s' = pool pds s \<and>
    (\<forall>i\<in>set is. pt_of s' pd i = None) \<and>
    (\<forall>pd' i' j'. (pd', i', j') \<in> slots (pds - {pd}) \<longrightarrow> pg_of s' pd' i' j' = pg_of s pd' i' j')"
  have "\<exists>s'. for_each (free_pde pd) [0..<PDX UTOP] s = Inr ((), s') \<and> ?P [0..<PDX UTOP] s'"
  proof (rule for_each_total)
    show "?P [] s" using ok by simp
  next
    fix xs i ys s1 assume split: "[0..<PDX UTOP] = xs @ i # ys" and P: "?P xs s1"
    have "i \<in> set [0..<PDX UTOP]" unfolding split by simp
    then have i: "i < PDX UTOP" by simp
    from free_pde_spec [OF conjunct1 [OF P] pd i] obtain s2 where
      s2: "free_pde pd i s1 = Inr ((), s2)" "vm_ok pds s2" "vm_frame s1 s2" "pool pds s2 = pool pds s1"
        "pt_of s2 pd i = None" "\<forall>pd'\<in>pds. \<forall>i'. (pd', i') \<noteq> (pd, i) \<longrightarrow> pt_of s2 pd' i' = pt_of s1 pd' i'"
        "\<forall>pd' i' j'. (pd', i', j') \<in> slots pds \<longrightarrow> (pd', i') \<noteq> (pd, i) \<longrightarrow> pg_of s2 pd' i' j' = pg_of s1 pd' i' j'"
      by blast
    have "vm_frame s s2" using P s2(3) vm_frame_trans by blast
    moreover have "\<forall>k\<in>set (xs @ [i]). pt_of s2 pd k = None"
    proof
      fix k assume k: "k \<in> set (xs @ [i])"
      show "pt_of s2 pd k = None"
        by (cases "k = i") (use s2(5,6) P pd k in auto)
    qed
    moreover have "pg_of s2 pd' i' j' = pg_of s pd' i' j'" if "(pd', i', j') \<in> slots (pds - {pd})" for pd' i' j'
    proof -
      have "(pd', i', j') \<in> slots pds" "(pd', i') \<noteq> (pd, i)" using that by (auto simp: slots_def)
      then show ?thesis using s2(7) P that by simp
    qed
    ultimately have "?P (xs @ [i]) s2" using s2(2,4) P by blast
    then show "\<exists>s'. free_pde pd i s1 = Inr ((), s') \<and> ?P (xs @ [i]) s'" using s2(1) by blast
  qed
  then show ?thesis by (simp add: Ball_def)
qed

section \<open>\<open>env_free\<close> as a whole\<close>

lemma vm_frame_k:
  fixes s s' :: kstate
  assumes "vm_frame s s'"
  shows "envs s' = envs s" "env_free_list s' = env_free_list s" "cpus s' = cpus s" "cpunum s' = cpunum s"
    "cr3 s' = cr3 s" "kernel_lock s' = kernel_lock s" "ticks s' = ticks s" "cons_out s' = cons_out s"
    "kern_pgdir s' = kern_pgdir s" "curenv s' = curenv s"
  using assms unfolding vm_frame_iff curenv_def by (cases s; cases s'; simp)+

lemma set_env_simps [simp]:
  "npages (set_env e f s) = npages s" "pmem (set_env e f s) = pmem s" "pages (set_env e f s) = pages s"
  "page_free_list (set_env e f s) = page_free_list s" "uninit (set_env e f s) = uninit s"
  "tlb (set_env e f s) = tlb s" "cpus (set_env e f s) = cpus s" "cpunum (set_env e f s) = cpunum s"
  "kern_pgdir (set_env e f s) = kern_pgdir s" "kernel_lock (set_env e f s) = kernel_lock s"
  "cr3 (set_env e f s) = cr3 s" "env_free_list (set_env e f s) = env_free_list s"
  "curenv (set_env e f s) = curenv s" "envs (set_env e f s) = (envs s)(e := f (envs s e))"
  by (simp_all add: set_env_def curenv_def)

lemma vm_ok_cong:
  assumes "pmem s' = pmem s" "npages s' = npages s" "pages s' = pages s"
    "page_free_list s' = page_free_list s" "uninit s' = uninit s"
  shows "vm_ok pds s' = vm_ok pds s" "look s' = look s" "pool pds s' = pool pds s" "free_set s' = free_set s"
proof -
  note v = view_simps [OF assms(1)]
  have fl: "fl_inv fl s' = fl_inv fl s" for fl using assms by (simp add: fl_inv_def)
  have "vm_inv pds fl ex s' = vm_inv pds fl ex s" for fl ex
    using assms by (simp add: vm_inv_def pd_inv_def pt_inv_def rc_inv_def fl v)
  then show "vm_ok pds s' = vm_ok pds s" using assms by (simp add: vm_ok_def)
  show "look s' = look s" by (simp add: look_def v fun_eq_iff)
  show fs: "free_set s' = free_set s" by (simp add: free_set_def fl)
  show "pool pds s' = pool pds s" by (simp add: pool_def fs v)
qed

text \<open>The address space part of \<open>env_free\<close>: everything of the directory goes back to the pool.\<close>

lemma drop_dir_pool:
  assumes inv: "vm_inv pds fl ex s" "vm_inv (pds - {pd}) (pd # fl) ex s'" and pd: "pd \<in> pds"
    and empty: "\<forall>i<PDX UTOP. pt_of s pd i = None" and pmem: "pmem s' = pmem s"
  shows "pool (pds - {pd}) s' = pool pds s"
proof -
  note v = view_simps [OF pmem]
  have tab: "page_tables (pds - {pd}) s = page_tables pds s"
    using empty unfolding page_tables_def by auto
  have "mappings (pds - {pd}) s = mappings pds s"
    using vm_inv_drop_dir(3) [OF inv(1) pd] empty by simp
  then show ?thesis
    unfolding pool_def vm_inv_free_set [OF inv(1)] vm_inv_free_set [OF inv(2)] v tab using pd by auto
qed

definition freed_env :: "nat \<Rightarrow> kstate \<Rightarrow> kstate \<Rightarrow> bool" where
  "freed_env e s s' \<longleftrightarrow>
     envs s' = (envs s)(e := (envs s e)\<lparr>env_pgdir := None, env_status := ENV_FREE, env_link := env_free_list s\<rparr>) \<and>
     env_free_list s' = Some e \<and> cpus s' = cpus s \<and> cpunum s' = cpunum s \<and> kernel_lock s' = kernel_lock s \<and>
     kern_pgdir s' = kern_pgdir s \<and> npages s' = npages s \<and> uninit s' = uninit s"

lemma env_free_spec:
  assumes ok: "vm_ok pds s" and dir: "env_pgdir (envs s e) = Some pd" and pd: "pd \<in> pds"
  shows "\<exists>s'. env_free e s = Inr ((), s') \<and> vm_ok (pds - {pd}) s' \<and> pool (pds - {pd}) s' = pool pds s \<and>
    freed_env e s s' \<and> pd \<in> free_set s' \<and> (\<forall>pd'\<in>pds - {pd}. \<forall>va<UTOP. look s' pd' va = look s pd' va)"
proof -
  define s0 where "s0 = (if curenv s = Some e then lcr3 (kern_pgdir s) s else s)"
  have eq0: "pmem s0 = pmem s" "npages s0 = npages s" "pages s0 = pages s"
    "page_free_list s0 = page_free_list s" "uninit s0 = uninit s"
    and k0: "envs s0 = envs s" "env_free_list s0 = env_free_list s" "cpus s0 = cpus s" "cpunum s0 = cpunum s"
    "kernel_lock s0 = kernel_lock s" "kern_pgdir s0 = kern_pgdir s"
    by (simp_all add: s0_def lcr3_def)
  note c0 = vm_ok_cong [OF eq0]
  from free_pdes_spec [of pds s0 pd] ok pd c0 obtain s1 where
    s1: "for_each (free_pde pd) [0..<PDX UTOP] s0 = Inr ((), s1)" "vm_ok pds s1" "vm_frame s0 s1"
      "pool pds s1 = pool pds s" "\<forall>i<PDX UTOP. pt_of s1 pd i = None"
      "\<forall>pd' i' j'. (pd', i', j') \<in> slots (pds - {pd}) \<longrightarrow> pg_of s1 pd' i' j' = pg_of s0 pd' i' j'"
    by auto
  note k1 = vm_frame_k [OF s1(3)]
  obtain fl where inv1: "vm_inv pds fl (\<lambda>_. 0) s1" and un1: "uninit s1 \<noteq> 0"
    using s1(2) by (auto simp: vm_ok_def)
  define s2 where "s2 = set_env e (\<lambda>v. v\<lparr>env_pgdir := None\<rparr>) s1"
  have sv: "vm_inv pds fl (\<lambda>_. 0) s2"
    using inv1 vm_inv_same_view [OF same_view_pmem, of s2 s1] by (simp add: s2_def)
  have empty2: "\<forall>i<PDX UTOP. pt_of s2 pd i = None" using s1(5) view_simps(1) [of s2 s1] by (simp add: s2_def)
  note drop = vm_inv_drop_dir [OF sv pd empty2 [rule_format]]
  have pdp: "pd < npages s2" "pd \<notin> set fl" "pp_ref (pages s2 pd) = 1"
    using sv pd by (simp_all add: vm_inv_def pd_inv_def)
  have "mappings (pds - {pd}) s2 pd = {}" using drop(3,4) by simp
  from page_decref_last [OF drop(1) pdp(1,2) _ drop(2) this _ pdp(3)] obtain s3 where
    s3: "page_decref pd s2 = Inr ((), s3)" "vm_inv (pds - {pd}) (pd # fl) (\<lambda>_. 0) s3" "vm_frame s2 s3" "pmem s3 = pmem s2"
    by auto
  note k3 = vm_frame_k [OF s3(3)]
  define s4 where "s4 = (set_env e (\<lambda>v. v\<lparr>env_status := ENV_FREE, env_link := env_free_list s3\<rparr>) s3)\<lparr>env_free_list := Some e\<rparr>"
  have eq4: "pmem s4 = pmem s3" "npages s4 = npages s3" "pages s4 = pages s3"
    "page_free_list s4 = page_free_list s3" "uninit s4 = uninit s3" by (simp_all add: s4_def)
  note c4 = vm_ok_cong [OF eq4]
  have np: "npages s2 \<le> 0x100000" using sv by (simp add: vm_inv_def)
  have run: "env_free e s = Inr ((), s4)"
    using dir k0 k1 s1(1) s3(1) pdp(1) np
    by (simp add: env_free_def s0_def [symmetric] deref_def PADDR_def pa2page_def s2_def [symmetric])
      (simp add: s2_def s4_def)
  have un: "uninit s3 = uninit s" "npages s3 = npages s" "kern_pgdir s3 = kern_pgdir s"
    using s3(3) s1(3) eq0 k0 by (simp_all add: vm_frame_iff s2_def)
  have "vm_ok (pds - {pd}) s3" using s3(2) un(1) ok by (auto simp: vm_ok_def)
  then have "vm_ok (pds - {pd}) s4" by (simp add: c4(1))
  moreover have "pd \<in> free_set s4"
    unfolding c4(4) vm_inv_free_set [OF s3(2)] by simp
  moreover have "pool (pds - {pd}) s4 = pool pds s2"
    unfolding c4(3) by (rule drop_dir_pool [OF sv s3(2) pd empty2 s3(4)])
  moreover have "pool pds s2 = pool pds s1"
    by (rule vm_ok_cong) (simp_all add: s2_def)
  moreover have "freed_env e s s4"
    using k0 k1 k3 un eq4 by (simp add: freed_env_def s4_def s2_def)
  moreover have "look s4 pd' va = look s pd' va" if "pd' \<in> pds - {pd}" "va < UTOP" for pd' va
  proof -
    have "pmem s4 = pmem s1" using eq4 s3(4) by (simp add: s2_def)
    then have "pg_of s4 = pg_of s1" by (rule view_simps)
    moreover have "pg_of s0 = pg_of s" using eq0(1) by (rule view_simps)
    ultimately show ?thesis using s1(6) slots_va [OF that] by (simp add: look_def)
  qed
  ultimately show ?thesis using run s1(4) by auto
qed

section \<open>\<open>env_setup_vm\<close>\<close>

definition fresh_dir :: "nat \<Rightarrow> nat \<Rightarrow> kstate \<Rightarrow> kstate \<Rightarrow> bool" where
  "fresh_dir e pd s s' \<longleftrightarrow>
     envs s' = (envs s)(e := (envs s e)\<lparr>env_pgdir := Some pd\<rparr>) \<and> env_free_list s' = env_free_list s \<and>
     cpus s' = cpus s \<and> cpunum s' = cpunum s \<and> kernel_lock s' = kernel_lock s \<and>
     kern_pgdir s' = kern_pgdir s \<and> npages s' = npages s \<and> uninit s' = uninit s"

lemma env_setup_vm_spec:
  assumes ok: "vm_ok pds s"
  shows "env_setup_vm e s = Inr (- E_NO_MEM, s) \<and> page_free_list s = None \<or>
    (\<exists>s' pd. env_setup_vm e s = Inr (0, s') \<and> pd \<in> free_set s \<and> pd \<notin> pds \<and> vm_ok (insert pd pds) s' \<and>
       pool (insert pd pds) s' = pool pds s \<and> fresh_dir e pd s s' \<and>
       (\<forall>pd'\<in>pds. \<forall>va<UTOP. look s' pd' va = look s pd' va) \<and> (\<forall>va<UTOP. look s' pd va = None))"
proof -
  obtain fl where inv: "vm_inv pds fl (\<lambda>_. 0) s" and un: "uninit s \<noteq> 0" using ok by (auto simp: vm_ok_def)
  show ?thesis
  proof (cases fl)
    case Nil
    then have "fl_inv [] s" using inv by (simp add: vm_inv_def)
    then show ?thesis by (simp add: env_setup_vm_def page_alloc_Nil) (simp add: fl_inv_def)
  next
    case (Cons p fl')
    have fl: "fl_inv (p # fl') s" and np: "npages s \<le> 0x100000" using inv Cons by (simp_all add: vm_inv_def)
    have p: "p < npages s" "p \<notin> pds" using vm_inv_free_unmapped [OF inv, of p] Cons by simp_all
    define s1 where "s1 = zero_page p (pop_page p s)"
    note pop = vm_inv_pop [OF inv [unfolded Cons]]
    note zero = vm_inv_zero_limbo [OF pop, folded s1_def]
    define s2 where "s2 = set_env e (\<lambda>v. v\<lparr>env_pgdir := Some p\<rparr>)
      (set_page p (\<lambda>pi. pi\<lparr>pp_ref := pp_ref pi + 1\<rparr>) s1)"
    define s3 where "s3 = s2\<lparr>pmem := (pmem s2)(p := (\<lambda>i. if i < PDX UTOP then 0
      else if i < NPDENTRIES then pmem s2 (kern_pgdir s2) i else pmem s2 p i))\<rparr>"
    define s' where "s' = store (p, PDX UVPT) (page2pa p OR PTE_P OR PTE_U) s3"
    have alloc: "page_alloc ALLOC_ZERO s = Inr (Some p, s1)"
      using page_alloc_Cons [OF fl np, of ALLOC_ZERO] by (simp add: s1_def jos_consts)
    have kva: "page2kva p t = Inr (p, t)" if "npages t = npages s" for t :: kstate
      using that p np by (simp add: page2kva_def KADDR_def)
    have np1: "npages (set_page p (\<lambda>pi. pi\<lparr>pp_ref := pp_ref pi + 1\<rparr>) s1) = npages s" by (simp add: s1_def)
    have run: "env_setup_vm e s = Inr (0, s')"
      unfolding env_setup_vm_def alloc bindS_Inr option.case kva [OF np1] Let_def s'_def s3_def s2_def ..
    have uvpt: "\<not> PDX UVPT < PDX UTOP" by (simp add: PDX_div jos_consts)
    have add: "\<forall>i<PDX UTOP. \<not> bit (pmem s' p i) 0" "\<forall>q. q \<noteq> p \<longrightarrow> pmem s' q = pmem s1 q"
      "npages s' = npages s1" "page_free_list s' = page_free_list s1"
      using uvpt by (auto simp: s'_def s3_def s2_def pmem_store)
    have "pp_ref (pages s1 p) = 0" using zero(2) by (simp add: limbo_def)
    then have pages: "pages s' = (pages s1)(p := (pages s1 p)\<lparr>pp_ref := 1\<rparr>)"
      by (simp add: s'_def s3_def s2_def)
    note dir = vm_inv_add_dir [OF zero(1,2) add(1,2) pages add(3,4)]
    have "uninit s' = uninit s" by (simp add: s'_def s3_def s2_def s1_def)
    then have "vm_ok (insert p pds) s'" using dir(1) un by (auto simp: vm_ok_def)
    moreover have sv: "same_view pds s s1"
      using zero(3) view_simps(1,2) [of "pop_page p s" s] by (simp add: s1_def same_view_def)
    moreover have "pool (insert p pds) s' = pool pds s"
      unfolding pool_def vm_inv_free_set [OF inv [unfolded Cons]] vm_inv_free_set [OF dir(1)] dir(4,5)
        same_view_tables [OF sv] same_view_mappings [OF sv] by auto
    moreover have "fresh_dir e p s s'"
      by (simp add: fresh_dir_def s'_def s3_def s2_def s1_def store_def zero_page_def pop_page_def set_page_def set_env_def)
    moreover have "look s' pd' va = look s pd' va" if "pd' \<in> pds" "va < UTOP" for pd' va
      using dir(2) [of pd' "PDX va" "PTX va"] that slots_va [OF that] sv
      by (simp add: look_def same_view_def below_UTOP_iff)
    moreover have "look s' p va = None" if "va < UTOP" for va
      using dir(3) [of "PDX va" "PTX va"] that by (simp add: look_def below_UTOP_iff)
    moreover have "p \<in> free_set s" unfolding vm_inv_free_set [OF inv] Cons by simp
    ultimately show ?thesis using run p(2) by blast
  qed
qed

end
