(* ===== verification/EnvIds.thy ===== *)
theory EnvIds
  imports Spaces
begin

text \<open>
  Environment ids: the slot in the low bits, a generation above. A new id is positive, names its slot
  and differs from the id the slot had before, so that old ids are recognised as stale.
\<close>

lemma mask10: "(1023 :: 32 word) = mask 10"
  by (simp add: mask_eq_exp_minus_1)

lemma unat_and_not_1023: "unat ((w :: 32 word) AND NOT 1023) = unat w div 1024 * 1024"
proof -
  have "w AND NOT 1023 = push_bit 10 (drop_bit 10 w)"
    unfolding mask10 by (rule bit_word_eqI) (auto simp: bit_simps)
  also have "unat \<dots> = unat (drop_bit 10 w) * 1024 mod 2 ^ 32"
    by (simp add: push_bit_eq_mult unat_word_ariths mult.commute del: drop_bit_eq_div)
  also have "\<dots> = unat w div 1024 * 1024"
  proof -
    have "unat w div 1024 * 1024 < 2 ^ 32" using unat_less32 [of w] by (simp add: div_less_iff_less_mult)
    then show ?thesis unfolding unat_drop_bit by simp
  qed
  finally show ?thesis .
qed

lemma ENVX_mod: "ENVX w = unat w mod 1024"
  using unat_and_mask [of w 10] by (simp add: ENVX_def mask10)

lemma unat_or_slot:
  assumes "1024 dvd unat (g :: 32 word)" "slot < 1024"
  shows "unat (g OR of_nat slot) = unat g + slot"
proof -
  have "take_bit 10 (unat g) = 0" using assms(1) by (simp add: take_bit_eq_mod)
  then have "\<not> bit g n" if "n < 10" for n
    using that bit_take_bit_iff [of 10 "unat g" n] by (simp add: bit_unsigned_iff)
  moreover have "\<not> bit (of_nat slot :: 32 word) n" if "n \<ge> 10" for n
    using that assms(2) bit_small_nat [of slot n] by (auto simp: bit_simps)
  ultimately have "g AND of_nat slot = 0"
    by (intro bit_word_eqI) (auto simp: bit_and_iff, metis not_less)
  then have "g OR of_nat slot = g + of_nat slot" by (simp add: disjunctive_add_eq_or)
  moreover have "unat g + slot < 2 ^ 32"
  proof -
    obtain k where "unat g = 1024 * k" using assms(1) by auto
    then show ?thesis using unat_less32 [of g] assms(2) by simp
  qed
  ultimately show ?thesis using assms(2) by (simp add: unat_word_ariths unat_of_nat)
qed

lemma bit31_iff: "bit (w :: 32 word) 31 \<longleftrightarrow> 0x80000000 \<le> unat w"
proof -
  have "bit w 31 \<longleftrightarrow> odd (unat w div 2 ^ 31)"
    using bit_unsigned_iff [of w 31, where ?'a = nat] by (simp add: bit_iff_odd)
  moreover have "unat w div 2 ^ 31 < 2" using unat_less32 [of w] by (simp add: div_less_iff_less_mult)
  moreover have "unat w div 2 ^ 31 = 0 \<longleftrightarrow> unat w < 2 ^ 31" by (simp add: div_eq_0_iff)
  ultimately show ?thesis by (auto simp: less_2_cases_iff)
qed

lemma sint_pos_iff: "0 < sint (w :: 32 word) \<longleftrightarrow> w \<noteq> 0 \<and> unat w < 0x80000000"
proof (cases "bit w 31")
  case True
  then have "sint w < 0" using bit_last_iff [of w] by simp
  then show ?thesis using True by (simp add: bit31_iff)
next
  case False
  then have u: "unat w < 0x80000000" using bit31_iff [of w] by linarith
  have "signed_take_bit 31 (int n) = int n" if "n < 0x80000000" for n
    using that by (intro signed_take_bit_int_eq_self) simp_all
  from this [OF u] have "signed_take_bit 31 (int (unat w)) = int (unat w)" .
  then have "sint w = int (unat w)" by (simp only: sint_uint uint_nat) simp
  then show ?thesis using u by (simp only: of_nat_0_less_iff unat_gt_0 simp_thms)
qed

text \<open>The id that a slot gets is positive, carries the slot, and is not the one it had.\<close>

lemma new_envid_unat:
  assumes "slot < 1024" "unat old < 0x80000000"
  shows "unat (new_envid slot old) =
    (if unat old + 4096 < 0x80000000 then (unat old div 1024 + 4) * 1024 else 4096) + slot"
proof -
  let ?g = "(old + push_bit ENVGENSHIFT 1) AND NOT 1023"
  have "unat (old + push_bit ENVGENSHIFT 1) = unat old + 4096"
    using assms(2) by (simp add: ENVGENSHIFT_def unat_word_ariths)
  then have g: "unat ?g = (unat old div 1024 + 4) * 1024"
    using div_mult_self1 [of 1024 "unat old" 4] by (simp only: unat_and_not_1023) simp
  have "sint ?g \<le> 0 \<longleftrightarrow> \<not> unat old + 4096 < 0x80000000"
  proof -
    have "0 < unat ?g" using g by simp
    then have "?g \<noteq> 0" by (metis less_irrefl unat_0)
    then have "0 < sint ?g \<longleftrightarrow> (unat old div 1024 + 4) * 1024 < 0x80000000" using sint_pos_iff [of ?g] g by simp
    also have "\<dots> \<longleftrightarrow> unat old div 1024 < 2097148" by auto
    also have "\<dots> \<longleftrightarrow> unat old + 4096 < 0x80000000" by (simp add: div_less_iff_less_mult)
    finally show ?thesis by linarith
  qed
  moreover have "unat (push_bit ENVGENSHIFT 1 :: 32 word) = 4096" by (simp add: ENVGENSHIFT_def)
  ultimately show ?thesis
    unfolding new_envid_def Let_def
    using unat_or_slot [of ?g slot] unat_or_slot [of "push_bit ENVGENSHIFT 1" slot] g assms(1) by simp
qed

lemma new_envid_ok:
  assumes "slot < 1024" "unat old < 0x80000000"
  shows "ENVX (new_envid slot old) = slot" "0 < sint (new_envid slot old)"
    "new_envid slot old \<noteq> old" "new_envid slot old \<noteq> 0"
proof -
  note u = new_envid_unat [OF assms]
  have d: "unat old < 1024 + unat old div 1024 * 1024" by (rule dividend_less_div_times) simp
  have d': "unat old div 1024 < 2097148 \<longleftrightarrow> unat old < 2097148 * 1024" by (rule div_less_iff_less_mult) simp
  have pos: "0 < unat (new_envid slot old)" "unat (new_envid slot old) < 0x80000000"
    using u assms d' by (simp_all split: if_splits)
  then show nz: "new_envid slot old \<noteq> 0" by (metis less_irrefl unat_0)
  show "ENVX (new_envid slot old) = slot" 
  proof -
    have m: "(m * 1024 + slot) mod 1024 = slot" for m using assms(1) by simp
    show ?thesis
      unfolding ENVX_mod u using m [of "unat old div 1024 + 4"] m [of 4]
      by (cases "unat old + 4096 < 0x80000000") (simp_all only: if_True if_False, simp)
  qed
  show "0 < sint (new_envid slot old)" using nz pos by (simp add: sint_pos_iff)
  show "new_envid slot old \<noteq> old"
  proof
    assume "new_envid slot old = old"
    then have "unat old = (if unat old + 4096 < 0x80000000 then (unat old div 1024 + 4) * 1024 else 4096) + slot"
      using u by simp
    then show False using assms d by (simp split: if_splits)
  qed
qed

end
