(* ===== verification/KInv.thy ===== *)
theory KInv
  imports EnvIds
begin

text \<open>
  The invariant of the kernel: memory and page tables are consistent with the directories of the
  live environments, no two of which share a directory; the free list of environments holds exactly
  the free slots; every live environment has a positive id that names its slot. Creating,
  scheduling and destroying environments keeps it.
\<close>

section \<open>The invariant\<close>

definition live :: "kstate \<Rightarrow> nat \<Rightarrow> bool" where
  "live s e \<longleftrightarrow> e < NENV \<and> env_status (envs s e) \<noteq> ENV_FREE"

definition pgdirs :: "kstate \<Rightarrow> nat set" where
  "pgdirs s = {pd. \<exists>e. live s e \<and> env_pgdir (envs s e) = Some pd}"

definition envs_inv :: "nat list \<Rightarrow> kstate \<Rightarrow> bool" where
  "envs_inv efl s \<longleftrightarrow>
     chain (\<lambda>e. env_link (envs s e)) (env_free_list s) efl \<and>
     (\<forall>e. e \<in> set efl \<longleftrightarrow> e < NENV \<and> env_status (envs s e) = ENV_FREE) \<and>
     (\<forall>e<NENV. unat (env_id (envs s e)) < 0x80000000) \<and>
     (\<forall>e. live s e \<longrightarrow> env_pgdir (envs s e) \<noteq> None \<and> ENVX (env_id (envs s e)) = e \<and> env_id (envs s e) \<noteq> 0) \<and>
     (\<forall>e e'. live s e \<longrightarrow> live s e' \<longrightarrow> env_pgdir (envs s e) = env_pgdir (envs s e') \<longrightarrow> e = e')"

definition k_inv :: "kstate \<Rightarrow> bool" where
  "k_inv s \<longleftrightarrow> vm_ok (pgdirs s) s \<and> (\<exists>efl. envs_inv efl s)"

lemma k_inv_ok: "k_inv s \<Longrightarrow> vm_ok (pgdirs s) s"
  by (simp add: k_inv_def)

lemma envs_inv_live:
  assumes "envs_inv efl s" "live s e"
  shows "env_pgdir (envs s e) \<noteq> None" "ENVX (env_id (envs s e)) = e" "env_id (envs s e) \<noteq> 0" "e \<notin> set efl"
proof -
  show "env_pgdir (envs s e) \<noteq> None" "ENVX (env_id (envs s e)) = e" "env_id (envs s e) \<noteq> 0"
    using assms unfolding envs_inv_def by blast+
  show "e \<notin> set efl" using assms unfolding envs_inv_def live_def by blast
qed

lemma k_inv_pgdir:
  assumes "k_inv s" "live s e"
  obtains pd where "env_pgdir (envs s e) = Some pd" "pd \<in> pgdirs s"
proof -
  obtain efl where "envs_inv efl s" using assms(1) by (auto simp: k_inv_def)
  from envs_inv_live(1) [OF this assms(2)] obtain pd where "env_pgdir (envs s e) = Some pd" by auto
  moreover from this have "pd \<in> pgdirs s" using assms(2) unfolding pgdirs_def by blast
  ultimately show thesis by (rule that)
qed

text \<open>The invariant reads only some fields of the environments.\<close>

definition same_env :: "Env \<Rightarrow> Env \<Rightarrow> bool" where
  "same_env v v' \<longleftrightarrow>
     env_link v' = env_link v \<and> env_id v' = env_id v \<and> env_pgdir v' = env_pgdir v \<and>
     (env_status v' = ENV_FREE \<longleftrightarrow> env_status v = ENV_FREE)"

definition same_envs :: "kstate \<Rightarrow> kstate \<Rightarrow> bool" where
  "same_envs s s' \<longleftrightarrow> env_free_list s' = env_free_list s \<and> (\<forall>e. same_env (envs s e) (envs s' e))"

lemma same_envs_live: "same_envs s s' \<Longrightarrow> live s' e = live s e"
  by (simp add: same_envs_def same_env_def live_def)

lemma same_envs_pgdirs: "same_envs s s' \<Longrightarrow> pgdirs s' = pgdirs s"
  unfolding pgdirs_def by (simp add: same_envs_live) (simp add: same_envs_def same_env_def)

lemma same_envs_inv:
  assumes "same_envs s s'" shows "envs_inv efl s' = envs_inv efl s"
proof -
  have "\<And>e. env_link (envs s' e) = env_link (envs s e) \<and> env_id (envs s' e) = env_id (envs s e) \<and>
      env_pgdir (envs s' e) = env_pgdir (envs s e) \<and>
      (env_status (envs s' e) = ENV_FREE) = (env_status (envs s e) = ENV_FREE)"
    and "env_free_list s' = env_free_list s"
    using assms by (simp_all add: same_envs_def same_env_def)
  then show ?thesis unfolding envs_inv_def same_envs_live [OF assms] by simp
qed

lemma k_inv_same_envs:
  assumes "k_inv s" "same_envs s s'" "vm_ok (pgdirs s) s'"
  shows "k_inv s'"
  using assms by (simp add: k_inv_def same_envs_pgdirs same_envs_inv)

lemma same_envs_refl [simp]: "same_envs s s"
  by (simp add: same_envs_def same_env_def)

lemma same_envs_trans: "same_envs s s' \<Longrightarrow> same_envs s' s'' \<Longrightarrow> same_envs s s''"
  by (simp add: same_envs_def same_env_def)

lemma same_envs_frame: "vm_frame s s' \<Longrightarrow> same_envs s s'"
  by (simp add: same_envs_def same_env_def vm_frame_k)

lemma same_envs_set_env: "same_env (envs s e) (f (envs s e)) \<Longrightarrow> same_envs s (set_env e f s)"
  by (simp add: same_envs_def same_env_def)

text \<open>Changes of the state that neither touch memory nor the environments.\<close>

definition same_mem :: "kstate \<Rightarrow> kstate \<Rightarrow> bool" where
  "same_mem s s' \<longleftrightarrow>
     pmem s' = pmem s \<and> npages s' = npages s \<and> pages s' = pages s \<and> page_free_list s' = page_free_list s \<and>
     uninit s' = uninit s"

lemma k_inv_same:
  assumes "k_inv s" "same_envs s s'" "same_mem s s'"
  shows "k_inv s'"
  using assms k_inv_same_envs [OF assms(1,2)] vm_ok_cong(1) [of s' s "pgdirs s"]
  by (simp add: same_mem_def k_inv_def)

lemma k_inv_set_env:
  "k_inv s \<Longrightarrow> same_env (envs s e) (f (envs s e)) \<Longrightarrow> k_inv (set_env e f s)"
  by (rule k_inv_same) (auto simp: same_envs_set_env same_mem_def)

lemma k_inv_page_op:
  "k_inv s \<Longrightarrow> vm_ok (pgdirs s) s' \<Longrightarrow> vm_frame s s' \<Longrightarrow> k_inv s'"
  using k_inv_same_envs same_envs_frame by blast

section \<open>Scheduling keeps the invariant\<close>

lemma same_mem_simps [simp]:
  "same_mem s s" "same_mem s (lcr3 p s)" "same_mem s (set_curenv c s)" "same_mem s (set_env e f s)"
  by (simp_all add: same_mem_def lcr3_def set_curenv_def)

lemma k_inv_lcr3: "k_inv s \<Longrightarrow> k_inv (lcr3 p s)"
  by (rule k_inv_same) (simp_all add: same_envs_def same_env_def lcr3_def same_mem_def)

lemma k_inv_set_curenv: "k_inv s \<Longrightarrow> k_inv (set_curenv c s)"
  by (rule k_inv_same) (simp_all add: same_envs_def same_env_def set_curenv_def same_mem_def)

lemma k_inv_cpus: "k_inv s \<Longrightarrow> k_inv (s\<lparr>cpus := c\<rparr>)"
  by (rule k_inv_same) (simp_all add: same_envs_def same_env_def same_mem_def)

lemma k_inv_unlock: "k_inv s \<Longrightarrow> k_inv (res_state (unlock_kernel s))"
  unfolding unlock_kernel_def by (auto intro: k_inv_same simp: same_envs_def same_env_def same_mem_def)

lemma k_inv_lock: "k_inv s \<Longrightarrow> k_inv (res_state (lock_kernel s))"
  unfolding lock_kernel_def by (auto intro: k_inv_same simp: same_envs_def same_env_def same_mem_def)

lemma k_inv_env_pop_tf: "k_inv s \<Longrightarrow> k_inv (res_state (env_pop_tf e s))"
  by (auto simp: env_pop_tf_def deref_def same_env_def intro!: k_inv_set_env split: option.splits)

lemmas status_consts = ENV_FREE_def ENV_DYING_def ENV_RUNNABLE_def ENV_RUNNING_def ENV_NOT_RUNNABLE_def

lemma k_inv_bindS:
  "k_inv (res_state m) \<Longrightarrow> (\<And>a s. m = Inr (a, s) \<Longrightarrow> k_inv s \<Longrightarrow> k_inv (res_state (f a s))) \<Longrightarrow>
   k_inv (res_state (bindS m f))"
  by (rule res_state_bindS)

lemma k_inv_switch:
  assumes "k_inv s"
  shows "k_inv (case curenv s of
      Some c \<Rightarrow> if env_status (envs s c) = ENV_RUNNING then set_env c (\<lambda>v. v\<lparr>env_status := ENV_RUNNABLE\<rparr>) s else s
    | None \<Rightarrow> s)"
  using assms by (auto simp: same_env_def status_consts intro!: k_inv_set_env split: option.splits)

lemma k_inv_env_run:
  assumes inv: "k_inv s" and e: "env_status (envs s e) \<noteq> ENV_FREE"
  shows "k_inv (res_state (env_run e s))"
proof -
  define s0 where "s0 = (case curenv s of
      Some c \<Rightarrow> if env_status (envs s c) = ENV_RUNNING then set_env c (\<lambda>v. v\<lparr>env_status := ENV_RUNNABLE\<rparr>) s else s
    | None \<Rightarrow> s)"
  define s1 where "s1 = set_env e (\<lambda>v. v\<lparr>env_status := ENV_RUNNING, env_runs := env_runs v + 1\<rparr>) (set_curenv (Some e) s0)"
  have "env_status (envs s0 e) \<noteq> ENV_FREE"
    using e unfolding s0_def by (auto simp: status_consts split: option.split)
  moreover have "envs (set_curenv (Some e) s0) = envs s0" by (simp add: set_curenv_def)
  moreover have "k_inv s0" unfolding s0_def by (rule k_inv_switch [OF inv])
  ultimately have inv1: "k_inv s1"
    unfolding s1_def by (intro k_inv_set_env k_inv_set_curenv) (simp_all add: same_env_def status_consts)
  have "k_inv (res_state (if curenv s \<noteq> Some e
      then bindS (PADDR (env_pgdir (envs s1 e)) s1) (\<lambda>pd s. Inr ((), lcr3 pd s)) else Inr ((), s)))"
    using inv inv1 by (cases "env_pgdir (envs s1 e)") (simp_all add: PADDR_def k_inv_lcr3)
  then show ?thesis
    unfolding env_run_def Let_def s0_def [symmetric] s1_def [symmetric]
    by (intro k_inv_bindS k_inv_unlock k_inv_env_pop_tf)
qed

lemma sched_search_runnable: "sched_search n idle s = Some e \<Longrightarrow> env_status (envs s e) = ENV_RUNNABLE"
  by (induction n arbitrary: idle) (auto split: if_splits)

lemma k_inv_sched_halt: "k_inv s \<Longrightarrow> k_inv (res_state (sched_halt s))"
  unfolding sched_halt_def Let_def
  by (auto intro!: k_inv_bindS k_inv_unlock k_inv_cpus k_inv_lcr3 k_inv_set_curenv)

lemma k_inv_sched_yield: "k_inv s \<Longrightarrow> k_inv (res_state (sched_yield s))"
  unfolding sched_yield_def
  by (auto dest: sched_search_runnable intro!: k_inv_env_run k_inv_sched_halt simp: status_consts
      split: option.splits)

section \<open>Destroying an environment\<close>

lemma freed_env_live: "freed_env e s s' \<Longrightarrow> live s' e' \<longleftrightarrow> live s e' \<and> e' \<noteq> e"
  by (auto simp: freed_env_def live_def)

lemma freed_env_envs_inv:
  assumes "envs_inv efl s" "live s e" "freed_env e s s'"
  shows "envs_inv (e # efl) s'"
proof -
  have e: "e < NENV" "e \<notin> set efl" using assms(2) envs_inv_live(4) [OF assms(1,2)] by (simp_all add: live_def)
  have envs': "envs s' = (envs s)(e := (envs s e)\<lparr>env_pgdir := None, env_status := ENV_FREE, env_link := env_free_list s\<rparr>)"
    and fl': "env_free_list s' = Some e" using assms(3) by (simp_all add: freed_env_def)
  have "chain (\<lambda>x. env_link (envs s' x)) (env_free_list s) efl"
  proof (rule chain_cong [THEN iffD1])
    show "chain (\<lambda>x. env_link (envs s x)) (env_free_list s) efl" using assms(1) by (simp add: envs_inv_def)
    show "env_link (envs s x) = env_link (envs s' x)" if "x \<in> set efl" for x
      using that e(2) by (auto simp: envs')
  qed
  then have ch: "chain (\<lambda>x. env_link (envs s' x)) (env_free_list s') (e # efl)" by (simp add: fl' envs')
  have "\<forall>x. x \<in> set (e # efl) \<longleftrightarrow> x < NENV \<and> env_status (envs s' x) = ENV_FREE"
    using assms(1) e unfolding envs_inv_def envs' by simp
  moreover have "\<forall>x<NENV. unat (env_id (envs s' x)) < 0x80000000"
    using assms(1) unfolding envs_inv_def envs' by simp
  moreover have "\<forall>x. live s' x \<longrightarrow> env_pgdir (envs s' x) \<noteq> None \<and> ENVX (env_id (envs s' x)) = x \<and> env_id (envs s' x) \<noteq> 0"
    using envs_inv_live [OF assms(1)] unfolding freed_env_live [OF assms(3)] envs' by simp
  moreover have "\<forall>x y. live s' x \<longrightarrow> live s' y \<longrightarrow> env_pgdir (envs s' x) = env_pgdir (envs s' y) \<longrightarrow> x = y"
    using assms(1) unfolding freed_env_live [OF assms(3)] envs' envs_inv_def by simp
  ultimately show ?thesis using ch unfolding envs_inv_def by blast
qed

lemma k_inv_env_free:
  assumes inv: "k_inv s" and e: "live s e"
  shows "\<exists>s' pd. env_free e s = Inr ((), s') \<and> k_inv s' \<and> freed_env e s s' \<and> pd \<in> free_set s' \<and>
    env_pgdir (envs s e) = Some pd \<and> pgdirs s' = pgdirs s - {pd} \<and> pool (pgdirs s') s' = pool (pgdirs s) s \<and>
    (\<forall>pd'\<in>pgdirs s'. \<forall>va<UTOP. look s' pd' va = look s pd' va)"
proof -
  obtain efl where ei: "envs_inv efl s" using inv by (auto simp: k_inv_def)
  from k_inv_pgdir [OF inv e] obtain pd where pd: "env_pgdir (envs s e) = Some pd" "pd \<in> pgdirs s" .
  from env_free_spec [OF k_inv_ok [OF inv] pd] obtain s' where
    s': "env_free e s = Inr ((), s')" "vm_ok (pgdirs s - {pd}) s'" "pool (pgdirs s - {pd}) s' = pool (pgdirs s) s"
      "freed_env e s s'" "pd \<in> free_set s'" "\<forall>pd'\<in>pgdirs s - {pd}. \<forall>va<UTOP. look s' pd' va = look s pd' va" by blast
  have pg: "env_pgdir (envs s' x) = env_pgdir (envs s x)" if "x \<noteq> e" for x
    using s'(4) that by (simp add: freed_env_def)
  have uniq: "x = e" if "live s x" "env_pgdir (envs s x) = Some pd" for x
    using ei that e pd(1) unfolding envs_inv_def by metis
  have "pgdirs s' = pgdirs s - {pd}"
  proof (rule set_eqI)
    fix q
    have "q \<in> pgdirs s' \<longleftrightarrow> (\<exists>x. live s x \<and> x \<noteq> e \<and> env_pgdir (envs s x) = Some q)"
      unfolding pgdirs_def freed_env_live [OF s'(4)] using pg by auto
    also have "\<dots> \<longleftrightarrow> q \<in> pgdirs s - {pd}"
      unfolding pgdirs_def using uniq pd(1) by auto
    finally show "q \<in> pgdirs s' \<longleftrightarrow> q \<in> pgdirs s - {pd}" .
  qed
  moreover from this have "k_inv s'"
    using s'(2) freed_env_envs_inv [OF ei e s'(4)] unfolding k_inv_def by auto
  ultimately show ?thesis using s' pd(1) by auto
qed

lemma k_inv_env_destroy:
  assumes "k_inv s" "live s e"
  shows "k_inv (res_state (env_destroy e s))"
proof (cases "env_status (envs s e) = ENV_RUNNING \<and> curenv s \<noteq> Some e")
  case True
  then show ?thesis
    using assms(1) by (auto simp: env_destroy_def same_env_def status_consts intro!: k_inv_set_env)
next
  case False
  obtain s' where "env_free e s = Inr ((), s')" "k_inv s'" using k_inv_env_free [OF assms] by blast
  with False show ?thesis
    by (auto simp: env_destroy_def intro!: k_inv_sched_yield k_inv_set_curenv)
qed

section \<open>Creating an environment\<close>

definition new_env :: "nat \<Rightarrow> nat \<Rightarrow> 32 word \<Rightarrow> Env \<Rightarrow> Env" where
  "new_env e pd parent v =
     v\<lparr>env_pgdir := Some pd, env_id := new_envid e (env_id v), env_parent_id := parent,
       env_type := ENV_TYPE_USER, env_status := ENV_RUNNABLE, env_runs := 0, env_tf := init_tf,
       env_pgfault_upcall := 0, env_ipc_recving := False\<rparr>"

definition created_env :: "nat \<Rightarrow> nat \<Rightarrow> 32 word \<Rightarrow> kstate \<Rightarrow> kstate \<Rightarrow> bool" where
  "created_env e pd parent s s' \<longleftrightarrow>
     envs s' = (envs s)(e := new_env e pd parent (envs s e)) \<and> env_free_list s' = env_link (envs s e) \<and>
     cpus s' = cpus s \<and> cpunum s' = cpunum s \<and> kernel_lock s' = kernel_lock s \<and> kern_pgdir s' = kern_pgdir s"

lemma created_env_live:
  "created_env e pd parent s s' \<Longrightarrow> e < NENV \<Longrightarrow> live s' x \<longleftrightarrow> x = e \<or> live s x"
  by (auto simp: created_env_def live_def new_env_def status_consts)

lemma created_env_inv:
  assumes ei: "envs_inv (e # efl) s" and cr: "created_env e pd parent s s'" and pd: "pd \<notin> pgdirs s"
  shows "envs_inv efl s'" "pgdirs s' = insert pd (pgdirs s)"
proof -
  have ch: "chain (\<lambda>x. env_link (envs s x)) (env_free_list s) (e # efl)"
    and free: "\<forall>x. x \<in> set (e # efl) \<longleftrightarrow> x < NENV \<and> env_status (envs s x) = ENV_FREE"
    and ids: "\<forall>x<NENV. unat (env_id (envs s x)) < 0x80000000"
    and inj: "\<forall>x y. live s x \<longrightarrow> live s y \<longrightarrow> env_pgdir (envs s x) = env_pgdir (envs s y) \<longrightarrow> x = y"
    using ei unfolding envs_inv_def by blast+
  have "distinct (e # efl)" using chain_distinct [OF ch] .
  then have e: "e < NENV" "e \<notin> set efl" "\<not> live s e" using free by (auto simp: live_def)
  have envs': "envs s' = (envs s)(e := new_env e pd parent (envs s e))" and fl': "env_free_list s' = env_link (envs s e)"
    using cr by (simp_all add: created_env_def)
  note live' = created_env_live [OF cr e(1)]
  have old: "unat (env_id (envs s e)) < 0x80000000" using ids e(1) by simp
  have slot: "e < 1024" using e(1) by (simp add: NENV_def)
  note id = new_envid_ok [OF slot old]
  have ch': "chain (\<lambda>x. env_link (envs s' x)) (env_free_list s') efl"
  proof (rule chain_cong [THEN iffD1])
    show "chain (\<lambda>x. env_link (envs s x)) (env_free_list s') efl" using ch by (simp add: fl')
    show "env_link (envs s x) = env_link (envs s' x)" if "x \<in> set efl" for x using that e(2) by (auto simp: envs')
  qed
  have "\<forall>x. x \<in> set efl \<longleftrightarrow> x < NENV \<and> env_status (envs s' x) = ENV_FREE"
  proof
    fix x
    have "x \<in> set (e # efl) \<longleftrightarrow> x < NENV \<and> env_status (envs s x) = ENV_FREE" using free by blast
    then show "x \<in> set efl \<longleftrightarrow> x < NENV \<and> env_status (envs s' x) = ENV_FREE"
      using e(2) by (cases "x = e") (simp_all add: envs' new_env_def status_consts)
  qed
  moreover have "\<forall>x<NENV. unat (env_id (envs s' x)) < 0x80000000"
    using ids id(2) by (simp add: envs' new_env_def sint_pos_iff)
  moreover have "env_pgdir (envs s' x) \<noteq> None \<and> ENVX (env_id (envs s' x)) = x \<and> env_id (envs s' x) \<noteq> 0" if "live s' x" for x
  proof (cases "x = e")
    case True
    then show ?thesis using id by (simp add: envs' new_env_def)
  next
    case False
    then have "live s x" using that live' by simp
    from envs_inv_live(1-3) [OF ei this] False show ?thesis by (simp add: envs')
  qed
  moreover have fresh: "env_pgdir (envs s x) \<noteq> Some pd" if "live s x" for x
    using pd that unfolding pgdirs_def by blast
  have "x = y" if "live s' x" "live s' y" "env_pgdir (envs s' x) = env_pgdir (envs s' y)" for x y
  proof (cases "x = e \<or> y = e")
    case True
    then show ?thesis using that fresh [of x] fresh [of y] unfolding live' envs' new_env_def
      by (auto split: if_splits)
  next
    case False
    then have "live s x" "live s y" "env_pgdir (envs s x) = env_pgdir (envs s y)"
      using that unfolding live' envs' by simp_all
    then show ?thesis using inj by blast
  qed
  ultimately show "envs_inv efl s'" using ch' unfolding envs_inv_def by blast
  show "pgdirs s' = insert pd (pgdirs s)"
  proof (rule set_eqI)
    fix q
    have "q \<in> pgdirs s' \<longleftrightarrow> (\<exists>x. (x = e \<or> live s x) \<and> env_pgdir (envs s' x) = Some q)"
      unfolding pgdirs_def live' by simp
    also have "\<dots> \<longleftrightarrow> q = pd \<or> (\<exists>x. live s x \<and> env_pgdir (envs s x) = Some q)"
      using e(3) by (auto simp: envs' new_env_def)
    finally show "q \<in> pgdirs s' \<longleftrightarrow> q \<in> insert pd (pgdirs s)" unfolding pgdirs_def by simp
  qed
qed

lemma env_alloc_spec:
  assumes inv: "k_inv s"
  shows "env_alloc parent s = Inr ((- E_NO_FREE_ENV, None), s) \<and> env_free_list s = None \<or>
    env_alloc parent s = Inr ((- E_NO_MEM, None), s) \<and> page_free_list s = None \<or>
    (\<exists>e pd s'. env_free_list s = Some e \<and> e < NENV \<and> \<not> live s e \<and> pd \<in> free_set s \<and> pd \<notin> pgdirs s \<and>
       env_alloc parent s = Inr ((0, Some e), s') \<and> k_inv s' \<and> created_env e pd parent s s' \<and>
       pgdirs s' = insert pd (pgdirs s) \<and> pool (pgdirs s') s' = pool (pgdirs s) s \<and>
       (\<forall>pd'\<in>pgdirs s. \<forall>va<UTOP. look s' pd' va = look s pd' va) \<and> (\<forall>va<UTOP. look s' pd va = None))"
proof -
  obtain efl0 where ei0: "envs_inv efl0 s" using inv by (auto simp: k_inv_def)
  show ?thesis
  proof (cases efl0)
    case Nil
    then have "env_free_list s = None" using ei0 by (simp add: envs_inv_def)
    then show ?thesis by (simp add: env_alloc_def)
  next
    case (Cons e efl)
    then have ei: "envs_inv (e # efl) s" using ei0 by simp
    then have hd: "env_free_list s = Some e" and e: "e < NENV" "env_status (envs s e) = ENV_FREE"
      unfolding envs_inv_def by auto
    from env_setup_vm_spec [OF k_inv_ok [OF inv], of e] show ?thesis
    proof
      assume "env_setup_vm e s = Inr (- E_NO_MEM, s) \<and> page_free_list s = None"
      then show ?thesis using hd by (simp add: env_alloc_def E_NO_MEM_def)
    next
      assume "\<exists>s' pd. env_setup_vm e s = Inr (0, s') \<and> pd \<in> free_set s \<and> pd \<notin> pgdirs s \<and>
        vm_ok (insert pd (pgdirs s)) s' \<and> pool (insert pd (pgdirs s)) s' = pool (pgdirs s) s \<and> fresh_dir e pd s s' \<and>
        (\<forall>pd'\<in>pgdirs s. \<forall>va<UTOP. look s' pd' va = look s pd' va) \<and> (\<forall>va<UTOP. look s' pd va = None)"
      then obtain s1 pd where s1: "env_setup_vm e s = Inr (0, s1)" "pd \<in> free_set s" "pd \<notin> pgdirs s"
        "vm_ok (insert pd (pgdirs s)) s1" "pool (insert pd (pgdirs s)) s1 = pool (pgdirs s) s" "fresh_dir e pd s s1"
        "\<forall>pd'\<in>pgdirs s. \<forall>va<UTOP. look s1 pd' va = look s pd' va" "\<forall>va<UTOP. look s1 pd va = None" by blast
      define s2 where "s2 = set_env e (\<lambda>v. v\<lparr>env_id := new_envid e (env_id v), env_parent_id := parent,
        env_type := ENV_TYPE_USER, env_status := ENV_RUNNABLE, env_runs := 0, env_tf := init_tf,
        env_pgfault_upcall := 0, env_ipc_recving := False\<rparr>) s1"
      define s' where "s' = s2\<lparr>env_free_list := env_link (envs s2 e)\<rparr>"
      have run: "env_alloc parent s = Inr ((0, Some e), s')"
        using hd s1(1) by (simp add: env_alloc_def s'_def s2_def Let_def)
      have cr: "created_env e pd parent s s'"
        using s1(6) by (simp add: created_env_def fresh_dir_def s'_def s2_def new_env_def)
      have eq: "pmem s' = pmem s1" "npages s' = npages s1" "pages s' = pages s1"
        "page_free_list s' = page_free_list s1" "uninit s' = uninit s1" by (simp_all add: s'_def s2_def)
      note c = vm_ok_cong [OF eq]
      note ci = created_env_inv [OF ei cr s1(3)]
      have "k_inv s'" unfolding k_inv_def ci(2) c(1) using s1(4) ci(1) by blast
      moreover have "pool (pgdirs s') s' = pool (pgdirs s) s" unfolding ci(2) c(3) by (rule s1(5))
      moreover have "\<not> live s e" using e(2) by (simp add: live_def)
      ultimately show ?thesis using run cr ci(2) hd e(1) s1(2,3,7,8) c(2) by auto
    qed
  qed
qed

end
