(* ===== verification/EnvProps.thy ===== *)
theory EnvProps
  imports KInv
begin

text \<open>
  Properties of \<open>kern/env.c\<close> and \<open>kern/sched.c\<close>: the initial free list of environments, their ids, their
  creation and destruction, and which environment the scheduler picks.
\<close>

section \<open>Initialisation\<close>

lemma env_init_steps:
  assumes "distinct xs" "set xs \<inter> set ys = {}" "chain (\<lambda>e. env_link (envs s e)) (env_free_list s) ys"
  defines "s' \<equiv> foldl env_init_step s xs"
  shows "chain (\<lambda>e. env_link (envs s' e)) (env_free_list s') (rev xs @ ys) \<and>
    (\<forall>x\<in>set xs. env_status (envs s' x) = ENV_FREE \<and> env_id (envs s' x) = 0) \<and>
    (\<forall>x. x \<notin> set xs \<longrightarrow> envs s' x = envs s x) \<and> same_mem s s'"
  using assms(1-3) unfolding s'_def
proof (induction xs arbitrary: s ys)
  case (Cons i xs)
  let ?s1 = "env_init_step s i"
  have "chain (\<lambda>e. env_link (envs ?s1 e)) (env_free_list s) ys"
  proof (rule chain_cong [THEN iffD1])
    show "chain (\<lambda>e. env_link (envs s e)) (env_free_list s) ys" by (fact Cons.prems(3))
    show "env_link (envs s x) = env_link (envs ?s1 x)" if "x \<in> set ys" for x
      using that Cons.prems(2) by (auto simp: env_init_step_def)
  qed
  then have "chain (\<lambda>e. env_link (envs ?s1 e)) (env_free_list ?s1) (i # ys)"
    by (simp add: env_init_step_def)
  moreover have "distinct xs" "set xs \<inter> set (i # ys) = {}" using Cons.prems by auto
  moreover have "same_mem s ?s1" by (simp add: env_init_step_def same_mem_def)
  moreover have "envs ?s1 x = envs s x" if "x \<noteq> i" for x using that by (simp add: env_init_step_def)
  moreover have "env_status (envs ?s1 i) = ENV_FREE" "env_id (envs ?s1 i) = 0" by (simp_all add: env_init_step_def)
  moreover have "i \<notin> set xs" using Cons.prems(1) by simp
  ultimately show ?case using Cons.IH [of "i # ys" ?s1] by (auto simp: same_mem_def)
qed simp

lemma env_init_spec:
  "envs_inv [0..<NENV] (env_init s)" "pgdirs (env_init s) = {}" "same_mem s (env_init s)"
proof -
  let ?s = "s\<lparr>env_free_list := None\<rparr>"
  have "chain (\<lambda>e. env_link (envs ?s e)) (env_free_list ?s) []" by simp
  from env_init_steps [of "rev [0..<NENV]" "[]" ?s, OF _ _ this, folded env_init_def]
  have *: "chain (\<lambda>e. env_link (envs (env_init s) e)) (env_free_list (env_init s)) [0..<NENV]"
    "\<forall>x<NENV. env_status (envs (env_init s) x) = ENV_FREE \<and> env_id (envs (env_init s) x) = 0"
    "same_mem ?s (env_init s)" by simp_all
  then have nl: "\<not> live (env_init s) x" for x by (auto simp: live_def)
  show "envs_inv [0..<NENV] (env_init s)" unfolding envs_inv_def using *(1,2) nl by auto
  show "pgdirs (env_init s) = {}" using nl by (simp add: pgdirs_def)
  show "same_mem s (env_init s)" using *(3) by (simp add: same_mem_def)
qed

lemma k_inv_env_init:
  assumes "vm_ok {} s" shows "k_inv (env_init s)"
  unfolding k_inv_def env_init_spec(2)
  using assms env_init_spec(1,3) vm_ok_cong(1) [of "env_init s" s "{}"] by (auto simp: same_mem_def)

text \<open>A machine at boot: sixteen pages, thirteen of them free, and no environments yet.\<close>

definition boot_env :: Env where
  "boot_env = \<lparr>env_tf = zero_tf, env_link = None, env_id = 0, env_parent_id = 0, env_type = ENV_TYPE_USER,
     env_status = ENV_FREE, env_runs = 0, env_cpunum = 0, env_pgdir = None, env_pgfault_upcall = 0,
     env_ipc_recving = False, env_ipc_dstva = 0, env_ipc_value = 0, env_ipc_from = 0, env_ipc_perm = 0\<rparr>"

definition boot_k :: kstate where
  "boot_k = \<lparr>npages = 16, npages_basemem = 16, kend = 0, kern_pgdir = 0,
     pages = (\<lambda>p. \<lparr>pp_link = (if 3 < p \<and> p < 16 then Some (p - 1) else None), pp_ref = 0\<rparr>),
     page_free_list = Some 15, pmem = (\<lambda>_ _. 0), tlb = {}, nextfree = 0, mmio_base = MMIOBASE,
     user_mem_check_addr = 0, uninit = 1, envs = (\<lambda>_. boot_env), env_free_list = None,
     cpus = (\<lambda>_. \<lparr>cpu_status = CPU_STARTED, cpu_env = None\<rparr>), cpunum = 0, cr3 = 0, kernel_lock = Some 0,
     ticks = 0, cons_buf = (\<lambda>_. 0), cons_rpos = 0, cons_wpos = 0, serial_in = [], kbd_in = [], kbd_shift = 0, cons_out = [], e1000 = (\<lambda>_. 0),
     tx_desc_buf = (\<lambda>_. \<lparr>td_buffer_addr = 0, td_length = 0, td_cmd = 0, td_status = 1\<rparr>),
     tx_data_buf = (\<lambda>_ _. 0)\<rparr>"

lemma boot_k_ok: "vm_ok {} boot_k"
proof -
  have "fl_inv [15, 14, 13, 12, 11, 10, 9, 8, 7, 6, 5, 4, 3] boot_k"
    unfolding fl_inv_def by (simp add: boot_k_def) arith
  then have "vm_inv {} [15, 14, 13, 12, 11, 10, 9, 8, 7, 6, 5, 4, 3] (\<lambda>_. 0) boot_k"
    by (rule vm_inv_boot) (simp add: boot_k_def)
  then show ?thesis unfolding vm_ok_def by (auto simp: boot_k_def)
qed

definition demo_k :: kstate where
  "demo_k = env_init boot_k"

lemma demo_k_inv: "k_inv demo_k"
  unfolding demo_k_def by (rule k_inv_env_init [OF boot_k_ok])

lemma demo_k_lists: "env_free_list demo_k = Some 0" "page_free_list demo_k = Some 15"
proof -
  have "0 < NENV" by (simp add: NENV_def)
  then have "[0..<NENV] = 0 # [Suc 0..<NENV]" by (rule upt_conv_Cons)
  then show "env_free_list demo_k = Some 0"
    using env_init_spec(1) [of boot_k] by (simp add: envs_inv_def demo_k_def)
  show "page_free_list demo_k = Some 15"
    using env_init_spec(3) [of boot_k] by (simp add: same_mem_def demo_k_def boot_k_def)
qed

text \<open>A machine with two environments: slot 0 is running on processor 0, its child in slot 1 is runnable.\<close>

definition duo_k :: kstate where
  "duo_k = boot_k\<lparr>pages := (\<lambda>p. \<lparr>pp_link = (if 6 < p \<and> p < 16 then Some (p - 1) else None),
        pp_ref = (if p = 4 \<or> p = 5 then 1 else 0)\<rparr>),
     envs := (\<lambda>e. if e = 0 then boot_env\<lparr>env_id := 0x1000, env_status := ENV_RUNNING, env_pgdir := Some 4\<rparr>
        else if e = 1 then boot_env\<lparr>env_id := 0x1001, env_parent_id := 0x1000, env_status := ENV_RUNNABLE,
          env_pgdir := Some 5\<rparr>
        else boot_env\<lparr>env_link := (if e + 1 < NENV then Some (e + 1) else None)\<rparr>),
     env_free_list := Some 2, cpus := (\<lambda>c. \<lparr>cpu_status = CPU_STARTED, cpu_env = (if c = 0 then Some 0 else None)\<rparr>),
     cr3 := 4\<rparr>"

lemma chain_upt:
  "k \<le> n \<Longrightarrow> (\<And>e. k \<le> e \<Longrightarrow> e < n \<Longrightarrow> link e = (if e + 1 < n then Some (e + 1) else None)) \<Longrightarrow>
   chain link (if k < n then Some k else None) [k..<n]"
proof (induction "n - k" arbitrary: k)
  case (Suc m)
  then have k: "k < n" by simp
  then have "[k..<n] = k # [Suc k..<n]" by (rule upt_conv_Cons)
  moreover have "chain link (if Suc k < n then Some (Suc k) else None) [Suc k..<n]"
    using Suc k by (intro Suc.hyps(1)) auto
  ultimately show ?case using k Suc.prems(2) [of k] by (cases "Suc k < n") simp_all
qed simp

lemma duo_k_live: "live duo_k e \<longleftrightarrow> e = 0 \<or> e = 1"
  by (simp add: live_def duo_k_def boot_env_def status_consts NENV_def)

lemma duo_k_pgdirs: "pgdirs duo_k = {4, 5}"
  unfolding pgdirs_def duo_k_live by (auto simp: duo_k_def)

lemma duo_k_vm: "vm_inv {4, 5} [15, 14, 13, 12, 11, 10, 9, 8, 7, 6] (\<lambda>_. 0) duo_k"
proof (rule vm_inv_fresh)
  show "fl_inv [15, 14, 13, 12, 11, 10, 9, 8, 7, 6] duo_k"
    unfolding fl_inv_def by (simp add: duo_k_def boot_k_def) arith
qed (simp_all add: duo_k_def boot_k_def pd_inv_def)

lemma duo_k_envs: "envs_inv [2..<NENV] duo_k"
proof -
  have "(2 :: nat) < NENV" by (simp add: NENV_def)
  then have "chain (\<lambda>e. env_link (envs duo_k e)) (env_free_list duo_k) [2..<NENV]"
    using chain_upt [of 2 NENV "\<lambda>e. env_link (envs duo_k e)"] by (simp add: duo_k_def)
  moreover have "\<forall>e. e \<in> set [2..<NENV] \<longleftrightarrow> e < NENV \<and> env_status (envs duo_k e) = ENV_FREE"
    by (auto simp: duo_k_def boot_env_def status_consts)
  moreover have "\<forall>e<NENV. unat (env_id (envs duo_k e)) < 0x80000000"
    by (simp add: duo_k_def boot_env_def)
  ultimately show ?thesis
    unfolding envs_inv_def duo_k_live by (auto simp: duo_k_def ENVX_def)
qed

lemma duo_k_inv: "k_inv duo_k"
  unfolding k_inv_def duo_k_pgdirs vm_ok_def using duo_k_vm duo_k_envs by (auto simp: duo_k_def boot_k_def)

section \<open>The scheduler\<close>

definition runnable :: "kstate \<Rightarrow> nat \<Rightarrow> bool" where
  "runnable s e \<longleftrightarrow> env_status (envs s e) = ENV_RUNNABLE"

definition round_robin :: "nat \<Rightarrow> nat \<Rightarrow> nat list" where
  "round_robin start n = map (\<lambda>k. (start + k) mod (NENV + 1)) [0..<n]"

lemma round_robin_Suc:
  assumes "idle \<le> NENV"
  shows "round_robin idle (Suc n) = idle # round_robin (if idle \<ge> NENV then 0 else idle + 1) n"
proof -
  have "[0..<Suc n] = 0 # map Suc [0..<n]" by (simp add: map_Suc_upt upt_conv_Cons)
  moreover have "(idle + Suc k) mod (NENV + 1) = ((if idle \<ge> NENV then 0 else idle + 1) + k) mod (NENV + 1)" for k
    using assms mod_add_self1 [of "NENV + 1" k] by (cases "idle = NENV") simp_all
  ultimately show ?thesis using assms by (simp add: round_robin_def)
qed

lemma sched_search_find:
  "idle \<le> NENV \<Longrightarrow> sched_search n idle s = List.find (runnable s) (round_robin idle n)"
proof (induction n arbitrary: idle)
  case 0
  then show ?case by (simp add: round_robin_def)
next
  case (Suc n)
  then show ?case unfolding round_robin_Suc [OF Suc.prems] by (simp add: runnable_def)
qed

lemma round_robin_all: "c < NENV \<Longrightarrow> set (round_robin (c + 1) NENV) = {0..NENV} - {c}"
proof -
  assume c: "c < NENV"
  have 1: "(c + 1 + k) mod (NENV + 1) \<noteq> c" if "k < NENV" for k
  proof
    assume "(c + 1 + k) mod (NENV + 1) = c"
    then have "(c + 1 + k) mod (NENV + 1) = c mod (NENV + 1)" using c by simp
    then have "NENV + 1 dvd (c + 1 + k) - c" by (metis add.assoc le_add1 mod_eq_dvd_iff_nat)
    then have "NENV + 1 dvd k + 1" by (simp add: add.commute)
    then show False using that by (auto dest: dvd_imp_le)
  qed
  have 2: "\<exists>k<NENV. x = (c + 1 + k) mod (NENV + 1)" if "x \<le> NENV" "x \<noteq> c" for x
  proof (cases "c < x")
    case True
    then show ?thesis using that by (intro exI [of _ "x - c - 1"]) auto
  next
    case False
    have "(c + 1 + (NENV - c + x)) = x + (NENV + 1)" using c by simp
    moreover have "(x + (NENV + 1)) mod (NENV + 1) = x" using that by (simp only: mod_add_self2) simp
    ultimately have "(c + 1 + (NENV - c + x)) mod (NENV + 1) = x" by (simp only:)
    then show ?thesis using that c False by (intro exI [of _ "NENV - c + x"]) auto
  qed
  show ?thesis
  proof (intro equalityI subsetI)
    fix x assume "x \<in> set (round_robin (c + 1) NENV)"
    then obtain k where "k < NENV" "x = (c + 1 + k) mod (NENV + 1)" unfolding round_robin_def by auto
    then show "x \<in> {0..NENV} - {c}" using 1 by (simp add: less_Suc_eq_le [symmetric])
  next
    fix x assume "x \<in> {0..NENV} - {c}"
    then obtain k where "k < NENV" "x = (c + 1 + k) mod (NENV + 1)" using 2 by auto
    then show "x \<in> set (round_robin (c + 1) NENV)" unfolding round_robin_def by auto
  qed
qed

lemma round_robin_split:
  assumes "c < NENV" shows "round_robin (c + 1) NENV = [c + 1..<NENV] @ [NENV] @ [0..<c]"
proof (rule nth_equalityI)
  show "length (round_robin (c + 1) NENV) = length ([c + 1..<NENV] @ [NENV] @ [0..<c])"
    using assms by (simp add: round_robin_def)
  fix k assume "k < length (round_robin (c + 1) NENV)"
  then have k: "k < NENV" by (simp add: round_robin_def)
  then have l: "round_robin (c + 1) NENV ! k = (c + 1 + k) mod (NENV + 1)" by (simp add: round_robin_def)
  consider "k < NENV - (c + 1)" | "k = NENV - (c + 1)" | "NENV - c \<le> k" by linarith
  then show "round_robin (c + 1) NENV ! k = ([c + 1..<NENV] @ [NENV] @ [0..<c]) ! k"
  proof cases
    case 3
    then have "c + 1 + k = (k - (NENV - c)) + (NENV + 1)" using assms by simp
    then have "(c + 1 + k) mod (NENV + 1) = k - (NENV - c)" using k by (simp only: mod_add_self2) simp
    then show ?thesis using 3 k assms unfolding l by (auto simp: nth_append)
  qed (use assms l in \<open>auto simp: nth_append\<close>)
qed

lemma find_append: "List.find P (xs @ ys) = (case List.find P xs of None \<Rightarrow> List.find P ys | Some x \<Rightarrow> Some x)"
  by (induction xs) auto

lemma find_SomeD: "List.find P xs = Some x \<Longrightarrow> P x \<and> x \<in> set xs"
  by (induction xs) (auto split: if_splits)

lemma round_robin_none: "set (round_robin 0 NENV) = {0..<NENV}"
  unfolding round_robin_def by auto

lemma env_run_spec:
  assumes inv: "k_inv s" and e: "live s e" and lock: "kernel_lock s = Some (cpunum s)" and c: "curenv s \<noteq> Some e"
  shows "\<exists>s'. env_run e s = Inl (Running e, s') \<and> k_inv s' \<and> curenv s' = Some e \<and> kernel_lock s' = None \<and>
    env_status (envs s' e) = ENV_RUNNING \<and> Some (cr3 s') = env_pgdir (envs s e) \<and> tlb s' = {} \<and>
    env_tf (envs s' e) = env_tf (envs s e) \<and> env_runs (envs s' e) = env_runs (envs s e) + 1 \<and>
    (\<forall>x. curenv s \<noteq> Some x \<longrightarrow> x \<noteq> e \<longrightarrow> envs s' x = envs s x) \<and> cpunum s' = cpunum s \<and>
    (\<forall>k. k \<noteq> cpunum s \<longrightarrow> cpus s' k = cpus s k)"
proof -
  have "env_status (envs s e) \<noteq> ENV_FREE" using e by (simp add: live_def)
  note ki = k_inv_env_run [OF inv this]
  obtain pd where pd: "env_pgdir (envs s e) = Some pd" using k_inv_pgdir [OF inv e] by blast
  have "\<exists>s'. env_run e s = Inl (Running e, s') \<and> curenv s' = Some e \<and> kernel_lock s' = None \<and>
    env_status (envs s' e) = ENV_RUNNING \<and> Some (cr3 s') = env_pgdir (envs s e) \<and> tlb s' = {} \<and>
    env_tf (envs s' e) = env_tf (envs s e) \<and> env_runs (envs s' e) = env_runs (envs s e) + 1 \<and>
    (\<forall>x. curenv s \<noteq> Some x \<longrightarrow> x \<noteq> e \<longrightarrow> envs s' x = envs s x) \<and> cpunum s' = cpunum s \<and>
    (\<forall>k. k \<noteq> cpunum s \<longrightarrow> cpus s' k = cpus s k)"
    using c pd lock
    by (cases "curenv s") (auto simp: env_run_def env_pop_tf_def PADDR_def unlock_kernel_def deref_def curenv_def
        set_curenv_def lcr3_def set_env_def Let_def)
  then show ?thesis using ki by auto
qed

lemma sched_yield_picks:
  assumes "k_inv s" "kernel_lock s = Some (cpunum s)" "curenv s = Some c" "c < NENV"
    and "env_status (envs s NENV) \<noteq> ENV_RUNNABLE" "e' < NENV" "e' \<noteq> c" "env_status (envs s e') = ENV_RUNNABLE"
  shows "\<exists>e s'. sched_yield s = Inl (Running e, s') \<and> k_inv s' \<and> e < NENV \<and> e \<noteq> c \<and>
    List.find (\<lambda>e. env_status (envs s e) = ENV_RUNNABLE) ([c + 1..<NENV] @ [0..<c]) = Some e \<and>
    env_status (envs s' e) = ENV_RUNNING \<and> curenv s' = Some e \<and> kernel_lock s' = None \<and>
    Some (cr3 s') = env_pgdir (envs s e) \<and> cpunum s' = cpunum s \<and>
    (\<forall>k. k \<noteq> cpunum s \<longrightarrow> cpus s' k = cpus s k)"
proof -
  let ?P = "\<lambda>e. env_status (envs s e) = ENV_RUNNABLE"
  have split: "round_robin (c + 1) NENV = [c + 1..<NENV] @ [NENV] @ [0..<c]"
    by (rule round_robin_split [OF assms(4)])
  have "List.find ?P ([c + 1..<NENV] @ [NENV] @ [0..<c]) = List.find ?P ([c + 1..<NENV] @ [0..<c])"
    using assms(5) by (simp add: find_append split: option.split)
  moreover have "e' \<in> set ([c + 1..<NENV] @ [0..<c])" using assms(6,7) by auto
  then have "List.find ?P ([c + 1..<NENV] @ [0..<c]) \<noteq> None" using assms(8) unfolding find_None_iff by blast
  then obtain e where e: "List.find ?P ([c + 1..<NENV] @ [0..<c]) = Some e" by blast
  moreover have P: "runnable s = ?P" by (simp add: runnable_def fun_eq_iff)
  ultimately have "sched_search 1024 (c + 1) s = Some e"
    using sched_search_find [of "c + 1" NENV s] assms(4) split by (simp add: NENV_def)
  then have run: "sched_yield s = env_run e s" using assms(3) by (simp add: sched_yield_def)
  have in': "?P e" "e \<in> set ([c + 1..<NENV] @ [0..<c])" using find_SomeD [OF e] by blast+
  then have "e < NENV" "e \<noteq> c" using assms(4) by auto
  moreover from this in'(1) have "live s e" "curenv s \<noteq> Some e" using assms(3) by (simp_all add: live_def status_consts)
  from env_run_spec [OF assms(1) this(1) assms(2) this(2)] obtain s' where
    "env_run e s = Inl (Running e, s')" "k_inv s'" "curenv s' = Some e" "kernel_lock s' = None"
    "env_status (envs s' e) = ENV_RUNNING" "Some (cr3 s') = env_pgdir (envs s e)" "cpunum s' = cpunum s"
    "\<forall>k. k \<noteq> cpunum s \<longrightarrow> cpus s' k = cpus s k" by blast
  ultimately show ?thesis using run e by auto
qed

lemma ENVX_lt: "ENVX envid < NENV"
  by (simp add: ENVX_mod NENV_def)

lemma envid2env_run:
  assumes "curenv s = Some c" "envid \<noteq> 0"
  shows "envid2env envid checkperm s =
    (if \<not> live s (ENVX envid) \<or> env_id (envs s (ENVX envid)) \<noteq> envid then Inr ((- E_BAD_ENV, None), s)
     else if checkperm \<and> ENVX envid \<noteq> c \<and> env_parent_id (envs s (ENVX envid)) \<noteq> env_id (envs s c)
     then Inr ((- E_BAD_ENV, None), s) else Inr ((0, Some (ENVX envid)), s))"
proof -
  have "live s (ENVX envid) \<longleftrightarrow> env_status (envs s (ENVX envid)) \<noteq> ENV_FREE" by (simp add: live_def ENVX_lt)
  then show ?thesis using assms by (simp add: envid2env_def deref_def Let_def)
qed

section \<open>Properties\<close>

text \<open>
  C34. \<open>env_alloc\<close> on a consistent kernel either fails without any effect, with \<open>-E_NO_FREE_ENV\<close> only if
  no slot is free and with \<open>-E_NO_MEM\<close> only if no page is free, or it turns the first free slot
  into a runnable environment: its id is positive, names the slot and differs from the slot's
  previous id, its registers are the initial ones, and its address space is empty and private.
  No other environment and no other address space changes, and the invariant holds again.
\<close>

theorem env_alloc_correct:
  assumes "k_inv s"
  shows "env_alloc parent s = Inr ((- E_NO_FREE_ENV, None), s) \<and> env_free_list s = None \<or>
    env_alloc parent s = Inr ((- E_NO_MEM, None), s) \<and> page_free_list s = None \<or>
    (\<exists>e pd s'. env_free_list s = Some e \<and> env_alloc parent s = Inr ((0, Some e), s') \<and> k_inv s' \<and>
       ENVX (env_id (envs s' e)) = e \<and> 0 < sint (env_id (envs s' e)) \<and> env_id (envs s' e) \<noteq> env_id (envs s e) \<and>
       env_parent_id (envs s' e) = parent \<and> env_status (envs s' e) = ENV_RUNNABLE \<and>
       env_tf (envs s' e) = init_tf \<and> env_pgdir (envs s' e) = Some pd \<and> pd \<notin> pgdirs s \<and>
       (\<forall>x. x \<noteq> e \<longrightarrow> envs s' x = envs s x) \<and> (\<forall>va<UTOP. look s' pd va = None) \<and>
       (\<forall>pd'\<in>pgdirs s. \<forall>va<UTOP. look s' pd' va = look s pd' va))"
proof -
  from env_alloc_spec [OF assms, of parent] consider
      "env_alloc parent s = Inr ((- E_NO_FREE_ENV, None), s) \<and> env_free_list s = None"
    | "env_alloc parent s = Inr ((- E_NO_MEM, None), s) \<and> page_free_list s = None"
    | e pd s' where "env_free_list s = Some e" "e < NENV" "pd \<notin> pgdirs s"
        "env_alloc parent s = Inr ((0, Some e), s')" "k_inv s'" "created_env e pd parent s s'"
        "\<forall>pd'\<in>pgdirs s. \<forall>va<UTOP. look s' pd' va = look s pd' va" "\<forall>va<UTOP. look s' pd va = None" by blast
  then show ?thesis
  proof cases
    case 3
    obtain efl where "envs_inv efl s" using assms by (auto simp: k_inv_def)
    then have "unat (env_id (envs s e)) < 0x80000000" using 3(2) by (simp add: envs_inv_def)
    moreover have "e < 1024" using 3(2) by (simp add: NENV_def)
    ultimately have "ENVX (env_id (envs s' e)) = e" "0 < sint (env_id (envs s' e))" "env_id (envs s' e) \<noteq> env_id (envs s e)"
      using new_envid_ok [of e "env_id (envs s e)"] 3(6) by (simp_all add: created_env_def new_env_def)
    moreover have "env_parent_id (envs s' e) = parent" "env_status (envs s' e) = ENV_RUNNABLE"
      "env_tf (envs s' e) = init_tf" "env_pgdir (envs s' e) = Some pd" "\<forall>x. x \<noteq> e \<longrightarrow> envs s' x = envs s x"
      using 3(6) by (simp_all add: created_env_def new_env_def)
    ultimately show ?thesis using 3(1,3,4,5,7,8) by blast
  qed blast+
qed

theorem env_alloc_correct_witness:
  "\<exists>s' pd. env_alloc 0 demo_k = Inr ((0, Some 0), s') \<and> k_inv s' \<and> env_status (envs s' 0) = ENV_RUNNABLE \<and>
     env_pgdir (envs s' 0) = Some pd \<and> (\<forall>va<UTOP. look s' pd va = None)"
  using env_alloc_correct [OF demo_k_inv, of 0] demo_k_lists by auto

text \<open>
  C35. \<open>env_free\<close> on a live environment of a consistent kernel always succeeds. The environment's page
  directory, all its page tables and every page that was mapped only there are free afterwards: the
  set of pages the system accounts for (free, directories, tables, mapped) is the same and the
  directory is free. All other environments and address spaces are unchanged, the slot is at the head
  of the free list, and the invariant holds again.
\<close>

theorem env_free_correct:
  assumes "k_inv s" "live s e"
  shows "\<exists>s' pd. env_free e s = Inr ((), s') \<and> k_inv s' \<and> env_pgdir (envs s e) = Some pd \<and>
    pgdirs s' = pgdirs s - {pd} \<and> pool (pgdirs s') s' = pool (pgdirs s) s \<and> pd \<in> free_set s' \<and>
    env_free_list s' = Some e \<and> env_status (envs s' e) = ENV_FREE \<and> env_link (envs s' e) = env_free_list s \<and>
    (\<forall>x. x \<noteq> e \<longrightarrow> envs s' x = envs s x) \<and>
    (\<forall>pd'\<in>pgdirs s'. \<forall>va<UTOP. look s' pd' va = look s pd' va)"
proof -
  obtain s' pd where s': "env_free e s = Inr ((), s')" "k_inv s'" "freed_env e s s'" "env_pgdir (envs s e) = Some pd"
      "pd \<in> free_set s'" "pgdirs s' = pgdirs s - {pd}" "pool (pgdirs s') s' = pool (pgdirs s) s"
      "\<forall>pd'\<in>pgdirs s'. \<forall>va<UTOP. look s' pd' va = look s pd' va"
    using k_inv_env_free [OF assms] by blast
  have "env_free_list s' = Some e" "env_status (envs s' e) = ENV_FREE" "env_link (envs s' e) = env_free_list s"
    "\<forall>x. x \<noteq> e \<longrightarrow> envs s' x = envs s x" using s'(3) by (simp_all add: freed_env_def)
  then show ?thesis using s' by blast
qed

lemma demo_k_env:
  obtains s1 pd where "env_alloc 0 demo_k = Inr ((0, Some 0), s1)" "k_inv s1" "live s1 0" "created_env 0 pd 0 demo_k s1"
proof -
  from env_alloc_spec [OF demo_k_inv, of 0] demo_k_lists obtain pd s1 where
    s1: "0 < NENV" "env_alloc 0 demo_k = Inr ((0, Some 0), s1)" "k_inv s1" "created_env 0 pd 0 demo_k s1" by auto
  moreover have "live s1 0" using created_env_live [OF s1(4,1)] by simp
  ultimately show thesis using that by blast
qed

theorem env_free_correct_witness:
  "\<exists>s1 s2. env_alloc 0 demo_k = Inr ((0, Some 0), s1) \<and> env_free 0 s1 = Inr ((), s2) \<and> k_inv s2 \<and>
     env_free_list s2 = Some 0 \<and> env_status (envs s2 0) = ENV_FREE"
proof -
  obtain s1 pd where s1: "env_alloc 0 demo_k = Inr ((0, Some 0), s1)" "k_inv s1" "live s1 0"
    "created_env 0 pd 0 demo_k s1" by (rule demo_k_env)
  from env_free_correct [OF s1(2,3)] s1(1) show ?thesis by blast
qed

text \<open>
  C37. The scheduler examines the slots in circular order from the one after the current environment and
  picks the first runnable one. Because the index wraps only after \<open>envs + NENV\<close> itself has been
  looked at, the circle has \<open>NENV + 1\<close> slots, the last of which is not part of the array.
\<close>

theorem sched_search_round_robin:
  assumes "idle \<le> NENV"
  shows "sched_search n idle s =
    List.find (\<lambda>e. env_status (envs s e) = ENV_RUNNABLE) (map (\<lambda>k. (idle + k) mod (NENV + 1)) [0..<n])"
proof -
  have "runnable s = (\<lambda>e. env_status (envs s e) = ENV_RUNNABLE)" by (simp add: runnable_def fun_eq_iff)
  with sched_search_find [OF assms] show ?thesis by (simp add: round_robin_def)
qed

theorem sched_search_round_robin_witness:
  "sched_search 3 1023 demo_k =
    List.find (\<lambda>e. env_status (envs demo_k e) = ENV_RUNNABLE) [1023, 1024, 0]"
proof -
  have "[0..<3] = [0, 1, 2 :: nat]" by (simp add: upt_rec)
  with sched_search_round_robin [of 1023 3 demo_k] show ?thesis by (simp add: NENV_def)
qed

text \<open>
  C36. If some other environment is runnable, \<open>sched_yield\<close>, called with the kernel lock held on a consistent
  kernel, does switch: it runs the first runnable environment in circular order after the current
  one, which becomes the current environment of the processor and is marked running, with its own
  page directory loaded and the lock released. (The memory behind the array must not look like a
  runnable environment.)
\<close>

theorem sched_yield_correct:
  assumes "k_inv s" "kernel_lock s = Some (cpunum s)" "curenv s = Some c" "c < NENV"
    and "env_status (envs s NENV) \<noteq> ENV_RUNNABLE" "e' < NENV" "e' \<noteq> c" "env_status (envs s e') = ENV_RUNNABLE"
  shows "\<exists>e s'. sched_yield s = Inl (Running e, s') \<and> k_inv s' \<and> e < NENV \<and> e \<noteq> c \<and>
    List.find (\<lambda>e. env_status (envs s e) = ENV_RUNNABLE) ([c + 1..<NENV] @ [0..<c]) = Some e \<and>
    env_status (envs s' e) = ENV_RUNNING \<and> curenv s' = Some e \<and> kernel_lock s' = None \<and>
    Some (cr3 s') = env_pgdir (envs s e)"
  using sched_yield_picks [OF assms] by blast

theorem sched_yield_correct_witness:
  "\<exists>s'. sched_yield duo_k = Inl (Running 1, s') \<and> k_inv s' \<and> curenv s' = Some 1 \<and> kernel_lock s' = None"
proof -
  have n: "Suc 0 < NENV" "0 < NENV" by (simp_all add: NENV_def)
  have lock: "kernel_lock duo_k = Some (cpunum duo_k)" and cur: "curenv duo_k = Some 0"
    by (simp_all add: duo_k_def boot_k_def curenv_def)
  have "env_status (envs duo_k NENV) \<noteq> ENV_RUNNABLE" and one: "env_status (envs duo_k (Suc 0)) = ENV_RUNNABLE"
    using n by (simp_all add: duo_k_def boot_env_def status_consts)
  from sched_yield_correct [OF duo_k_inv lock cur n(2) this(1) n(1) _ one] one show ?thesis
    by (auto simp: upt_conv_Cons [OF n(1)] simp del: upt_Suc)
qed

text \<open>
  The scheduler reads one slot past the end of the environment array. If the current environment sits
  in the last slot and the memory behind the array happens to hold the value of \<open>ENV_RUNNABLE\<close> in
  the place of the status, \<open>sched_yield\<close> runs whatever is stored there as an environment.
\<close>

theorem sched_yield_out_of_bounds:
  assumes "curenv s = Some (NENV - 1)" "env_status (envs s NENV) = ENV_RUNNABLE"
  shows "sched_yield s = env_run NENV s"
proof -
  have "sched_search 1024 (NENV - 1 + 1) s = Some NENV"
    using assms(2) sched_search.simps(2) [of 1023] by (simp add: NENV_def)
  then show ?thesis using assms(1) by (simp add: sched_yield_def)
qed

theorem sched_yield_out_of_bounds_witness:
  "\<exists>s. curenv s = Some 1023 \<and> sched_yield s = env_run NENV s"
proof -
  let ?s = "set_env NENV (\<lambda>v. v\<lparr>env_status := ENV_RUNNABLE\<rparr>) (set_curenv (Some 1023) duo_k)"
  have "curenv ?s = Some (NENV - 1)" by (simp add: curenv_def set_curenv_def set_env_def NENV_def)
  with sched_yield_out_of_bounds [of ?s] show ?thesis by (intro exI [of _ ?s]) (simp add: NENV_def)
qed

text \<open>
  C38. \<open>envid2env\<close> with a current environment never stops and changes nothing. For a non-zero id it
  succeeds exactly if a live environment has that id and, when permission is asked for, is the
  current environment or one of its children; the environment found is the only live one with
  this id. In every other case it returns \<open>-E_BAD_ENV\<close> and a null pointer.
\<close>

theorem envid2env_correct:
  assumes "k_inv s" "curenv s = Some c" "envid \<noteq> 0"
  shows "(\<exists>e. envid2env envid checkperm s = Inr ((0, Some e), s) \<and> live s e \<and> env_id (envs s e) = envid \<and>
      (\<forall>x. live s x \<longrightarrow> env_id (envs s x) = envid \<longrightarrow> x = e) \<and>
      (checkperm \<longrightarrow> e = c \<or> env_parent_id (envs s e) = env_id (envs s c))) \<or>
    (envid2env envid checkperm s = Inr ((- E_BAD_ENV, None), s) \<and>
      (\<forall>e. live s e \<longrightarrow> env_id (envs s e) = envid \<longrightarrow>
         checkperm \<and> e \<noteq> c \<and> env_parent_id (envs s e) \<noteq> env_id (envs s c)))"
proof -
  obtain efl where ei: "envs_inv efl s" using assms(1) by (auto simp: k_inv_def)
  have slot: "x = ENVX envid" if "live s x" "env_id (envs s x) = envid" for x
    using envs_inv_live(2) [OF ei that(1)] that(2) by simp
  let ?e = "ENVX envid"
  note run = envid2env_run [OF assms(2,3), of checkperm]
  show ?thesis
  proof (cases "live s ?e \<and> env_id (envs s ?e) = envid \<and>
      \<not> (checkperm \<and> ?e \<noteq> c \<and> env_parent_id (envs s ?e) \<noteq> env_id (envs s c))")
    case True
    then have "envid2env envid checkperm s = Inr ((0, Some ?e), s)" unfolding run by simp
    then show ?thesis using True slot by blast
  next
    case False
    then have "envid2env envid checkperm s = Inr ((- E_BAD_ENV, None), s)" unfolding run by auto
    moreover have "checkperm \<and> e \<noteq> c \<and> env_parent_id (envs s e) \<noteq> env_id (envs s c)"
      if "live s e" "env_id (envs s e) = envid" for e
      using slot [OF that] that False by blast
    ultimately show ?thesis by blast
  qed
qed

theorem envid2env_correct_witness:
  "(\<exists>e. envid2env 0x1001 True duo_k = Inr ((0, Some e), duo_k) \<and> live duo_k e) \<and>
   envid2env 0x2001 True duo_k = Inr ((- E_BAD_ENV, None), duo_k)"
proof -
  have c: "curenv duo_k = Some 0" by (simp add: curenv_def duo_k_def boot_k_def)
  have "live duo_k 1" "env_id (envs duo_k 1) = 0x1001" "env_parent_id (envs duo_k 1) = env_id (envs duo_k 0)"
    unfolding duo_k_live by (simp_all add: duo_k_def)
  with envid2env_correct [OF duo_k_inv c, of "0x1001" True]
  have "\<exists>e. envid2env 0x1001 True duo_k = Inr ((0, Some e), duo_k) \<and> live duo_k e" by auto
  moreover have "\<not> (live duo_k e \<and> env_id (envs duo_k e) = 0x2001)" for e
    unfolding duo_k_live by (auto simp: duo_k_def)
  ultimately show ?thesis using envid2env_correct [OF duo_k_inv c, of "0x2001" True] by auto
qed

text \<open>
  C39. Ids are not reused at once: after an environment has been freed and its slot allocated again, looking
  up the old id fails with \<open>-E_BAD_ENV\<close>.
\<close>

theorem stale_envid:
  assumes "k_inv s" "live s e" "env_free e s = Inr ((), s1)" "env_alloc parent s1 = Inr ((0, Some e'), s2)"
  shows "e' = e \<and> envid2env (env_id (envs s e)) checkperm s2 = Inr ((- E_BAD_ENV, None), s2)"
proof -
  from k_inv_env_free [OF assms(1,2)] assms(3) have s1: "k_inv s1" "freed_env e s s1" by auto
  then have hd: "env_free_list s1 = Some e" "env_id (envs s1 e) = env_id (envs s e)" by (simp_all add: freed_env_def)
  from env_alloc_spec [OF s1(1), of parent] assms(4) hd obtain pd where
    cr: "e' = e" "created_env e pd parent s1 s2" by (auto simp: E_NO_MEM_def E_NO_FREE_ENV_def)
  obtain efl where "envs_inv efl s" using assms(1) by (auto simp: k_inv_def)
  note id = envs_inv_live [OF this assms(2)] and ei = this
  have "e < NENV" using assms(2) by (simp add: live_def)
  then have "e < 1024" "unat (env_id (envs s e)) < 0x80000000" using ei by (simp_all add: envs_inv_def NENV_def)
  from new_envid_ok(3) [OF this] have "env_id (envs s2 e) \<noteq> env_id (envs s e)"
    using cr(2) hd(2) by (simp add: created_env_def new_env_def)
  then show ?thesis using cr(1) id(2,3) by (simp add: envid2env_def)
qed

theorem stale_envid_witness:
  "\<exists>s1 s2. env_free 1 duo_k = Inr ((), s1) \<and> env_alloc 0 s1 = Inr ((0, Some 1), s2) \<and>
     envid2env 0x1001 False s2 = Inr ((- E_BAD_ENV, None), s2)"
proof -
  have l: "live duo_k 1" "env_id (envs duo_k 1) = 0x1001" unfolding duo_k_live by (simp_all add: duo_k_def)
  obtain s1 pd where s1: "env_free 1 duo_k = Inr ((), s1)" "k_inv s1" "freed_env 1 duo_k s1" "pd \<in> free_set s1"
    using k_inv_env_free [OF duo_k_inv l(1)] by blast
  have "page_free_list s1 \<noteq> None"
  proof
    assume "page_free_list s1 = None"
    moreover obtain fl where "fl_inv fl s1" "pd \<in> set fl" using s1(4) unfolding free_set_def by blast
    ultimately show False by (simp add: fl_inv_def)
  qed
  moreover have "env_free_list s1 \<noteq> None" using s1(3) by (simp add: freed_env_def)
  ultimately obtain e s2 where s2: "env_alloc 0 s1 = Inr ((0, Some e), s2)"
    using env_alloc_spec [OF s1(2), of 0] by auto
  from stale_envid [OF duo_k_inv l(1) s1(1) s2, of False] s1(1) s2 l(2) show ?thesis by auto
qed

text \<open>
  Destroying an environment that runs on another processor only marks it dying, but destroying it once
  more, while the other processor still runs it, frees it at once: its page directory is on the
  free list although it is loaded there, and the slot can be allocated again.
\<close>

theorem env_destroy_twice:
  assumes "k_inv s" "live s e" "env_status (envs s e) = ENV_RUNNING" "curenv s \<noteq> Some e"
  shows "\<exists>s1 s2 pd. env_destroy e s = Inr ((), s1) \<and> env_status (envs s1 e) = ENV_DYING \<and>
    env_destroy e s1 = Inr ((), s2) \<and> cpus s2 = cpus s \<and> env_status (envs s2 e) = ENV_FREE \<and>
    env_free_list s2 = Some e \<and> env_pgdir (envs s e) = Some pd \<and> pd \<in> free_set s2"
proof -
  let ?s1 = "set_env e (\<lambda>v. v\<lparr>env_status := ENV_DYING\<rparr>) s"
  have d: "env_destroy e s = Inr ((), ?s1)" using assms(3,4) by (simp add: env_destroy_def)
  have inv1: "k_inv ?s1"
    using assms(1,3) by (intro k_inv_set_env) (simp_all add: same_env_def status_consts)
  have "live ?s1 e" using assms(2) by (simp add: live_def status_consts)
  from k_inv_env_free [OF inv1 this] obtain s2 pd where
    s2: "env_free e ?s1 = Inr ((), s2)" "freed_env e ?s1 s2" "pd \<in> free_set s2" "env_pgdir (envs ?s1 e) = Some pd"
    by blast
  have c: "curenv s2 = curenv s" using s2(2) by (simp add: freed_env_def curenv_def)
  have "env_destroy e ?s1 = Inr ((), s2)"
    using s2(1) assms(4) c by (simp add: env_destroy_def status_consts)
  then show ?thesis using d s2 by (auto simp: freed_env_def)
qed

theorem env_destroy_twice_witness:
  "\<exists>s s1 s2. cpu_env (cpus s 1) = Some 1 \<and> env_destroy 1 s = Inr ((), s1) \<and> env_destroy 1 s1 = Inr ((), s2) \<and>
     cpu_env (cpus s2 1) = Some 1 \<and> env_status (envs s2 1) = ENV_FREE"
proof -
  let ?s = "set_env 1 (\<lambda>v. v\<lparr>env_status := ENV_RUNNING\<rparr>)
    (duo_k\<lparr>cpus := (cpus duo_k)(1 := \<lparr>cpu_status = CPU_STARTED, cpu_env = Some 1\<rparr>)\<rparr>)"
  have "k_inv ?s"
    by (intro k_inv_set_env k_inv_cpus duo_k_inv) (simp add: same_env_def duo_k_def status_consts)
  moreover have "live ?s 1" "env_status (envs ?s 1) = ENV_RUNNING" "curenv ?s \<noteq> Some 1"
    by (simp_all add: live_def status_consts NENV_def curenv_def) (simp add: duo_k_def boot_k_def)
  ultimately obtain s1 s2 where "env_destroy 1 ?s = Inr ((), s1)" "env_destroy 1 s1 = Inr ((), s2)" "cpus s2 = cpus ?s"
    "env_status (envs s2 1) = ENV_FREE"
    using env_destroy_twice [of ?s 1] by blast
  then show ?thesis by (intro exI [of _ ?s] exI [of _ s1] exI [of _ s2]) simp
qed

end
