(* ===== verification/Console.thy ===== *)
theory Console
  imports Prelude
begin

text \<open>
  The devices of \<open>kern/console.c\<close>: the keyboard tables and the decoding of scan codes, and the text
  display with scrolling.
\<close>

section \<open>Keyboard\<close>

definition SHIFT :: "32 word" where [jos_consts]: "SHIFT = 1"
definition CTL :: "32 word" where [jos_consts]: "CTL = 2"
definition ALT :: "32 word" where [jos_consts]: "ALT = 4"
definition CAPSLOCK :: "32 word" where [jos_consts]: "CAPSLOCK = 8"
definition NUMLOCK :: "32 word" where [jos_consts]: "NUMLOCK = 16"
definition SCROLLLOCK :: "32 word" where [jos_consts]: "SCROLLLOCK = 32"
definition E0ESC :: "32 word" where [jos_consts]: "E0ESC = 64"

definition KEY_HOME :: "8 word" where [jos_consts]: "KEY_HOME = 0xE0"
definition KEY_END :: "8 word" where [jos_consts]: "KEY_END = 0xE1"
definition KEY_UP :: "8 word" where [jos_consts]: "KEY_UP = 0xE2"
definition KEY_DN :: "8 word" where [jos_consts]: "KEY_DN = 0xE3"
definition KEY_LF :: "8 word" where [jos_consts]: "KEY_LF = 0xE4"
definition KEY_RT :: "8 word" where [jos_consts]: "KEY_RT = 0xE5"
definition KEY_PGUP :: "8 word" where [jos_consts]: "KEY_PGUP = 0xE6"
definition KEY_PGDN :: "8 word" where [jos_consts]: "KEY_PGDN = 0xE7"
definition KEY_INS :: "8 word" where [jos_consts]: "KEY_INS = 0xE8"
definition KEY_DEL :: "8 word" where [jos_consts]: "KEY_DEL = 0xE9"

definition shiftcode :: "8 word \<Rightarrow> 32 word" where
  "shiftcode d = (if d = 0x1D then CTL else if d = 0x2A then SHIFT else if d = 0x36 then SHIFT
     else if d = 0x38 then ALT else if d = 0x9D then CTL else if d = 0xB8 then ALT else 0)"

definition togglecode :: "8 word \<Rightarrow> 32 word" where
  "togglecode d = (if d = 0x3A then CAPSLOCK else if d = 0x45 then NUMLOCK else if d = 0x46 then SCROLLLOCK else 0)"

text \<open>A table with the entries \<open>base\<close> from 0 on, further designated entries, and zeros elsewhere.\<close>

definition table :: "8 word list \<Rightarrow> (8 word \<times> 8 word) list \<Rightarrow> 8 word \<Rightarrow> 8 word" where
  "table base special d =
     (case map_of special d of Some c \<Rightarrow> c | None \<Rightarrow> if unat d < length base then base ! unat d else 0)"

definition chars_of :: "string \<Rightarrow> 8 word list" where
  "chars_of cs = map of_char cs"

definition keypad :: "8 word list" where
  "keypad = [0, 0x2A, 0, 0x20, 0, 0, 0, 0, 0, 0, 0, 0, 0, 0, 0, 0, 0] @ chars_of ''789-456+1230.'' @ [0, 0, 0, 0]"

definition extended :: "(8 word \<times> 8 word) list" where
  "extended = [(0xC7, KEY_HOME), (0x9C, 0x0A), (0xB5, 0x2F), (0xC8, KEY_UP), (0xC9, KEY_PGUP), (0xCB, KEY_LF),
     (0xCD, KEY_RT), (0xCF, KEY_END), (0xD0, KEY_DN), (0xD1, KEY_PGDN), (0xD2, KEY_INS), (0xD3, KEY_DEL)]"

definition normalmap :: "8 word \<Rightarrow> 8 word" where
  "normalmap = table ([0, 0x1B] @ chars_of ''1234567890-='' @ [0x08, 0x09] @ chars_of ''qwertyuiop[]'' @ [0x0A, 0] @
     chars_of ''asdfghjkl;'' @ [0x27, 0x60, 0, 0x5C] @ chars_of ''zxcvbnm,./'' @ keypad) extended"

definition shiftmap :: "8 word \<Rightarrow> 8 word" where
  "shiftmap = table ([0, 0x1B] @ chars_of ''!@#$%^&*()_+'' @ [0x08, 0x09] @ chars_of ''QWERTYUIOP{}'' @ [0x0A, 0] @
     chars_of ''ASDFGHJKL:'' @ [0x22, 0x7E, 0, 0x7C] @ chars_of ''ZXCVBNM<>?'' @ keypad) extended"

text \<open>The macro \<open>C(x)\<close>, on a whole row.\<close>

definition ctl :: "string \<Rightarrow> 8 word list" where
  "ctl cs = map (\<lambda>c. of_char c - 0x40) cs"

definition ctlmap :: "8 word \<Rightarrow> 8 word" where
  "ctlmap = table (replicate 16 0 @ ctl ''QWERTYUIOP'' @ [0, 0, 0x0D, 0] @ ctl ''ASDFGHJKL'' @ [0, 0, 0, 0, 0x1C] @
     ctl ''ZXCVBNM'' @ [0, 0] @ ctl ''/'' @ [0, 0])
     [(0x97, KEY_HOME), (0xB5, 0xEF), (0xC8, KEY_UP), (0xC9, KEY_PGUP), (0xCB, KEY_LF), (0xCD, KEY_RT),
      (0xCF, KEY_END), (0xD0, KEY_DN), (0xD1, KEY_PGDN), (0xD2, KEY_INS), (0xD3, KEY_DEL)]"

definition charcode :: "32 word \<Rightarrow> 8 word \<Rightarrow> 8 word" where
  "charcode sh = (if sh = 0 then normalmap else if sh = 1 then shiftmap else ctlmap)"

definition caps :: "8 word \<Rightarrow> 8 word" where
  "caps c = (if 0x61 \<le> c \<and> c \<le> 0x7A then c - 0x20 else if 0x41 \<le> c \<and> c \<le> 0x5A then c + 0x20 else c)"

text \<open>
  One scan code: the modifier state is the static variable \<open>shift\<close>. The result is the character, or 0
  if the code does not complete one. (Ctrl-Alt-Del also resets the machine, which is not modelled.)
\<close>

definition kbd_proc_data :: "32 word \<Rightarrow> 8 word \<Rightarrow> 8 word \<times> 32 word" where
  "kbd_proc_data shift data =
     (if data = 0xE0 then (0, shift OR E0ESC)
      else if data AND 0x80 \<noteq> 0 then
        let data = (if shift AND E0ESC \<noteq> 0 then data else data AND 0x7F)
        in (0, shift AND NOT (shiftcode data OR E0ESC))
      else
        let esc = shift AND E0ESC \<noteq> 0;
            data = (if esc then data OR 0x80 else data);
            shift = (if esc then shift AND NOT E0ESC else shift);
            shift = (shift OR shiftcode data) XOR togglecode data;
            c = charcode (shift AND (CTL OR SHIFT)) data
        in (if shift AND CAPSLOCK \<noteq> 0 then caps c else c, shift))"

section \<open>Display\<close>

definition CRT_COLS :: nat where [jos_consts]: "CRT_COLS = 80"
definition CRT_SIZE :: nat where [jos_consts]: "CRT_SIZE = 25 * CRT_COLS"

record crt =
  crt_buf :: "nat \<Rightarrow> 16 word"
  crt_pos :: "16 word"

text \<open>The characters other than tab, which only move the cursor or write one cell.\<close>

definition cga_char :: "32 word \<Rightarrow> crt \<Rightarrow> crt" where
  "cga_char c d =
     (if c AND 0xFF = 0x08 then
        if crt_pos d > 0 then
          let p = crt_pos d - 1
          in d\<lparr>crt_pos := p, crt_buf := (crt_buf d)(unat p := ucast ((c AND NOT 0xFF) OR 0x20))\<rparr>
        else d
      else if c AND 0xFF = 0x0A then
        let p = crt_pos d + of_nat CRT_COLS in d\<lparr>crt_pos := p - p mod of_nat CRT_COLS\<rparr>
      else if c AND 0xFF = 0x0D then d\<lparr>crt_pos := crt_pos d - crt_pos d mod of_nat CRT_COLS\<rparr>
      else d\<lparr>crt_buf := (crt_buf d)(unat (crt_pos d) := ucast c), crt_pos := crt_pos d + 1\<rparr>)"

definition cga_scroll :: "crt \<Rightarrow> crt" where
  "cga_scroll d =
     (if unat (crt_pos d) \<ge> CRT_SIZE then
        d\<lparr>crt_buf := (\<lambda>i. if i < CRT_SIZE - CRT_COLS then crt_buf d (i + CRT_COLS)
                       else if i < CRT_SIZE then 0x0720 else crt_buf d i),
          crt_pos := crt_pos d - of_nat CRT_COLS\<rparr>
      else d)"

definition attribute :: "32 word \<Rightarrow> 32 word" where
  "attribute c = (if c AND NOT 0xFF = 0 then c OR 0x0700 else c)"

text \<open>A tab prints five spaces through \<open>cons_putc\<close>, each with its own scrolling.\<close>

definition cga_space :: "crt \<Rightarrow> crt" where
  "cga_space d = cga_scroll (cga_char (attribute 0x20) d)"

definition cga_putc :: "32 word \<Rightarrow> crt \<Rightarrow> crt" where
  "cga_putc c d =
     (let c = attribute c
      in if c AND 0xFF = 0x09 then cga_scroll ((cga_space ^^ 5) d) else cga_scroll (cga_char c d))"

end
