(* ===== verification/Drivers.thy ===== *)
theory Drivers
  imports EnvProps Console
begin

text \<open>
  The devices behind the system calls: the clock of \<open>kern/time.c\<close>, the input buffer of
  \<open>kern/console.c\<close> and the transmit ring of \<open>kern/e1000.c\<close>.
\<close>

section \<open>The clock\<close>

definition time_init :: "kstate \<Rightarrow> kstate" where
  "time_init s = s\<lparr>ticks := 0\<rparr>"

definition time_tick :: "kstate \<Rightarrow> (kstate, unit) res" where
  "time_tick s =
     (let s1 = s\<lparr>ticks := ticks s + 1\<rparr>
      in if ticks s1 * 10 < ticks s1 then Inl (Panic, s1) else Inr ((), s1))"

definition time_msec :: "kstate \<Rightarrow> 32 word" where
  "time_msec s = ticks s * 10"

section \<open>Console input\<close>

definition CONSBUFSIZE :: "32 word" where [jos_consts]: "CONSBUFSIZE = 512"

text \<open>One character from a device; zero stands for a key event that yields none.\<close>

definition cons_put1 :: "8 word \<Rightarrow> kstate \<Rightarrow> kstate" where
  "cons_put1 c s =
     (if c = 0 then s
      else
        let s1 = s\<lparr>cons_buf := (cons_buf s)(unat (cons_wpos s) := c), cons_wpos := cons_wpos s + 1\<rparr>
        in if cons_wpos s1 = CONSBUFSIZE then s1\<lparr>cons_wpos := 0\<rparr> else s1)"

text \<open>\<open>cs\<close> are the values that the device routine returns before the first \<open>-1\<close>.\<close>

definition cons_intr :: "8 word list \<Rightarrow> kstate \<Rightarrow> kstate" where
  "cons_intr cs s = foldl (\<lambda>s c. cons_put1 c s) s cs"

definition serial_intr :: "kstate \<Rightarrow> kstate" where
  "serial_intr s = (cons_intr (serial_in s) s)\<lparr>serial_in := []\<rparr>"

text \<open>The keyboard routine decodes the scan codes that wait at the controller, one per call.\<close>

fun kbd_decode :: "32 word \<Rightarrow> 8 word list \<Rightarrow> 8 word list \<times> 32 word" where
  "kbd_decode shift [] = ([], shift)"
| "kbd_decode shift (d # ds) =
     (let (c, shift') = kbd_proc_data shift d; (cs, shift'') = kbd_decode shift' ds in (c # cs, shift''))"

definition kbd_intr :: "kstate \<Rightarrow> kstate" where
  "kbd_intr s =
     (let (cs, shift) = kbd_decode (kbd_shift s) (kbd_in s)
      in (cons_intr cs s)\<lparr>kbd_in := [], kbd_shift := shift\<rparr>)"

definition cons_getc :: "kstate \<Rightarrow> 8 word \<times> kstate" where
  "cons_getc s =
     (let s0 = kbd_intr (serial_intr s)
      in if cons_rpos s0 \<noteq> cons_wpos s0 then
           let c = cons_buf s0 (unat (cons_rpos s0));
               s1 = s0\<lparr>cons_rpos := cons_rpos s0 + 1\<rparr>
           in (c, if cons_rpos s1 = CONSBUFSIZE then s1\<lparr>cons_rpos := 0\<rparr> else s1)
         else (0, s0))"

section \<open>The network card\<close>

definition TXRING_LEN :: nat where [jos_consts]: "TXRING_LEN = 64"
definition DATA_SIZE :: nat where [jos_consts]: "DATA_SIZE = 4096"
definition E1000_TDBAL :: nat where [jos_consts]: "E1000_TDBAL = 0x3800 div 4"
definition E1000_TDBAH :: nat where [jos_consts]: "E1000_TDBAH = 0x3804 div 4"
definition E1000_TDLEN :: nat where [jos_consts]: "E1000_TDLEN = 0x3808 div 4"
definition E1000_TDH :: nat where [jos_consts]: "E1000_TDH = 0x3810 div 4"
definition E1000_TDT :: nat where [jos_consts]: "E1000_TDT = 0x3818 div 4"
definition E1000_TCTL :: nat where [jos_consts]: "E1000_TCTL = 0x400 div 4"
definition E1000_TIPG :: nat where [jos_consts]: "E1000_TIPG = 0x410 div 4"
definition E1000_TXD_STAT_DD :: "8 word" where [jos_consts]: "E1000_TXD_STAT_DD = 1"

text \<open>\<open>data_pa i\<close> is the physical address of \<open>tx_data_buf[i]\<close> and \<open>ring_pa\<close> that of the descriptors.\<close>

definition init_desc :: "(nat \<Rightarrow> 32 word) \<Rightarrow> kstate \<Rightarrow> kstate" where
  "init_desc data_pa s =
     s\<lparr>tx_desc_buf := (\<lambda>i. if i < TXRING_LEN
        then \<lparr>td_buffer_addr = data_pa i, td_length = 0, td_cmd = 0, td_status = E1000_TXD_STAT_DD\<rparr>
        else tx_desc_buf s i)\<rparr>"

definition set_reg :: "nat \<Rightarrow> 32 word \<Rightarrow> kstate \<Rightarrow> kstate" where
  "set_reg r v s = s\<lparr>e1000 := (e1000 s)(r := v)\<rparr>"

definition e1000_init :: "32 word \<Rightarrow> kstate \<Rightarrow> kstate" where
  "e1000_init ring_pa s =
     (let or_reg = (\<lambda>r v s. set_reg r (e1000 s r OR v) s);
          s1 = set_reg E1000_TDT 0 (set_reg E1000_TDH 0 (set_reg E1000_TDLEN (of_nat TXRING_LEN * 16)
                 (set_reg E1000_TDBAH 0 (set_reg E1000_TDBAL ring_pa s))));
          s2 = or_reg E1000_TCTL 0x00040000 (or_reg E1000_TCTL 0x00000100 (or_reg E1000_TCTL 0x00000008
                 (or_reg E1000_TCTL 0x00000002 s1)))
      in or_reg E1000_TIPG (push_bit 20 0xC) (or_reg E1000_TIPG (push_bit 10 0x8) (or_reg E1000_TIPG 0xA s2)))"

text \<open>The part of \<open>e1000_attach\<close> after the PCI function is enabled: map the registers, prepare the ring.\<close>

definition e1000_attach ::
    "32 word \<Rightarrow> 32 word \<Rightarrow> (nat \<Rightarrow> 32 word) \<Rightarrow> 32 word \<Rightarrow> kstate \<Rightarrow> (kstate, int) res" where
  "e1000_attach reg_base reg_size data_pa ring_pa s =
     bindS (mmio_map_region reg_base reg_size s) (\<lambda>_ s. Inr (0, e1000_init ring_pa (init_desc data_pa s)))"

definition e1000_transmit :: "32 word \<Rightarrow> 32 word \<Rightarrow> kstate \<Rightarrow> (kstate, int) res" where
  "e1000_transmit addr len s =
     (let tail = unat (e1000 s E1000_TDT)
      in if unat len > DATA_SIZE then Inl (Panic, s)
         else if td_status (tx_desc_buf s tail) \<noteq> E1000_TXD_STAT_DD then Inr (- 1, s)
         else bindS (read_bytes addr (unat len) s) (\<lambda>bs s.
           Inr (0, set_reg E1000_TDT ((of_nat tail + 1) mod of_nat TXRING_LEN)
             (s\<lparr>tx_data_buf := (tx_data_buf s)(tail := (\<lambda>i. if i < length bs then bs ! i else tx_data_buf s tail i)),
                tx_desc_buf := (tx_desc_buf s)(tail := (tx_desc_buf s tail)
                  \<lparr>td_length := ucast len, td_status := 0, td_cmd := td_cmd (tx_desc_buf s tail) OR 0x09\<rparr>)\<rparr>))))"

end
