(* ===== verification/Syscall.thy ===== *)
theory Syscall
  imports Drivers
begin

text \<open>
  The system calls of \<open>kern/syscall.c\<close>. Arguments arrive in registers as 32-bit words; the result is
  the word left in \<open>%eax\<close>. Pointers into user memory are followed through the page tables in force.
\<close>

definition PTE_bad_perm :: "32 word \<Rightarrow> bool" where
  "PTE_bad_perm perm \<longleftrightarrow>
     perm AND PTE_U \<noteq> PTE_U \<or> perm AND PTE_P \<noteq> PTE_P \<or> perm AND NOT PTE_SYSCALL \<noteq> 0"

definition user_mem_assert :: "nat \<Rightarrow> 32 word \<Rightarrow> 32 word \<Rightarrow> 32 word \<Rightarrow> kstate \<Rightarrow> (kstate, unit) res" where
  "user_mem_assert e va len perm s =
     bindS (deref (env_pgdir (envs s e)) s) (\<lambda>pd s.
     bindS (user_mem_check pd va len (perm OR PTE_U) s) (\<lambda>r s.
       if r < 0 then env_destroy e s else Inr ((), s)))"

section \<open>Console and clock\<close>

text \<open>
  What \<open>cprintf("%.*s", len, p)\<close> does: the character is read before the precision is tested, and a
  negative precision means that there is none. The walk visits each address at most once before it
  repeats itself, hence the fuel of \<open>2^32\<close> steps.
\<close>

fun print_chars :: "nat \<Rightarrow> nat option \<Rightarrow> 32 word \<Rightarrow> kstate \<Rightarrow> (kstate, unit) res" where
  "print_chars 0 precision p s = Inl (Diverges, s)"
| "print_chars (Suc n) precision p s =
     bindS (read_byte p s) (\<lambda>ch s.
       if ch = 0 then Inr ((), s)
       else case precision of
              None \<Rightarrow> print_chars n None (p + 1) (s\<lparr>cons_out := cons_out s @ [ch]\<rparr>)
            | Some 0 \<Rightarrow> Inr ((), s)
            | Some (Suc k) \<Rightarrow> print_chars n (Some k) (p + 1) (s\<lparr>cons_out := cons_out s @ [ch]\<rparr>))"

definition null_text :: "8 word list" where
  "null_text = [0x28, 0x6E, 0x75, 0x6C, 0x6C, 0x29]"

definition print_str :: "32 word \<Rightarrow> 32 word \<Rightarrow> kstate \<Rightarrow> (kstate, unit) res" where
  "print_str p len s =
     (let precision = (if sint len < 0 then None else Some (unat len))
      in if p = 0 then
           Inr ((), s\<lparr>cons_out := cons_out s @ (case precision of None \<Rightarrow> null_text | Some n \<Rightarrow> take n null_text)\<rparr>)
         else print_chars (2 ^ 32) precision p s)"

definition sys_cputs :: "32 word \<Rightarrow> 32 word \<Rightarrow> kstate \<Rightarrow> (kstate, unit) res" where
  "sys_cputs p len s =
     bindS (deref (curenv s) s) (\<lambda>c s.
     bindS (user_mem_assert c p len PTE_U s) (\<lambda>_ s. print_str p len s))"

definition sys_cgetc :: "kstate \<Rightarrow> (kstate, int) res" where
  "sys_cgetc s = (case cons_getc s of (c, s') \<Rightarrow> Inr (uint c, s'))"

definition sys_getenvid :: "kstate \<Rightarrow> (kstate, 32 word) res" where
  "sys_getenvid s = bindS (deref (curenv s) s) (\<lambda>c s. Inr (env_id (envs s c), s))"

definition sys_time_msec :: "kstate \<Rightarrow> (kstate, 32 word) res" where
  "sys_time_msec s = Inr (time_msec s, s)"

section \<open>Environments\<close>

definition sys_env_destroy :: "32 word \<Rightarrow> kstate \<Rightarrow> (kstate, int) res" where
  "sys_env_destroy envid s =
     bindS (envid2env envid True s) (\<lambda>(r, e) s.
       if r < 0 then Inr (r, s)
       else bindS (deref e s) (\<lambda>e s. bindS (env_destroy e s) (\<lambda>_ s. Inr (0, s))))"

definition sys_yield :: "kstate \<Rightarrow> (kstate, unit) res" where
  "sys_yield s = sched_yield s"

definition sys_exofork :: "kstate \<Rightarrow> (kstate, 32 word) res" where
  "sys_exofork s =
     bindS (deref (curenv s) s) (\<lambda>c s.
     bindS (env_alloc (env_id (envs s c)) s) (\<lambda>(r, e) s.
       if r = 0 then
         bindS (deref e s) (\<lambda>e s.
           let s1 = set_env e (\<lambda>v. v\<lparr>env_status := ENV_NOT_RUNNABLE\<rparr>) s;
               s2 = set_env e (\<lambda>v. v\<lparr>env_tf := env_tf (envs s1 c)\<rparr>) s1;
               s3 = set_env e (\<lambda>v. v\<lparr>env_tf := (env_tf v)\<lparr>tf_regs := (tf_regs (env_tf v))\<lparr>reg_eax := 0\<rparr>\<rparr>\<rparr>) s2
           in Inr (env_id (envs s3 e), s3))
       else Inr (of_int r, s)))"

definition sys_env_set_status :: "32 word \<Rightarrow> 32 word \<Rightarrow> kstate \<Rightarrow> (kstate, int) res" where
  "sys_env_set_status envid status s =
     (if \<not> (status = ENV_RUNNABLE \<or> status = ENV_NOT_RUNNABLE) then Inr (- E_INVAL, s)
      else bindS (envid2env envid True s) (\<lambda>(r, e) s.
        if r = 0 then bindS (deref e s) (\<lambda>e s. Inr (0, set_env e (\<lambda>v. v\<lparr>env_status := status\<rparr>) s))
        else Inr (- E_BAD_ENV, s)))"

text \<open>A \<open>struct Trapframe\<close> in memory: 68 bytes, little-endian, with padding after the 16-bit fields.\<close>

definition trapframe_of :: "8 word list \<Rightarrow> Trapframe" where
  "trapframe_of bs =
     (let w = (\<lambda>k. word32 (take 4 (drop k bs))); h = (\<lambda>k. ucast (word32 (take 2 (drop k bs))))
      in \<lparr>tf_regs = \<lparr>reg_edi = w 0, reg_esi = w 4, reg_ebp = w 8, reg_oesp = w 12, reg_ebx = w 16,
            reg_edx = w 20, reg_ecx = w 24, reg_eax = w 28\<rparr>,
          tf_es = h 32, tf_ds = h 36, tf_trapno = w 40, tf_err = w 44, tf_eip = w 48, tf_cs = h 52,
          tf_eflags = w 56, tf_esp = w 60, tf_ss = h 64\<rparr>)"

definition sys_env_set_trapframe :: "32 word \<Rightarrow> 32 word \<Rightarrow> kstate \<Rightarrow> (kstate, int) res" where
  "sys_env_set_trapframe envid tf s =
     bindS (envid2env envid True s) (\<lambda>(r, e) s.
       if r < 0 then Inl (Panic, s)
       else if tf = 0 then Inl (Panic, s)
       else bindS (deref e s) (\<lambda>e s.
            bindS (read_bytes tf 68 s) (\<lambda>bs s.
              Inr (0, set_env e (\<lambda>v. v\<lparr>env_tf := trapframe_of bs\<rparr>) s))))"

definition sys_env_set_pgfault_upcall :: "32 word \<Rightarrow> 32 word \<Rightarrow> kstate \<Rightarrow> (kstate, int) res" where
  "sys_env_set_pgfault_upcall envid func s =
     bindS (envid2env envid True s) (\<lambda>(r, e) s.
       if r = 0 then bindS (deref e s) (\<lambda>e s. Inr (0, set_env e (\<lambda>v. v\<lparr>env_pgfault_upcall := func\<rparr>) s))
       else Inr (- E_BAD_ENV, s))"

section \<open>Memory\<close>

definition sys_page_alloc :: "32 word \<Rightarrow> 32 word \<Rightarrow> 32 word \<Rightarrow> kstate \<Rightarrow> (kstate, int) res" where
  "sys_page_alloc envid va perm s =
     (if va \<ge> UTOP \<or> va mod PGSIZE \<noteq> 0 then Inr (- E_INVAL, s)
      else if PTE_bad_perm perm then Inr (- E_INVAL, s)
      else bindS (envid2env envid True s) (\<lambda>(r, e) s.
        if r = 0 then
          bindS (page_alloc ALLOC_ZERO s) (\<lambda>pp s.
            case pp of
              None \<Rightarrow> Inr (- E_NO_MEM, s)
            | Some p \<Rightarrow>
                bindS (deref e s) (\<lambda>e s.
                bindS (deref (env_pgdir (envs s e)) s) (\<lambda>pd s.
                bindS (page_insert pd p va perm s) (\<lambda>r s.
                  if r = 0 then Inr (0, s)
                  else bindS (page_free p s) (\<lambda>_ s. Inr (- E_NO_MEM, s))))))
        else Inr (- E_BAD_ENV, s)))"

text \<open>Both branches of \<open>sys_page_map\<close> end in the same insertion.\<close>

definition page_map_insert :: "nat option \<Rightarrow> nat \<Rightarrow> 32 word \<Rightarrow> 32 word \<Rightarrow> kstate \<Rightarrow> (kstate, int) res" where
  "page_map_insert dst pp dstva perm s =
     bindS (deref dst s) (\<lambda>e s.
     bindS (deref (env_pgdir (envs s e)) s) (\<lambda>pd s.
     bindS (page_insert pd pp dstva perm s) (\<lambda>r s. if r < 0 then Inr (- E_NO_MEM, s) else Inr (0, s))))"

definition sys_page_map ::
    "32 word \<Rightarrow> 32 word \<Rightarrow> 32 word \<Rightarrow> 32 word \<Rightarrow> 32 word \<Rightarrow> kstate \<Rightarrow> (kstate, int) res" where
  "sys_page_map srcenvid srcva dstenvid dstva perm s =
     (if srcva \<ge> UTOP \<or> dstva \<ge> UTOP \<or> srcva mod PGSIZE \<noteq> 0 \<or> dstva mod PGSIZE \<noteq> 0 then Inr (- E_INVAL, s)
      else if PTE_bad_perm perm then Inr (- E_INVAL, s)
      else bindS (envid2env srcenvid True s) (\<lambda>(r, src) s.
        if r \<noteq> 0 then Inr (- E_BAD_ENV, s)
        else bindS (envid2env dstenvid True s) (\<lambda>(r, dst) s.
          if r \<noteq> 0 then Inr (- E_BAD_ENV, s)
          else
            bindS (deref src s) (\<lambda>src s.
            bindS (deref (env_pgdir (envs s src)) s) (\<lambda>pd s.
            bindS (page_lookup pd srcva s) (\<lambda>(pp, pte) s.
              case pp of
                None \<Rightarrow> Inr (- E_INVAL, s)
              | Some p \<Rightarrow>
                  if perm AND PTE_W \<noteq> 0 then
                    case pte of
                      None \<Rightarrow> Inl (NullDeref, s)
                    | Some q \<Rightarrow> if load q s AND PTE_W \<noteq> 0 then page_map_insert dst p dstva perm s
                                else Inr (- E_INVAL, s)
                  else page_map_insert dst p dstva perm s))))))"

definition sys_page_unmap :: "32 word \<Rightarrow> 32 word \<Rightarrow> kstate \<Rightarrow> (kstate, int) res" where
  "sys_page_unmap envid va s =
     (if va \<ge> UTOP \<or> va mod PGSIZE \<noteq> 0 then Inr (- E_INVAL, s)
      else bindS (envid2env envid True s) (\<lambda>(r, e) s.
        if r = 0 then
          bindS (deref e s) (\<lambda>e s.
          bindS (deref (env_pgdir (envs s e)) s) (\<lambda>pd s.
          bindS (page_remove pd va s) (\<lambda>_ s. Inr (0, s))))
        else Inr (- E_BAD_ENV, s)))"

section \<open>Messages\<close>

text \<open>The end of \<open>sys_ipc_try_send\<close>: the target gets the message and becomes runnable.\<close>

definition ipc_deliver :: "nat \<Rightarrow> 32 word \<Rightarrow> 32 word \<Rightarrow> kstate \<Rightarrow> (kstate, int) res" where
  "ipc_deliver e value perm s =
     bindS (deref (curenv s) s) (\<lambda>c s.
       Inr (0, set_env e (\<lambda>v. v\<lparr>env_ipc_perm := perm, env_ipc_recving := False, env_ipc_value := value,
                env_ipc_from := env_id (envs s c), env_status := ENV_RUNNABLE,
                env_tf := (env_tf v)\<lparr>tf_regs := (tf_regs (env_tf v))\<lparr>reg_eax := 0\<rparr>\<rparr>\<rparr>) s))"

definition sys_ipc_try_send :: "32 word \<Rightarrow> 32 word \<Rightarrow> 32 word \<Rightarrow> 32 word \<Rightarrow> kstate \<Rightarrow> (kstate, int) res" where
  "sys_ipc_try_send envid value srcva perm s =
     bindS (envid2env envid False s) (\<lambda>(r, e) s.
       if r \<noteq> 0 then Inr (- E_BAD_ENV, s)
       else bindS (deref e s) (\<lambda>e s.
         if \<not> env_ipc_recving (envs s e) then Inr (- E_IPC_NOT_RECV, s)
         else if srcva < UTOP \<and> srcva mod PGSIZE \<noteq> 0 then Inr (- E_INVAL, s)
         else if env_ipc_dstva (envs s e) < UTOP \<and> srcva < UTOP then
           if PTE_bad_perm perm then Inr (- E_INVAL, s)
           else
             bindS (deref (curenv s) s) (\<lambda>c s.
             bindS (deref (env_pgdir (envs s c)) s) (\<lambda>pd s.
             bindS (page_lookup pd srcva s) (\<lambda>(pp, pte) s.
               case pp of
                 None \<Rightarrow> Inr (- E_INVAL, s)
               | Some p \<Rightarrow>
                   if perm AND PTE_W = 0 then Inr (- E_INVAL, s)
                   else case pte of
                     None \<Rightarrow> Inl (NullDeref, s)
                   | Some q \<Rightarrow>
                       if load q s AND PTE_W = 0 then Inr (- E_INVAL, s)
                       else
                         bindS (deref (env_pgdir (envs s e)) s) (\<lambda>tpd s.
                         bindS (page_insert tpd p (env_ipc_dstva (envs s e)) perm s) (\<lambda>r s.
                           if r < 0 then Inr (- E_NO_MEM, s) else ipc_deliver e value perm s)))))
         else ipc_deliver e value 0 s))"

definition sys_ipc_recv :: "32 word \<Rightarrow> kstate \<Rightarrow> (kstate, int) res" where
  "sys_ipc_recv dstva s =
     (if dstva < UTOP \<and> dstva mod PGSIZE \<noteq> 0 then Inr (- E_INVAL, s)
      else
        bindS (deref (curenv s) s) (\<lambda>c s.
          let s1 = set_env c (\<lambda>v. v\<lparr>env_ipc_dstva := (if dstva < UTOP then dstva else 0xF0000000)\<rparr>) s;
              s2 = set_env c (\<lambda>v. v\<lparr>env_ipc_dstva := dstva, env_ipc_recving := True,
                                    env_status := ENV_NOT_RUNNABLE\<rparr>) s1
          in bindS (sched_yield s2) (\<lambda>_ s. Inr (0, s))))"

section \<open>Network and dispatch\<close>

definition sys_e1000_transmit :: "32 word \<Rightarrow> 32 word \<Rightarrow> kstate \<Rightarrow> (kstate, int) res" where
  "sys_e1000_transmit addr len s =
     bindS (deref (curenv s) s) (\<lambda>c s.
     bindS (user_mem_assert c addr len PTE_W s) (\<lambda>_ s. e1000_transmit addr len s))"

text \<open>The numbers of \<open>inc/syscall.h\<close>.\<close>

datatype sysno =
    SYS_cputs | SYS_cgetc | SYS_getenvid | SYS_env_destroy | SYS_page_alloc | SYS_page_map | SYS_page_unmap
  | SYS_exofork | SYS_env_set_status | SYS_env_set_trapframe | SYS_env_set_pgfault_upcall | SYS_yield
  | SYS_ipc_try_send | SYS_ipc_recv | SYS_time_msec | SYS_e1000_transmit | NSYSCALLS

definition sysnos :: "sysno list" where
  "sysnos = [SYS_cputs, SYS_cgetc, SYS_getenvid, SYS_env_destroy, SYS_page_alloc, SYS_page_map, SYS_page_unmap,
     SYS_exofork, SYS_env_set_status, SYS_env_set_trapframe, SYS_env_set_pgfault_upcall, SYS_yield,
     SYS_ipc_try_send, SYS_ipc_recv, SYS_time_msec, SYS_e1000_transmit, NSYSCALLS]"

definition sysno_of :: "32 word \<Rightarrow> sysno option" where
  "sysno_of n = (if unat n < length sysnos then Some (sysnos ! unat n) else None)"

text \<open>A result of type \<open>int\<close> becomes a word, a call without result returns 0.\<close>

definition ret_int :: "(kstate, int) res \<Rightarrow> (kstate, 32 word) res" where
  "ret_int m = bindS m (\<lambda>r s. Inr (of_int r, s))"

definition ret_zero :: "(kstate, 'a) res \<Rightarrow> (kstate, 32 word) res" where
  "ret_zero m = bindS m (\<lambda>_ s. Inr (0, s))"

definition syscall ::
    "32 word \<Rightarrow> 32 word \<Rightarrow> 32 word \<Rightarrow> 32 word \<Rightarrow> 32 word \<Rightarrow> 32 word \<Rightarrow> kstate \<Rightarrow> (kstate, 32 word) res" where
  "syscall syscallno a1 a2 a3 a4 a5 s =
     (case sysno_of syscallno of
        Some SYS_cputs \<Rightarrow> ret_zero (sys_cputs a1 a2 s)
      | Some SYS_cgetc \<Rightarrow> ret_zero (sys_cgetc s)
      | Some SYS_getenvid \<Rightarrow> sys_getenvid s
      | Some SYS_env_destroy \<Rightarrow> ret_int (sys_env_destroy a1 s)
      | Some SYS_yield \<Rightarrow> ret_zero (sys_yield s)
      | Some SYS_page_alloc \<Rightarrow> ret_int (sys_page_alloc a1 a2 a3 s)
      | Some SYS_page_map \<Rightarrow> ret_int (sys_page_map a1 a2 a3 a4 a5 s)
      | Some SYS_page_unmap \<Rightarrow> ret_int (sys_page_unmap a1 a2 s)
      | Some SYS_exofork \<Rightarrow> sys_exofork s
      | Some SYS_env_set_status \<Rightarrow> ret_int (sys_env_set_status a1 a2 s)
      | Some SYS_env_set_pgfault_upcall \<Rightarrow> ret_int (sys_env_set_pgfault_upcall a1 a2 s)
      | Some SYS_ipc_recv \<Rightarrow> ret_int (sys_ipc_recv a1 s)
      | Some SYS_ipc_try_send \<Rightarrow> ret_int (sys_ipc_try_send a1 a2 a3 a4 s)
      | Some SYS_env_set_trapframe \<Rightarrow> ret_int (sys_env_set_trapframe a1 a2 s)
      | Some SYS_time_msec \<Rightarrow> sys_time_msec s
      | Some SYS_e1000_transmit \<Rightarrow> ret_int (sys_e1000_transmit a1 a2 s)
      | Some NSYSCALLS \<Rightarrow> Inr (0, s)
      | None \<Rightarrow> Inr (of_int (- E_INVAL), s))"

end
