(* ===== verification/SysInv.thy ===== *)
theory SysInv
  imports Syscall
begin

text \<open>
  Every system call keeps the invariant of the kernel, whether it returns, panics or switches to
  another environment, and what the calls that change address spaces do exactly.
\<close>

section \<open>The caller\<close>

definition caller :: "kstate \<Rightarrow> nat \<Rightarrow> bool" where
  "caller s c \<longleftrightarrow> curenv s = Some c \<and> live s c"

text \<open>No page is mapped so often that its 16-bit reference count is exhausted.\<close>

definition refs_ok :: "kstate \<Rightarrow> bool" where
  "refs_ok s \<longleftrightarrow> (\<forall>p. card (mappings (pgdirs s) s p) + 1 < 0x10000)"

lemma caller_deref: "caller s c \<Longrightarrow> deref (curenv s) s = Inr (c, s)"
  by (simp add: caller_def deref_def)

lemma envid2env_cases:
  assumes "caller s c"
  obtains "envid2env envid cp s = Inr ((- E_BAD_ENV, None), s)"
    | e where "envid2env envid cp s = Inr ((0, Some e), s)" "live s e"
      "cp \<longrightarrow> e = c \<or> env_parent_id (envs s e) = env_id (envs s c)"
proof -
  have c: "curenv s = Some c" "live s c" using assms by (simp_all add: caller_def)
  show thesis
  proof (cases "envid = 0")
    case True
    then show thesis using that(2) [of c] c by (simp add: envid2env_def)
  next
    case False
    note run = envid2env_run [OF c(1) False, of cp]
    show thesis
    proof (cases "live s (ENVX envid) \<and> env_id (envs s (ENVX envid)) = envid \<and>
        \<not> (cp \<and> ENVX envid \<noteq> c \<and> env_parent_id (envs s (ENVX envid)) \<noteq> env_id (envs s c))")
      case True
      then show thesis using that(2) [of "ENVX envid"] unfolding run by simp
    next
      case False
      then show thesis using that(1) unfolding run by auto
    qed
  qed
qed

lemma err_consts: "E_BAD_ENV \<noteq> 0" "0 < E_BAD_ENV" "E_NO_MEM \<noteq> 0" "0 < E_NO_MEM"
  by (simp_all add: E_BAD_ENV_def E_NO_MEM_def)

lemma bad_perm_flags: "\<not> PTE_bad_perm perm \<Longrightarrow> flags_only perm"
  by (rule flags_only_syscall) (simp add: PTE_bad_perm_def)

section \<open>Calls that leave address spaces alone\<close>

lemma k_inv_eq:
  "k_inv s \<Longrightarrow> envs s' = envs s \<Longrightarrow> env_free_list s' = env_free_list s \<Longrightarrow> same_mem s s' \<Longrightarrow> k_inv s'"
  by (rule k_inv_same) (simp_all add: same_envs_def same_env_def)

lemma read_byte_state: "res_state (read_byte va s) = s"
  by (simp add: read_byte_def split: option.split)

lemma read_byte_Inr: "read_byte va s = Inr (b, s') \<Longrightarrow> s' = s"
  using read_byte_state [of va s] by simp

lemma bindS_state:
  "res_state m = s \<Longrightarrow> (\<And>a. res_state (f a s) = s) \<Longrightarrow> res_state (bindS m f) = s"
  by (rule res_state_bindS [where I = "\<lambda>t. t = s"]) auto

lemma read_bytes_state: "res_state (read_bytes va n s) = s"
  by (induction n arbitrary: va) (simp_all add: bindS_state read_byte_state)

lemma pgdir_walk_state: "res_state (pgdir_walk pd va False s) = s"
  by (simp add: pgdir_walk_def KADDR_def)

lemma user_mem_check_state:
  "\<exists>x. res_state (user_mem_check_loop pd perm a e s) = s\<lparr>user_mem_check_addr := x\<rparr>"
proof (induction pd perm a e s rule: user_mem_check_loop.induct)
  case (1 pd perm a e s)
  let ?I = "\<lambda>t. \<exists>x. t = s\<lparr>user_mem_check_addr := x\<rparr>"
  have id: "?I s" by (rule exI [of _ "user_mem_check_addr s"]) simp
  have w: "t = s" if "pgdir_walk pd a False s = Inr (q, t)" for q t
    using pgdir_walk_state [of pd a s] that by simp
  have "?I (res_state (pgdir_walk pd a False s))" using id by (simp add: pgdir_walk_state)
  then show ?case
    unfolding user_mem_check_loop.simps [of pd perm a e s]
    using id 1 by (auto intro!: res_state_bindS [where I = ?I] dest: w split: if_splits)
qed

lemma k_inv_user_mem_assert:
  assumes inv: "k_inv s" and l: "live s e"
  shows "k_inv (res_state (user_mem_assert e va len perm s))"
proof -
  obtain pd where pd: "env_pgdir (envs s e) = Some pd" by (rule k_inv_pgdir [OF inv l])
  obtain x where x: "res_state (user_mem_check pd va len (perm OR PTE_U) s) = s\<lparr>user_mem_check_addr := x\<rparr>"
    using user_mem_check_state unfolding user_mem_check_def by blast
  have "k_inv (s\<lparr>user_mem_check_addr := x\<rparr>)" by (rule k_inv_eq [OF inv]) (simp_all add: same_mem_def)
  moreover have "live (s\<lparr>user_mem_check_addr := x\<rparr>) e" using l by (simp add: live_def)
  ultimately show ?thesis
    using x k_inv_env_destroy [of "s\<lparr>user_mem_check_addr := x\<rparr>" e]
    unfolding user_mem_assert_def deref_def pd option.case bindS_Inr
    by (cases "user_mem_check pd va len (perm OR PTE_U) s") (auto split: if_splits)
qed

section \<open>Page operations and the contents of pages\<close>

lemma page_decref_pmem: "page_decref p s = Inr ((), s') \<Longrightarrow> pmem s' = pmem s"
  by (auto simp: page_decref_def page_free_def Let_def split: if_splits)

lemma page_remove_pmem:
  assumes run: "page_remove pd va s = Inr ((), s')" and walk: "pgdir_walk pd va False s = Inr (Some (pt, j), s)"
    and q: "q \<noteq> pt"
  shows "pmem s' q = pmem s q"
proof -
  have "page_lookup pd va s = Inr ((None, None), s) \<or>
      (\<exists>pp k. page_lookup pd va s = Inr ((Some pp, k), s) \<and> (k = None \<or> k = Some (pt, j))) \<or>
      (\<exists>e. page_lookup pd va s = Inl e)"
    by (simp add: page_lookup_def walk pa2page_def)
  then show ?thesis
    using run q by (auto simp: page_remove_def bindS_eq_Inr tlb_invalidate_def pmem_store dest!: page_decref_pmem)
qed

lemma pgdir_walk_data:
  assumes inv: "vm_inv pds fl ex s" and pd: "pd \<in> pds" "va < UTOP" and q: "insertable pds fl ex s q"
    and run: "pgdir_walk pd va True s = Inr (r, s')"
  shows "pmem s' q = pmem s q"
proof (cases "pt_of s pd (PDX va)")
  case (Some pt)
  then show ?thesis using pgdir_walk_present [OF inv pd Some] run by simp
next
  case None
  show ?thesis
  proof (cases fl)
    case Nil
    then have "page_alloc ALLOC_ZERO s = Inr (None, s)" using inv by (simp add: vm_inv_def page_alloc_Nil)
    then show ?thesis using None run by (simp add: pgdir_walk_def load_def pt_of_None)
  next
    case (Cons p fl')
    have "q \<noteq> p" "q \<noteq> pd" using q Cons pd by (auto simp: insertable_def)
    then show ?thesis
      using pgdir_walk_alloc(1) [OF inv [unfolded Cons] pd None] run by (auto simp: pmem_store)
  qed
qed

text \<open>Mapping a page writes to tables and directories only; the contents of other pages stay.\<close>

lemma page_insert_data:
  assumes inv: "vm_inv pds fl ex s" and pd: "pd \<in> pds" "va < UTOP" and q: "insertable pds fl ex s q"
    and run: "page_insert pd pp va perm s = Inr (r, s')"
  shows "pmem s' q = pmem s q"
proof -
  from pgdir_walk_create [OF inv pd] obtain w s0 fl0 where
    w: "pgdir_walk pd va True s = Inr (w, s0)" "vm_inv pds fl0 ex s0"
      "\<forall>pp. insertable pds fl ex s pp \<longrightarrow> insertable pds fl0 ex s0 pp"
      "case w of None \<Rightarrow> fl = [] \<and> s0 = s | Some q \<Rightarrow> \<exists>pt. q = (pt, PTX va) \<and> pt_of s0 pd (PDX va) = Some pt"
    by blast
  note d0 = pgdir_walk_data [OF inv pd q w(1)]
  show ?thesis
  proof (cases w)
    case None
    then show ?thesis using run w(1) d0 by (simp add: page_insert_def)
  next
    case (Some k)
    then obtain pt where k: "w = Some (pt, PTX va)" "pt_of s0 pd (PDX va) = Some pt" using w(4) by auto
    have i: "PDX va < PDX UTOP" using pd by (simp add: below_UTOP_iff)
    have "insertable pds fl0 ex s0 q" using w(3) q by blast
    then have ne: "q \<noteq> pt" "q \<noteq> pd" using k(2) pd(1) i by (auto simp: insertable_def page_tables_def)
    let ?s1 = "set_page pp (\<lambda>pi. pi\<lparr>pp_ref := pp_ref pi + 1\<rparr>) s0"
    have "pt < npages s0" using vm_inv_pt(1) [OF w(2) pd(1) i k(2)] .
    then have "pgdir_walk pd va False ?s1 = Inr (Some (pt, PTX va), ?s1)"
      using k(2) by (auto simp: pgdir_walk_def load_def KADDR_def pt_of_Some)
    note rm = page_remove_pmem [OF _ this ne(1)]
    have "\<exists>s2. (if load (pt, PTX va) ?s1 AND PTE_P = PTE_P then page_remove pd va ?s1 else Inr ((), ?s1)) =
        Inr ((), s2) \<and> s' = store (pd, PDX va) (load (pd, PDX va) (store (pt, PTX va) (page2pa pp OR perm OR PTE_P) s2) OR perm)
          (store (pt, PTX va) (page2pa pp OR perm OR PTE_P) s2)"
      using run unfolding page_insert_def w(1) k(1) bindS_Inr option.case Let_def bindS_eq_Inr by auto
    then obtain s2 where s2: "(if load (pt, PTX va) ?s1 AND PTE_P = PTE_P then page_remove pd va ?s1 else Inr ((), ?s1)) =
        Inr ((), s2)" "pmem s' q = pmem s2 q" using ne by (auto simp: pmem_store)
    have "pmem s2 q = pmem ?s1 q"
      using s2(1) rm by (auto split: if_splits)
    then show ?thesis using s2(2) d0 by simp
  qed
qed

lemma page_alloc_zero_spec:
  assumes ok: "vm_ok pds s"
  shows "page_alloc ALLOC_ZERO s = Inr (None, s) \<and> page_free_list s = None \<or>
    (\<exists>p s1 fl. page_alloc ALLOC_ZERO s = Inr (Some p, s1) \<and> p \<in> free_set s \<and> vm_inv pds fl (\<lambda>_. 0) s1 \<and>
       limbo pds fl (\<lambda>_. 0) s1 p \<and> vm_frame s s1 \<and> pmem s1 p = (\<lambda>_. 0) \<and> page_free p s1 = Inr ((), push_page p s1) \<and>
       (\<forall>pd\<in>pds. \<forall>va<UTOP. look s1 pd va = look s pd va))"
proof -
  obtain fl where inv: "vm_inv pds fl (\<lambda>_. 0) s" using ok by (auto simp: vm_ok_def)
  show ?thesis
  proof (cases fl)
    case Nil
    then have "fl_inv [] s" using inv by (simp add: vm_inv_def)
    then show ?thesis using page_alloc_Nil [of s ALLOC_ZERO] by (simp add: fl_inv_def)
  next
    case (Cons p fl')
    have fl: "fl_inv (p # fl') s" and np: "npages s \<le> 0x100000" using inv Cons by (simp_all add: vm_inv_def)
    define s1 where "s1 = zero_page p (pop_page p s)"
    note pop = vm_inv_pop [OF inv [unfolded Cons]]
    note zero = vm_inv_zero_limbo [OF pop, folded s1_def]
    have "page_alloc ALLOC_ZERO s = Inr (Some p, s1)"
      using page_alloc_Cons [OF fl np, of ALLOC_ZERO] by (simp add: s1_def jos_consts)
    moreover have "p \<in> free_set s" unfolding vm_inv_free_set [OF inv] Cons by simp
    moreover have "vm_frame s s1" "pmem s1 p = (\<lambda>_. 0)" by (simp_all add: s1_def frame_simps)
    moreover have "page_free p s1 = Inr ((), push_page p s1)"
      using zero(2) by (simp add: page_free_def push_page_def limbo_def) (simp add: s1_def)
    moreover have "look s1 pd va = look s pd va" if "pd \<in> pds" "va < UTOP" for pd va
      using zero(3) slots_va [OF that] view_simps(1,2) [of "pop_page p s" s] by (simp add: s1_def same_view_def look_def)
    ultimately show ?thesis using zero(1,2) by blast
  qed
qed

text \<open>An allocated page goes into an address space, or back to the free list.\<close>

lemma alloc_insert_spec:
  assumes ok: "vm_ok pds s" and pd: "pd \<in> pds" "va < UTOP" and perm: "flags_only perm"
    and al: "page_alloc ALLOC_ZERO s = Inr (Some p, s1)"
  shows "(\<exists>s'. page_insert pd p va perm s1 = Inr (- E_NO_MEM, s1) \<and> page_free p s1 = Inr ((), s') \<and>
      vm_ok pds s' \<and> vm_frame s s' \<and> (\<forall>pd\<in>pds. \<forall>va<UTOP. look s' pd va = look s pd va)) \<or>
    (\<exists>s'. page_insert pd p va perm s1 = Inr (0, s') \<and> vm_ok pds s' \<and> vm_frame s s' \<and> pmem s' p = (\<lambda>_. 0) \<and>
      (\<forall>pd'\<in>pds. \<forall>va'<UTOP. look s' pd' va' =
         (if pd' = pd \<and> PGNUM va' = PGNUM va then Some (page2pa p OR perm OR PTE_P) else look s pd' va')))"
proof -
  from page_alloc_zero_spec [OF ok] al obtain fl where
    s1: "vm_inv pds fl (\<lambda>_. 0) s1" "limbo pds fl (\<lambda>_. 0) s1 p" "vm_frame s s1" "pmem s1 p = (\<lambda>_. 0)"
      "page_free p s1 = Inr ((), push_page p s1)" "\<forall>pd\<in>pds. \<forall>va<UTOP. look s1 pd va = look s pd va" by auto
  have un: "uninit s1 \<noteq> 0" using ok s1(3) by (simp add: vm_ok_def vm_frame_iff)
  have ins: "insertable pds fl (\<lambda>_. 0) s1 p" by (rule limbo_insertable [OF s1(2)])
  have "mappings pds s1 p = {}" using s1(2) by (simp add: limbo_def)
  then have m: "mappable pds s1 p" using s1(1) ins by (auto simp: mappable_def)
  have ok1: "vm_ok pds s1" using s1(1) un by (auto simp: vm_ok_def)
  from page_insert_law [OF ok1 pd perm m] show ?thesis
  proof
    assume "page_insert pd p va perm s1 = Inr (- E_NO_MEM, s1) \<and> page_free_list s1 = None"
    moreover have "vm_ok pds (push_page p s1)" using vm_inv_push [OF s1(1,2)] un by (auto simp: vm_ok_def)
    moreover have "vm_frame s (push_page p s1)" using s1(3) by (simp add: vm_frame_iff push_page_def set_page_def)
    moreover have "look (push_page p s1) = look s1"
      by (simp add: look_def fun_eq_iff view_simps [of "push_page p s1" s1])
    ultimately show ?thesis using s1(5,6) by auto
  next
    assume "\<exists>s'. page_insert pd p va perm s1 = Inr (0, s') \<and> vm_ok pds s' \<and> vm_frame s1 s' \<and>
      (\<forall>pd'\<in>pds. \<forall>va'<UTOP. look s' pd' va' =
         (if pd' = pd \<and> PGNUM va' = PGNUM va then Some (page2pa p OR perm OR PTE_P) else look s1 pd' va'))"
    then obtain s' where s': "page_insert pd p va perm s1 = Inr (0, s')" "vm_ok pds s'" "vm_frame s1 s'"
      "\<forall>pd'\<in>pds. \<forall>va'<UTOP. look s' pd' va' =
         (if pd' = pd \<and> PGNUM va' = PGNUM va then Some (page2pa p OR perm OR PTE_P) else look s1 pd' va')" by blast
    have "pmem s' p = (\<lambda>_. 0)" using page_insert_data [OF s1(1) pd ins s'(1)] s1(4) by simp
    then show ?thesis using s' vm_frame_trans [OF s1(3) s'(3)] s1(6) by auto
  qed
qed

section \<open>System calls on address spaces\<close>

text \<open>The environments a caller may change: itself and its children.\<close>

definition authority :: "kstate \<Rightarrow> nat \<Rightarrow> nat \<Rightarrow> bool" where
  "authority s c e \<longleftrightarrow> live s e \<and> (e = c \<or> env_parent_id (envs s e) = env_id (envs s c))"

lemma envid2env_auth:
  assumes "caller s c"
  obtains "envid2env envid True s = Inr ((- E_BAD_ENV, None), s)"
    | e where "envid2env envid True s = Inr ((0, Some e), s)" "authority s c e"
  using envid2env_cases [OF assms, of envid True] unfolding authority_def by blast

lemma sys_page_alloc_spec:
  assumes inv: "k_inv s" and c: "caller s c"
  shows "sys_page_alloc envid va perm s = Inr (- E_INVAL, s) \<and> (va \<ge> UTOP \<or> va mod PGSIZE \<noteq> 0 \<or> PTE_bad_perm perm) \<or>
    sys_page_alloc envid va perm s = Inr (- E_BAD_ENV, s) \<and> envid2env envid True s = Inr ((- E_BAD_ENV, None), s) \<or>
    (\<exists>s'. sys_page_alloc envid va perm s = Inr (- E_NO_MEM, s') \<and> k_inv s' \<and> vm_frame s s' \<and>
       (\<forall>pd\<in>pgdirs s. \<forall>va<UTOP. look s' pd va = look s pd va)) \<or>
    (\<exists>e pd p s'. sys_page_alloc envid va perm s = Inr (0, s') \<and> va < UTOP \<and> \<not> PTE_bad_perm perm \<and>
       envid2env envid True s = Inr ((0, Some e), s) \<and> authority s c e \<and> env_pgdir (envs s e) = Some pd \<and>
       k_inv s' \<and> vm_frame s s' \<and> p \<in> free_set s \<and> pmem s' p = (\<lambda>_. 0) \<and>
       (\<forall>pd'\<in>pgdirs s. \<forall>va'<UTOP. look s' pd' va' =
          (if pd' = pd \<and> PGNUM va' = PGNUM va then Some (page2pa p OR perm OR PTE_P) else look s pd' va')))"
proof (cases "va \<ge> UTOP \<or> va mod PGSIZE \<noteq> 0 \<or> PTE_bad_perm perm")
  case True
  then show ?thesis by (auto simp: sys_page_alloc_def)
next
  case False
  then have ok: "\<not> (va \<ge> UTOP \<or> va mod PGSIZE \<noteq> 0)" "\<not> PTE_bad_perm perm" and va: "va < UTOP" by auto
  note body = sys_page_alloc_def [of envid va perm s, unfolded if_not_P [OF ok(1)] if_not_P [OF ok(2)]]
  from c show ?thesis
  proof (cases rule: envid2env_auth [where envid = envid, consumes 1])
    case 1
    then show ?thesis using body err_consts by simp
  next
    case (2 e)
    then have "live s e" by (simp add: authority_def)
    then obtain pd where pd: "env_pgdir (envs s e) = Some pd" "pd \<in> pgdirs s" by (rule k_inv_pgdir [OF inv])
    note vm = k_inv_ok [OF inv]
    from page_alloc_zero_spec [OF vm] show ?thesis
    proof (elim disjE exE conjE)
      assume "page_alloc ALLOC_ZERO s = Inr (None, s)"
      then show ?thesis using body 2 inv by simp
    next
      fix p s1 fl assume al: "page_alloc ALLOC_ZERO s = Inr (Some p, s1)" and p: "p \<in> free_set s" and fr: "vm_frame s s1"
      have run: "sys_page_alloc envid va perm s = bindS (page_insert pd p va perm s1)
          (\<lambda>r s. if r = 0 then Inr (0, s) else bindS (page_free p s) (\<lambda>_ s. Inr (- E_NO_MEM, s)))"
        using body 2 al pd(1) vm_frame_k(1) [OF fr] by (simp add: deref_def)
      from alloc_insert_spec [OF vm pd(2) va bad_perm_flags [OF ok(2)] al] show ?thesis
      proof (elim disjE exE conjE)
        fix s' assume "page_insert pd p va perm s1 = Inr (- E_NO_MEM, s1)" "page_free p s1 = Inr ((), s')"
          "vm_ok (pgdirs s) s'" "vm_frame s s'" "\<forall>pd\<in>pgdirs s. \<forall>va<UTOP. look s' pd va = look s pd va"
        then show ?thesis using run err_consts k_inv_page_op [OF inv] by simp
      next
        fix s' assume s': "page_insert pd p va perm s1 = Inr (0, s')" "vm_ok (pgdirs s) s'" "vm_frame s s'" "pmem s' p = (\<lambda>_. 0)"
          "\<forall>pd'\<in>pgdirs s. \<forall>va'<UTOP. look s' pd' va' =
            (if pd' = pd \<and> PGNUM va' = PGNUM va then Some (page2pa p OR perm OR PTE_P) else look s pd' va')"
        then have "sys_page_alloc envid va perm s = Inr (0, s')" "k_inv s'" using run k_inv_page_op [OF inv] by simp_all
        then show ?thesis using s' 2 pd p ok(2) va by blast
      qed
    qed
  qed
qed

text \<open>A page that is mapped somewhere gets one more mapping.\<close>

lemma insert_shared:
  assumes inv: "k_inv s" and refs: "refs_ok s" and src: "spd \<in> pgdirs s" "srcva < UTOP" "look s spd srcva = Some w"
    and dst: "dpd \<in> pgdirs s" "dstva < UTOP" and perm: "flags_only perm"
  shows "page_insert dpd (PGNUM w) dstva perm s = Inr (- E_NO_MEM, s) \<and> page_free_list s = None \<or>
    (\<exists>s'. page_insert dpd (PGNUM w) dstva perm s = Inr (0, s') \<and> k_inv s' \<and> vm_frame s s' \<and>
       (\<forall>pd'\<in>pgdirs s. \<forall>va'<UTOP. look s' pd' va' =
         (if pd' = dpd \<and> PGNUM va' = PGNUM dstva then Some (page2pa (PGNUM w) OR perm OR PTE_P) else look s pd' va')))"
proof -
  note vm = k_inv_ok [OF inv]
  then obtain fl where fl: "vm_inv (pgdirs s) fl (\<lambda>_. 0) s" by (auto simp: vm_ok_def)
  have "insertable (pgdirs s) fl (\<lambda>_. 0) s (PGNUM w)"
    using mapped_insertable [OF fl slots_va [OF src(1,2)]] src(3) by (simp add: look_def)
  then have "mappable (pgdirs s) s (PGNUM w)" using fl refs unfolding mappable_def refs_ok_def by blast
  from page_insert_law [OF vm dst perm this] k_inv_page_op [OF inv] show ?thesis by blast
qed

lemma page_lookup_look:
  assumes inv: "k_inv s" and pd: "pd \<in> pgdirs s" "va < UTOP"
  obtains "page_lookup pd va s = Inr ((None, None), s)" "look s pd va = None"
    | w q where "page_lookup pd va s = Inr ((Some (PGNUM w), Some q), s)" "look s pd va = Some w" "load q s = w"
proof -
  obtain fl where fl: "vm_inv (pgdirs s) fl (\<lambda>_. 0) s" and un: "uninit s \<noteq> 0"
    using k_inv_ok [OF inv] by (auto simp: vm_ok_def)
  note run = page_lookup_spec [OF fl pd]
  show thesis
  proof (cases "look s pd va")
    case None
    then show thesis using that(1) run by (simp add: look_def)
  next
    case (Some w)
    then obtain pt where "pt_of s pd (PDX va) = Some pt" "pmem s pt (PTX va) = w"
      by (auto simp: look_def pg_of_def split: option.splits if_splits)
    then show thesis using that(2) [of w "(pt, PTX va)"] Some run un by (simp add: look_def load_def)
  qed
qed

lemma sys_page_map_invalid:
  "srcva \<ge> UTOP \<or> dstva \<ge> UTOP \<or> srcva mod PGSIZE \<noteq> 0 \<or> dstva mod PGSIZE \<noteq> 0 \<or> PTE_bad_perm perm \<Longrightarrow>
   sys_page_map srcid srcva dstid dstva perm s = Inr (- E_INVAL, s)"
  by (elim disjE) (simp_all add: sys_page_map_def)

lemma sys_page_map_run:
  assumes inv: "k_inv s" and ok: "\<not> (srcva \<ge> UTOP \<or> dstva \<ge> UTOP \<or> srcva mod PGSIZE \<noteq> 0 \<or> dstva mod PGSIZE \<noteq> 0)"
      "\<not> PTE_bad_perm perm"
    and src: "envid2env srcid True s = Inr ((0, Some src), s)" "env_pgdir (envs s src) = Some spd" "spd \<in> pgdirs s"
    and dst: "envid2env dstid True s = Inr ((0, Some dst), s)"
  shows "sys_page_map srcid srcva dstid dstva perm s =
    (case look s spd srcva of
       None \<Rightarrow> Inr (- E_INVAL, s)
     | Some w \<Rightarrow> if perm AND PTE_W \<noteq> 0 \<and> w AND PTE_W = 0 then Inr (- E_INVAL, s)
                 else page_map_insert (Some dst) (PGNUM w) dstva perm s)"
proof -
  have va: "srcva < UTOP" using ok(1) by auto
  note body = sys_page_map_def [of srcid srcva dstid dstva perm s, unfolded if_not_P [OF ok(1)] if_not_P [OF ok(2)]]
  have "\<And>f. bindS (deref (Some src) s) f = f src s" "\<And>f. bindS (deref (Some spd) s) f = f spd s"
    by (simp_all add: deref_def)
  note body = body [unfolded src dst bindS_Inr split this]
  from inv src(3) va show ?thesis
  proof (cases rule: page_lookup_look)
    case 1
    then show ?thesis using body src(2) by (simp add: deref_def)
  next
    case (2 w q)
    then show ?thesis using body src(2) by (simp add: deref_def)
  qed
qed

lemma page_map_insert_spec:
  assumes inv: "k_inv s" and refs: "refs_ok s" and src: "spd \<in> pgdirs s" "srcva < UTOP" "look s spd srcva = Some w"
    and dst: "env_pgdir (envs s dst) = Some dpd" "dpd \<in> pgdirs s" "dstva < UTOP" and perm: "flags_only perm"
  shows "page_map_insert (Some dst) (PGNUM w) dstva perm s = Inr (- E_NO_MEM, s) \<and> page_free_list s = None \<or>
    (\<exists>s'. page_map_insert (Some dst) (PGNUM w) dstva perm s = Inr (0, s') \<and> k_inv s' \<and> vm_frame s s' \<and>
       (\<forall>pd'\<in>pgdirs s. \<forall>va'<UTOP. look s' pd' va' =
         (if pd' = dpd \<and> PGNUM va' = PGNUM dstva then Some (page2pa (PGNUM w) OR perm OR PTE_P) else look s pd' va')))"
proof -
  have run: "page_map_insert (Some dst) (PGNUM w) dstva perm s =
      bindS (page_insert dpd (PGNUM w) dstva perm s) (\<lambda>r s. if r < 0 then Inr (- E_NO_MEM, s) else Inr (0, s))"
    using dst(1) by (simp add: page_map_insert_def deref_def)
  from insert_shared [OF inv refs src dst(2,3) perm] show ?thesis
    unfolding run using err_consts by auto
qed

lemma sys_page_map_spec:
  assumes inv: "k_inv s" and refs: "refs_ok s" and c: "caller s c"
  shows "sys_page_map srcid srcva dstid dstva perm s = Inr (- E_INVAL, s) \<or>
    sys_page_map srcid srcva dstid dstva perm s = Inr (- E_BAD_ENV, s) \<or>
    sys_page_map srcid srcva dstid dstva perm s = Inr (- E_NO_MEM, s) \<and> page_free_list s = None \<or>
    (\<exists>src dst spd dpd w s'. sys_page_map srcid srcva dstid dstva perm s = Inr (0, s') \<and>
       srcva < UTOP \<and> dstva < UTOP \<and> \<not> PTE_bad_perm perm \<and>
       envid2env srcid True s = Inr ((0, Some src), s) \<and> authority s c src \<and>
       envid2env dstid True s = Inr ((0, Some dst), s) \<and> authority s c dst \<and>
       env_pgdir (envs s src) = Some spd \<and> env_pgdir (envs s dst) = Some dpd \<and> look s spd srcva = Some w \<and>
       (perm AND PTE_W \<noteq> 0 \<longrightarrow> w AND PTE_W \<noteq> 0) \<and> k_inv s' \<and> vm_frame s s' \<and>
       (\<forall>pd'\<in>pgdirs s. \<forall>va'<UTOP. look s' pd' va' =
          (if pd' = dpd \<and> PGNUM va' = PGNUM dstva then Some (page2pa (PGNUM w) OR perm OR PTE_P) else look s pd' va')))"
    (is "?inval \<or> ?bad \<or> ?mem \<or> ?succ")
proof (cases "srcva \<ge> UTOP \<or> dstva \<ge> UTOP \<or> srcva mod PGSIZE \<noteq> 0 \<or> dstva mod PGSIZE \<noteq> 0 \<or> PTE_bad_perm perm")
  case True
  then show ?thesis using sys_page_map_invalid by blast
next
  case False
  then have ok: "\<not> (srcva \<ge> UTOP \<or> dstva \<ge> UTOP \<or> srcva mod PGSIZE \<noteq> 0 \<or> dstva mod PGSIZE \<noteq> 0)" "\<not> PTE_bad_perm perm"
    and va: "srcva < UTOP" "dstva < UTOP" by auto
  note body = sys_page_map_def [of srcid srcva dstid dstva perm s, unfolded if_not_P [OF ok(1)] if_not_P [OF ok(2)]]
  have bad: "?bad" if "envid2env srcid True s = Inr ((- E_BAD_ENV, None), s)"
    unfolding body using that err_consts by simp
  have bad2: "?bad" if "envid2env srcid True s = Inr ((0, Some src), s)" "envid2env dstid True s = Inr ((- E_BAD_ENV, None), s)" for src
    unfolding body using that err_consts by simp
  consider "?bad" | src dst where "envid2env srcid True s = Inr ((0, Some src), s)" "authority s c src"
      "envid2env dstid True s = Inr ((0, Some dst), s)" "authority s c dst"
    using envid2env_auth [OF c, of srcid] envid2env_auth [OF c, of dstid] bad bad2 by metis
  then show ?thesis
  proof cases
    case (2 src dst)
    have l: "live s src" "live s dst" using 2 by (simp_all add: authority_def)
    obtain spd where spd: "env_pgdir (envs s src) = Some spd" "spd \<in> pgdirs s" by (rule k_inv_pgdir [OF inv l(1)])
    obtain dpd where dpd: "env_pgdir (envs s dst) = Some dpd" "dpd \<in> pgdirs s" by (rule k_inv_pgdir [OF inv l(2)])
    note run = sys_page_map_run [OF inv ok 2(1) spd 2(3)]
    show ?thesis
    proof (cases "look s spd srcva")
      case None
      then show ?thesis using run by simp
    next
      case (Some w)
      note w = this
      show ?thesis
      proof (cases "perm AND PTE_W \<noteq> 0 \<and> w AND PTE_W = 0")
        case True
        then show ?thesis using run w by simp
      next
        case False
        then have "sys_page_map srcid srcva dstid dstva perm s = page_map_insert (Some dst) (PGNUM w) dstva perm s"
          using run w by auto
        from page_map_insert_spec [OF inv refs spd(2) va(1) w dpd va(2) bad_perm_flags [OF ok(2)], folded this]
        show ?thesis
        proof
          assume "\<exists>s'. sys_page_map srcid srcva dstid dstva perm s = Inr (0, s') \<and> k_inv s' \<and> vm_frame s s' \<and>
            (\<forall>pd'\<in>pgdirs s. \<forall>va'<UTOP. look s' pd' va' =
              (if pd' = dpd \<and> PGNUM va' = PGNUM dstva then Some (page2pa (PGNUM w) OR perm OR PTE_P) else look s pd' va'))"
          then have ?succ using 2 spd(1) dpd(1) va ok(2) w False by blast
          then show ?thesis by blast
        qed blast
      qed
    qed
  qed blast
qed

lemma sys_page_unmap_spec:
  assumes inv: "k_inv s" and c: "caller s c"
  shows "sys_page_unmap envid va s = Inr (- E_INVAL, s) \<and> (va \<ge> UTOP \<or> va mod PGSIZE \<noteq> 0) \<or>
    sys_page_unmap envid va s = Inr (- E_BAD_ENV, s) \<and> envid2env envid True s = Inr ((- E_BAD_ENV, None), s) \<or>
    (\<exists>e pd s'. sys_page_unmap envid va s = Inr (0, s') \<and> va < UTOP \<and>
       envid2env envid True s = Inr ((0, Some e), s) \<and> authority s c e \<and> env_pgdir (envs s e) = Some pd \<and> k_inv s' \<and> vm_kept (pgdirs s) s s' \<and>
       (\<forall>pd'\<in>pgdirs s. \<forall>va'<UTOP. look s' pd' va' =
          (if pd' = pd \<and> PGNUM va' = PGNUM va then None else look s pd' va')))"
proof (cases "va \<ge> UTOP \<or> va mod PGSIZE \<noteq> 0")
  case True
  then show ?thesis by (auto simp: sys_page_unmap_def)
next
  case False
  then have va: "va < UTOP" by auto
  note body = sys_page_unmap_def [of envid va s, unfolded if_not_P [OF False]]
  show ?thesis
  proof (cases rule: envid2env_auth [OF c, of envid])
    case 1
    then show ?thesis unfolding body using err_consts by simp
  next
    case (2 e)
    then have "live s e" by (simp add: authority_def)
    then obtain pd where pd: "env_pgdir (envs s e) = Some pd" "pd \<in> pgdirs s" by (rule k_inv_pgdir [OF inv])
    from page_remove_law [OF k_inv_ok [OF inv] pd(2) va] obtain s' where
      s': "page_remove pd va s = Inr ((), s')" "vm_ok (pgdirs s) s'" "vm_kept (pgdirs s) s s'"
        "\<forall>pd'\<in>pgdirs s. \<forall>va'<UTOP. look s' pd' va' = (if pd' = pd \<and> PGNUM va' = PGNUM va then None else look s pd' va')"
      by blast
    have "sys_page_unmap envid va s = Inr (0, s')" using body 2(1) pd(1) s'(1) by (simp add: deref_def)
    moreover have "k_inv s'" using k_inv_page_op [OF inv s'(2)] s'(3) by (simp add: vm_kept_def)
    ultimately show ?thesis using s' 2 pd(1) va by blast
  qed
qed

section \<open>Messages\<close>

lemma k_inv_ipc_deliver:
  assumes "k_inv s" "live s e"
  shows "k_inv (res_state (ipc_deliver e value perm s))"
  using assms by (cases "curenv s")
    (simp_all add: ipc_deliver_def deref_def k_inv_set_env same_env_def live_def status_consts)

definition delivered :: "nat \<Rightarrow> 32 word \<Rightarrow> 32 word \<Rightarrow> 32 word \<Rightarrow> Env \<Rightarrow> Env" where
  "delivered e sender value perm v =
     v\<lparr>env_ipc_perm := perm, env_ipc_recving := False, env_ipc_value := value, env_ipc_from := sender,
       env_status := ENV_RUNNABLE, env_tf := (env_tf v)\<lparr>tf_regs := (tf_regs (env_tf v))\<lparr>reg_eax := 0\<rparr>\<rparr>\<rparr>"

lemma ipc_deliver_run:
  "curenv s = Some c \<Longrightarrow>
   ipc_deliver e value perm s = Inr (0, set_env e (delivered e (env_id (envs s c)) value perm) s)"
  by (simp add: ipc_deliver_def deref_def delivered_def [abs_def])

text \<open>The part of \<open>sys_ipc_try_send\<close> that transfers a page.\<close>

lemma ipc_send_page_run:
  assumes inv: "k_inv s" and c: "caller s c" and e: "envid2env envid False s = Inr ((0, Some e), s)"
    and rv: "env_ipc_recving (envs s e)" and va: "srcva < UTOP" "srcva mod PGSIZE = 0" "env_ipc_dstva (envs s e) < UTOP"
    and perm: "\<not> PTE_bad_perm perm" and pd: "env_pgdir (envs s c) = Some pd" "pd \<in> pgdirs s"
    and tpd: "env_pgdir (envs s e) = Some tpd"
  shows "sys_ipc_try_send envid value srcva perm s =
    (case look s pd srcva of
       None \<Rightarrow> Inr (- E_INVAL, s)
     | Some w \<Rightarrow> if perm AND PTE_W = 0 \<or> w AND PTE_W = 0 then Inr (- E_INVAL, s)
                 else bindS (page_insert tpd (PGNUM w) (env_ipc_dstva (envs s e)) perm s) (\<lambda>r s.
                        if r < 0 then Inr (- E_NO_MEM, s) else ipc_deliver e value perm s))"
  using inv pd(2) va(1)
proof (cases rule: page_lookup_look)
  case 1
  then show ?thesis
    using e rv va perm pd caller_deref [OF c] by (simp add: sys_ipc_try_send_def) (simp add: deref_def)
next
  case (2 w q)
  then show ?thesis
    using e rv va perm pd tpd caller_deref [OF c] by (simp add: sys_ipc_try_send_def) (simp add: deref_def)
qed

lemma look_set_env [simp]: "look (set_env e f s) = look s"
  by (simp add: look_def fun_eq_iff view_simps [of "set_env e f s" s])

lemma live_frame: "vm_frame s s' \<Longrightarrow> live s' e = live s e"
  using vm_frame_k(1) [of s s'] by (simp add: live_def)

lemma sys_ipc_try_send_spec:
  assumes inv: "k_inv s" and refs: "refs_ok s" and c: "caller s c"
  shows "(\<exists>r\<in>{- E_BAD_ENV, - E_IPC_NOT_RECV, - E_INVAL, - E_NO_MEM}. sys_ipc_try_send envid value srcva perm s = Inr (r, s)) \<or>
    (\<exists>e. sys_ipc_try_send envid value srcva perm s =
         Inr (0, set_env e (delivered e (env_id (envs s c)) value 0) s) \<and>
       envid2env envid False s = Inr ((0, Some e), s) \<and> live s e \<and> env_ipc_recving (envs s e) \<and>
       (UTOP \<le> srcva \<or> UTOP \<le> env_ipc_dstva (envs s e))) \<or>
    (\<exists>e pd tpd w s1. sys_ipc_try_send envid value srcva perm s =
         Inr (0, set_env e (delivered e (env_id (envs s c)) value perm) s1) \<and>
       envid2env envid False s = Inr ((0, Some e), s) \<and> live s e \<and> env_ipc_recving (envs s e) \<and>
       srcva < UTOP \<and> env_ipc_dstva (envs s e) < UTOP \<and> \<not> PTE_bad_perm perm \<and>
       env_pgdir (envs s c) = Some pd \<and> env_pgdir (envs s e) = Some tpd \<and> look s pd srcva = Some w \<and>
       perm AND PTE_W \<noteq> 0 \<and> w AND PTE_W \<noteq> 0 \<and> k_inv s1 \<and> vm_frame s s1 \<and>
       (\<forall>pd'\<in>pgdirs s. \<forall>va'<UTOP. look s1 pd' va' =
          (if pd' = tpd \<and> PGNUM va' = PGNUM (env_ipc_dstva (envs s e))
           then Some (page2pa (PGNUM w) OR perm OR PTE_P) else look s pd' va')))"
    (is "?err \<or> ?plain \<or> ?page")
proof (cases rule: envid2env_cases [OF c, of envid False])
  case 1
  then show ?thesis using err_consts by (simp add: sys_ipc_try_send_def)
next
  case (2 e)
  have cur: "curenv s = Some c" "live s c" using c by (simp_all add: caller_def)
  have d: "deref (Some e) s = Inr (e, s)" by (simp add: deref_def)
  note body = 2(1) d
  consider "\<not> env_ipc_recving (envs s e) \<or> (srcva < UTOP \<and> srcva mod PGSIZE \<noteq> 0) \<or>
        (srcva < UTOP \<and> env_ipc_dstva (envs s e) < UTOP \<and> PTE_bad_perm perm)"
    | "env_ipc_recving (envs s e)" "UTOP \<le> srcva \<or> UTOP \<le> env_ipc_dstva (envs s e)" "\<not> (srcva < UTOP \<and> srcva mod PGSIZE \<noteq> 0)"
    | "env_ipc_recving (envs s e)" "srcva < UTOP" "srcva mod PGSIZE = 0" "env_ipc_dstva (envs s e) < UTOP" "\<not> PTE_bad_perm perm"
    by fastforce
  then show ?thesis
  proof cases
    case 1
    then have ?err using body by (auto simp: sys_ipc_try_send_def)
    then show ?thesis ..
  next
    case 2
    then consider "\<not> srcva < UTOP" | "\<not> env_ipc_dstva (envs s e) < UTOP" "srcva < UTOP" "srcva mod PGSIZE = 0" by fastforce
    then have "sys_ipc_try_send envid value srcva perm s = ipc_deliver e value 0 s"
      by cases (use body 2(1) in \<open>simp_all add: sys_ipc_try_send_def\<close>)
    then have ?plain using ipc_deliver_run [OF cur(1)] 2 \<open>live s e\<close> body(1) by auto
    then show ?thesis by blast
  next
    case 3
    obtain pd where pd: "env_pgdir (envs s c) = Some pd" "pd \<in> pgdirs s" by (rule k_inv_pgdir [OF inv cur(2)])
    obtain tpd where tpd: "env_pgdir (envs s e) = Some tpd" "tpd \<in> pgdirs s" by (rule k_inv_pgdir [OF inv 2(2)])
    note run = ipc_send_page_run [OF inv c 2(1) 3 pd tpd(1), of "value"]
    consider "look s pd srcva = None" | w where "look s pd srcva = Some w" "perm AND PTE_W = 0 \<or> w AND PTE_W = 0"
      | w where "look s pd srcva = Some w" "perm AND PTE_W \<noteq> 0" "w AND PTE_W \<noteq> 0" by (cases "look s pd srcva") auto
    then show ?thesis
    proof cases
      case w: (3 w)
      let ?d = "env_ipc_dstva (envs s e)"
      from insert_shared [OF inv refs pd(2) 3(2) w(1) tpd(2) 3(4) bad_perm_flags [OF 3(5)]] show ?thesis
      proof (elim disjE exE conjE)
        fix s1 assume s1: "page_insert tpd (PGNUM w) ?d perm s = Inr (0, s1)" "k_inv s1" "vm_frame s s1"
          "\<forall>pd'\<in>pgdirs s. \<forall>va'<UTOP. look s1 pd' va' = (if pd' = tpd \<and> PGNUM va' = PGNUM ?d
             then Some (page2pa (PGNUM w) OR perm OR PTE_P) else look s pd' va')"
        have "curenv s1 = Some c" "envs s1 = envs s" using vm_frame_k [OF s1(3)] cur(1) by simp_all
        then have "sys_ipc_try_send envid value srcva perm s =
            Inr (0, set_env e (delivered e (env_id (envs s c)) value perm) s1)"
          using run w s1(1) ipc_deliver_run [of s1 c e "value" perm] by simp
        then have ?page using s1 2(1,2) 3 pd tpd w by blast
        then show ?thesis by blast
      qed (use run w err_consts in simp)
    qed (use run in simp_all)
  qed
qed

section \<open>Every system call keeps the invariant\<close>

named_theorems sys_inv \<open>the invariant is kept by each system call\<close>

lemma k_inv_print_chars: "k_inv s \<Longrightarrow> k_inv (res_state (print_chars n precision p s))"
proof (induction n arbitrary: precision p s)
  case (Suc n)
  have out: "k_inv (s'\<lparr>cons_out := x\<rparr>)" if "k_inv s'" for s' x
    by (rule k_inv_eq [OF that]) (simp_all add: same_mem_def)
  have "k_inv (res_state (read_byte p s))" using Suc.prems by (simp add: read_byte_state)
  then show ?case
    by (auto intro!: k_inv_bindS Suc.IH out split: option.split nat.split)
qed simp

lemma k_inv_sys_cputs [sys_inv]: "k_inv s \<Longrightarrow> caller s c \<Longrightarrow> k_inv (res_state (sys_cputs p len s))"
  unfolding sys_cputs_def
proof (rule k_inv_bindS)
  assume inv: "k_inv s" and c: "caller s c"
  show "k_inv (res_state (deref (curenv s) s))" using inv c by (simp add: caller_deref)
  fix a s' assume a: "deref (curenv s) s = Inr (a, s')" and inv': "k_inv s'"
  then have "live s' a" using c by (simp add: caller_deref) (simp add: caller_def)
  moreover have "k_inv (res_state (print_str p len t))" if "k_inv t" for t
    using that k_inv_eq [OF that, of "t\<lparr>cons_out := x\<rparr>" for x]
    by (auto simp: print_str_def same_mem_def intro!: k_inv_print_chars)
  ultimately show "k_inv (res_state (bindS (user_mem_assert a p len PTE_U s') (\<lambda>_. print_str p len)))"
    using inv' by (intro k_inv_bindS k_inv_user_mem_assert)
qed

lemma cons_intr_frame:
  "envs (cons_intr cs s) = envs s \<and> env_free_list (cons_intr cs s) = env_free_list s \<and> same_mem s (cons_intr cs s)"
  unfolding cons_intr_def
  by (induction cs arbitrary: s) (simp_all add: cons_put1_def Let_def same_mem_def)

lemma serial_intr_frame:
  "envs (serial_intr s) = envs s" "env_free_list (serial_intr s) = env_free_list s" "same_mem s (serial_intr s)"
  using cons_intr_frame [of "serial_in s" s] by (simp_all add: serial_intr_def same_mem_def)

lemma kbd_intr_frame:
  "envs (kbd_intr s) = envs s" "env_free_list (kbd_intr s) = env_free_list s" "same_mem s (kbd_intr s)"
  using cons_intr_frame [of _ s]
  by (cases "kbd_decode (kbd_shift s) (kbd_in s)"; simp add: kbd_intr_def same_mem_def)+

lemma cons_getc_frame:
  "envs (snd (cons_getc s)) = envs s" "env_free_list (snd (cons_getc s)) = env_free_list s" "same_mem s (snd (cons_getc s))"
  using serial_intr_frame [of s] kbd_intr_frame [of "serial_intr s"]
  unfolding cons_getc_def Let_def same_mem_def by simp_all

lemma k_inv_sys_cgetc [sys_inv]: "k_inv s \<Longrightarrow> k_inv (res_state (sys_cgetc s))"
  using k_inv_eq [OF _ cons_getc_frame, of s] by (simp add: sys_cgetc_def split: prod.split) (simp add: prod_eq_iff)

lemma k_inv_sys_getenvid [sys_inv]: "k_inv s \<Longrightarrow> k_inv (res_state (sys_getenvid s))"
  by (simp add: sys_getenvid_def deref_def split: option.split)

lemma k_inv_envid2env: "k_inv s \<Longrightarrow> k_inv (res_state (envid2env envid cp s))"
  by (auto simp: envid2env_def deref_def Let_def split: option.split)

text \<open>The pattern shared by the calls that work on one environment.\<close>

lemma k_inv_with_env:
  assumes inv: "k_inv s" and c: "caller s c" and f: "\<And>r. r < 0 \<Longrightarrow> k_inv (res_state (f (r, None) s))"
    and g: "\<And>e. live s e \<Longrightarrow> k_inv (res_state (f (0, Some e) s))"
  shows "k_inv (res_state (bindS (envid2env envid cp s) f))"
  using f g by (cases rule: envid2env_cases [OF c, of envid cp]) (auto simp: err_consts)

lemma k_inv_sys_env_destroy [sys_inv]:
  "k_inv s \<Longrightarrow> caller s c \<Longrightarrow> k_inv (res_state (sys_env_destroy envid s))"
  unfolding sys_env_destroy_def
  by (rule k_inv_with_env [where c = c]) (auto simp: deref_def intro!: k_inv_bindS k_inv_env_destroy)

lemma k_inv_sys_env_set_status [sys_inv]:
  "k_inv s \<Longrightarrow> caller s c \<Longrightarrow> k_inv (res_state (sys_env_set_status envid status s))"
  unfolding sys_env_set_status_def
  by (auto intro!: k_inv_with_env [where c = c] k_inv_set_env simp: deref_def same_env_def live_def status_consts)

lemma k_inv_sys_env_set_pgfault_upcall [sys_inv]:
  "k_inv s \<Longrightarrow> caller s c \<Longrightarrow> k_inv (res_state (sys_env_set_pgfault_upcall envid func s))"
  unfolding sys_env_set_pgfault_upcall_def
  by (rule k_inv_with_env [where c = c]) (auto simp: deref_def same_env_def intro!: k_inv_set_env)

lemma k_inv_sys_env_set_trapframe [sys_inv]:
  "k_inv s \<Longrightarrow> caller s c \<Longrightarrow> k_inv (res_state (sys_env_set_trapframe envid tf s))"
  unfolding sys_env_set_trapframe_def
  by (rule k_inv_with_env [where c = c])
    (auto simp: deref_def same_env_def read_bytes_state intro!: k_inv_bindS k_inv_set_env)

lemma k_inv_sys_exofork [sys_inv]: "k_inv s \<Longrightarrow> caller s c \<Longrightarrow> k_inv (res_state (sys_exofork s))"
proof -
  assume inv: "k_inv s" and c: "caller s c"
  have "k_inv (res_state (env_alloc parent s))" for parent
    using env_alloc_spec [OF inv, of parent] inv by auto
  moreover have "env_status (envs s1 e) = ENV_RUNNABLE" if "env_alloc parent s = Inr ((0, Some e), s1)" for parent e s1
    using env_alloc_spec [OF inv, of parent] that by (auto simp: created_env_def new_env_def E_NO_MEM_def E_NO_FREE_ENV_def)
  moreover have "e \<noteq> None" if "env_alloc parent s = Inr ((0, e), s1)" for parent e s1
    using env_alloc_spec [OF inv, of parent] that by (auto simp: E_NO_MEM_def E_NO_FREE_ENV_def)
  ultimately show ?thesis
    unfolding sys_exofork_def caller_deref [OF c] bindS_Inr
    by (intro k_inv_bindS)
      (auto simp: deref_def Let_def same_env_def status_consts intro!: k_inv_set_env split: option.split)
qed

lemma k_inv_sys_yield [sys_inv]: "k_inv s \<Longrightarrow> k_inv (res_state (sys_yield s))"
  by (simp add: sys_yield_def k_inv_sched_yield)

lemma k_inv_sys_ipc_recv [sys_inv]: "k_inv s \<Longrightarrow> caller s c \<Longrightarrow> k_inv (res_state (sys_ipc_recv dstva s))"
  unfolding sys_ipc_recv_def
  by (auto simp: deref_def Let_def same_env_def caller_def live_def status_consts
      intro!: k_inv_bindS k_inv_sched_yield k_inv_set_env)

lemma k_inv_sys_page_alloc [sys_inv]:
  "k_inv s \<Longrightarrow> caller s c \<Longrightarrow> k_inv (res_state (sys_page_alloc envid va perm s))"
  using sys_page_alloc_spec [of s c envid va perm] by auto

lemma k_inv_sys_page_map [sys_inv]:
  "k_inv s \<Longrightarrow> refs_ok s \<Longrightarrow> caller s c \<Longrightarrow> k_inv (res_state (sys_page_map srcid srcva dstid dstva perm s))"
  using sys_page_map_spec [of s c srcid srcva dstid dstva perm] by auto

lemma k_inv_sys_page_unmap [sys_inv]:
  "k_inv s \<Longrightarrow> caller s c \<Longrightarrow> k_inv (res_state (sys_page_unmap envid va s))"
  using sys_page_unmap_spec [of s c envid va] by auto

lemma k_inv_sys_ipc_try_send [sys_inv]:
  assumes "k_inv s" "refs_ok s" "caller s c"
  shows "k_inv (res_state (sys_ipc_try_send envid value srcva perm s))"
proof -
  have "k_inv (set_env e (delivered e sender value perm) t)" if "k_inv t" "live t e" for t e sender perm
    using that by (intro k_inv_set_env) (simp_all add: same_env_def delivered_def live_def status_consts)
  then show ?thesis
    using sys_ipc_try_send_spec [OF assms, of envid "value" srcva perm] assms(1) by (auto simp: live_frame)
qed

lemma k_inv_e1000_transmit: "k_inv s \<Longrightarrow> k_inv (res_state (e1000_transmit addr len s))"
  unfolding e1000_transmit_def Let_def
  by (auto simp: read_bytes_state intro!: k_inv_bindS)
    (rule k_inv_eq, assumption, simp_all add: set_reg_def same_mem_def)

lemma k_inv_sys_e1000_transmit [sys_inv]:
  "k_inv s \<Longrightarrow> caller s c \<Longrightarrow> k_inv (res_state (sys_e1000_transmit addr len s))"
  unfolding sys_e1000_transmit_def
  by (simp add: caller_deref) (auto simp: caller_def intro!: k_inv_bindS k_inv_user_mem_assert k_inv_e1000_transmit)

lemma k_inv_syscall:
  assumes "k_inv s" "refs_ok s" "caller s c"
  shows "k_inv (res_state (syscall n a1 a2 a3 a4 a5 s))"
proof -
  have ret: "k_inv (res_state (ret_int m)) = k_inv (res_state m)" "k_inv (res_state (ret_zero m')) = k_inv (res_state m')"
    for m and m' :: "(kstate, 'a) res"
    by (auto simp: ret_int_def ret_zero_def bindS_def res_state_def split: sum.split)
  show ?thesis
    unfolding syscall_def using assms
    by (auto simp: ret sys_time_msec_def intro!: sys_inv split: option.split sysno.split)
qed

end
