(* ===== verification/SysProps.thy ===== *)
theory SysProps
  imports SysInv
begin

text \<open>
  Properties of the system calls: the invariant is kept, address spaces are isolated, pages and
  messages are passed on as documented, and where the calls depart from their documentation.
\<close>

section \<open>Isolation of address spaces\<close>

text \<open>The user part of the address space of an environment is the same in both states.\<close>

definition same_space :: "kstate \<Rightarrow> kstate \<Rightarrow> nat \<Rightarrow> bool" where
  "same_space s s' e \<longleftrightarrow>
     live s' e \<and> env_pgdir (envs s' e) = env_pgdir (envs s e) \<and>
     (\<forall>pd. env_pgdir (envs s e) = Some pd \<longrightarrow> (\<forall>va<UTOP. look s' pd va = look s pd va))"

lemma same_space_refl [simp]: "same_space s s e \<longleftrightarrow> live s e"
  by (simp add: same_space_def)

lemma same_space_trans: "same_space s s' e \<Longrightarrow> same_space s' s'' e \<Longrightarrow> same_space s s'' e"
  by (auto simp: same_space_def)

text \<open>Steps that neither write memory nor change directories or free an environment.\<close>

definition quiet :: "kstate \<Rightarrow> kstate \<Rightarrow> bool" where
  "quiet s s' \<longleftrightarrow> same_envs s s' \<and> pmem s' = pmem s"

lemma quiet_refl [simp]: "quiet s s"
  by (simp add: quiet_def)

lemma quiet_trans: "quiet s s' \<Longrightarrow> quiet s' s'' \<Longrightarrow> quiet s s''"
  by (auto simp: quiet_def intro: same_envs_trans)

lemma quiet_space:
  assumes "quiet s s'" "live s e" shows "same_space s s' e"
proof -
  have se: "same_envs s s'" and pm: "pmem s' = pmem s" using assms(1) by (simp_all add: quiet_def)
  have "live s' e" using same_envs_live [OF se] assms(2) by simp
  moreover have "env_pgdir (envs s' e) = env_pgdir (envs s e)" using se by (simp add: same_envs_def same_env_def)
  ultimately show ?thesis by (simp add: same_space_def look_def view_simps [OF pm])
qed

lemma quiet_bindS:
  "quiet s (res_state m) \<Longrightarrow> (\<And>a t. m = Inr (a, t) \<Longrightarrow> quiet s t \<Longrightarrow> quiet t (res_state (f a t))) \<Longrightarrow>
   quiet s (res_state (bindS m f))"
  by (rule res_state_bindS) (auto intro: quiet_trans)

lemma quiet_eq: "envs s' = envs s \<Longrightarrow> env_free_list s' = env_free_list s \<Longrightarrow> pmem s' = pmem s \<Longrightarrow> quiet s s'"
  by (simp add: quiet_def same_envs_def same_env_def)

lemma quiet_set_env: "same_env (envs s e) (f (envs s e)) \<Longrightarrow> quiet s (set_env e f s)"
  by (simp add: quiet_def same_envs_set_env)

lemma set_env_twice: "set_env e g (set_env e f s) = set_env e (\<lambda>v. g (f v)) s"
  by (simp add: set_env_def)

lemma quiet_env_run:
  assumes e: "env_status (envs s e) \<noteq> ENV_FREE"
  shows "quiet s (res_state (env_run e s))"
proof -
  define s0 where "s0 = (case curenv s of
      Some c \<Rightarrow> if env_status (envs s c) = ENV_RUNNING then set_env c (\<lambda>v. v\<lparr>env_status := ENV_RUNNABLE\<rparr>) s else s
    | None \<Rightarrow> s)"
  define s1 where "s1 = set_env e (\<lambda>v. v\<lparr>env_status := ENV_RUNNING, env_runs := env_runs v + 1\<rparr>) (set_curenv (Some e) s0)"
  have q0: "quiet s s0"
    unfolding s0_def by (auto simp: same_env_def status_consts intro!: quiet_set_env split: option.split)
  then have "env_status (envs s0 e) \<noteq> ENV_FREE" using e by (simp add: quiet_def same_envs_def same_env_def)
  then have "quiet (set_curenv (Some e) s0) s1"
    unfolding s1_def by (intro quiet_set_env) (simp add: same_env_def status_consts set_curenv_def)
  moreover have "quiet s0 (set_curenv (Some e) s0)" by (rule quiet_eq) (simp_all add: set_curenv_def)
  ultimately have q1: "quiet s s1" using q0 quiet_trans by blast
  have l: "quiet t (lcr3 pd t)" for pd t by (rule quiet_eq) (simp_all add: lcr3_def)
  have u: "quiet t (res_state (unlock_kernel t))" for t by (auto intro!: quiet_eq simp: unlock_kernel_def)
  have p: "quiet t (res_state (env_pop_tf e t))" for t
    by (auto simp: env_pop_tf_def deref_def same_env_def intro!: quiet_set_env split: option.split)
  have "quiet s (res_state (if curenv s \<noteq> Some e
      then bindS (PADDR (env_pgdir (envs s1 e)) s1) (\<lambda>pd s. Inr ((), lcr3 pd s)) else Inr ((), s)))"
    using q1 quiet_trans [OF q1 l] by (cases "env_pgdir (envs s1 e)") (simp_all add: PADDR_def)
  then show ?thesis
    unfolding env_run_def Let_def s0_def [symmetric] s1_def [symmetric]
    by (intro quiet_bindS u p)
qed

lemma quiet_sched_yield: "quiet s (res_state (sched_yield s))"
proof -
  have "quiet s (res_state (sched_halt s))"
    unfolding sched_halt_def Let_def
    by (auto intro!: quiet_bindS quiet_eq simp: unlock_kernel_def lcr3_def set_curenv_def bindS_def)
  then show ?thesis
    unfolding sched_yield_def
    by (auto dest: sched_search_runnable intro!: quiet_env_run simp: status_consts split: option.split)
qed

section \<open>What each call does to the address spaces of others\<close>

text \<open>
  \<open>isolated c s s'\<close>: the address spaces of all environments on which the caller \<open>c\<close> has no authority
  are the same in both states.
\<close>

definition isolated :: "nat \<Rightarrow> kstate \<Rightarrow> kstate \<Rightarrow> bool" where
  "isolated c s s' \<longleftrightarrow> (\<forall>e. live s e \<longrightarrow> \<not> authority s c e \<longrightarrow> same_space s s' e)"

lemma quiet_isolated: "quiet s s' \<Longrightarrow> isolated c s s'"
  by (simp add: isolated_def quiet_space)

lemma isolated_refl [simp]: "isolated c s s"
  by (simp add: isolated_def)

text \<open>Page operations on the directory of an environment within the caller's authority.\<close>

lemma isolated_page_op:
  assumes inv: "k_inv s" and fr: "vm_frame s s'" and a: "authority s c x" "env_pgdir (envs s x) = Some pd"
    and lk: "\<forall>pd'\<in>pgdirs s. \<forall>va'<UTOP. pd' \<noteq> pd \<longrightarrow> look s' pd' va' = look s pd' va'"
  shows "isolated c s s'"
  unfolding isolated_def same_space_def
proof (intro allI impI conjI)
  fix e assume e: "live s e" "\<not> authority s c e"
  show "live s' e" using e(1) live_frame [OF fr] by simp
  show "env_pgdir (envs s' e) = env_pgdir (envs s e)" using vm_frame_k(1) [OF fr] by simp
  fix pd' va assume p: "env_pgdir (envs s e) = Some pd'" "va < UTOP"
  have "pd' \<in> pgdirs s" using p(1) e(1) unfolding pgdirs_def by blast
  moreover have "pd' \<noteq> pd"
  proof
    assume "pd' = pd"
    obtain efl where "envs_inv efl s" using inv by (auto simp: k_inv_def)
    moreover have "live s x" using a(1) by (simp add: authority_def)
    ultimately have "e = x" using p(1) a(2) e(1) \<open>pd' = pd\<close> unfolding envs_inv_def by metis
    with a(1) e(2) show False by simp
  qed
  ultimately show "look s' pd' va = look s pd' va" using lk p(2) by blast
qed

lemma isolated_destroy:
  assumes inv: "k_inv s" and a: "authority s c x"
  shows "isolated c s (res_state (env_destroy x s))"
proof (cases "env_status (envs s x) = ENV_RUNNING \<and> curenv s \<noteq> Some x")
  case True
  then show ?thesis
    by (auto simp: env_destroy_def same_env_def status_consts intro!: quiet_isolated quiet_set_env)
next
  case False
  have l: "live s x" using a by (simp add: authority_def)
  obtain s1 pd where s1: "env_free x s = Inr ((), s1)" "freed_env x s s1" "env_pgdir (envs s x) = Some pd"
    "pgdirs s1 = pgdirs s - {pd}" "\<forall>pd'\<in>pgdirs s1. \<forall>va<UTOP. look s1 pd' va = look s pd' va"
    using k_inv_env_free [OF inv l] by blast
  have run: "res_state (env_destroy x s) = res_state (if curenv s1 = Some x then sched_yield (set_curenv None s1) else Inr ((), s1))"
    using False s1(1) by (auto simp: env_destroy_def)
  have "quiet s1 (set_curenv None s1)" by (rule quiet_eq) (simp_all add: set_curenv_def)
  from quiet_trans [OF this quiet_sched_yield] have q: "quiet s1 (res_state (env_destroy x s))"
    unfolding run by simp
  show ?thesis
    unfolding isolated_def
  proof (intro allI impI)
    fix e assume e: "live s e" "\<not> authority s c e"
    then have ne: "e \<noteq> x" using a by auto
    have "same_space s s1 e"
      unfolding same_space_def
    proof (intro conjI allI impI)
      show l1: "live s1 e" using freed_env_live [OF s1(2)] e(1) ne by simp
      show pg: "env_pgdir (envs s1 e) = env_pgdir (envs s e)" using s1(2) ne by (simp add: freed_env_def)
      fix pd' va assume "env_pgdir (envs s e) = Some pd'" "va < UTOP"
      then show "look s1 pd' va = look s pd' va" using l1 pg s1(5) unfolding pgdirs_def by auto
    qed
    moreover from this have "live s1 e" by (simp add: same_space_def)
    ultimately show "same_space s (res_state (env_destroy x s)) e" using same_space_trans quiet_space [OF q] by blast
  qed
qed

lemma isolated_alloc:
  assumes inv: "k_inv s" and run: "env_alloc parent s = Inr (r, s')"
  shows "isolated c s s'"
  unfolding isolated_def
proof (intro allI impI)
  fix e assume e: "live s e"
  from env_alloc_spec [OF inv, of parent] run consider "s' = s"
    | x pd where "x < NENV" "\<not> live s x" "created_env x pd parent s s'" "\<forall>pd'\<in>pgdirs s. \<forall>va<UTOP. look s' pd' va = look s pd' va"
    by auto
  then show "same_space s s' e"
  proof cases
    case 2
    have "e \<noteq> x" using e 2(2) by auto
    then have "envs s' e = envs s e" using 2(3) by (simp add: created_env_def)
    moreover have "live s' e" using created_env_live [OF 2(3,1)] e by simp
    ultimately show ?thesis using 2(4) e unfolding same_space_def pgdirs_def by auto
  qed (use e in simp)
qed

lemma isolated_bindS:
  assumes m: "isolated c s (res_state m)" and q: "\<And>a t. m = Inr (a, t) \<Longrightarrow> quiet t (res_state (f a t))"
  shows "isolated c s (res_state (bindS m f))"
proof (cases m)
  case (Inl x)
  then show ?thesis using m by (cases x) simp
next
  case (Inr x)
  then obtain a t where t: "m = Inr (a, t)" by (cases x) auto
  have "same_space s (res_state (f a t)) e" if "live s e" "\<not> authority s c e" for e
  proof -
    have "same_space s t e" using m that unfolding t isolated_def by simp
    moreover from this have "live t e" by (simp add: same_space_def)
    ultimately show ?thesis using quiet_space [OF q [OF t]] same_space_trans by blast
  qed
  then show ?thesis unfolding t by (simp add: isolated_def)
qed

lemma isolated_check_addr: "isolated c (s\<lparr>user_mem_check_addr := x\<rparr>) t = isolated c s t"
  by (simp add: isolated_def same_space_def authority_def live_def look_def
      view_simps [of "s\<lparr>user_mem_check_addr := x\<rparr>" s])

lemma isolated_user_mem_assert:
  assumes inv: "k_inv s" and l: "live s c"
  shows "isolated c s (res_state (user_mem_assert c va len perm s))"
proof -
  obtain pd where pd: "env_pgdir (envs s c) = Some pd" by (rule k_inv_pgdir [OF inv l])
  obtain x where x: "res_state (user_mem_check pd va len (perm OR PTE_U) s) = s\<lparr>user_mem_check_addr := x\<rparr>"
    using user_mem_check_state unfolding user_mem_check_def by blast
  let ?s = "s\<lparr>user_mem_check_addr := x\<rparr>"
  have "k_inv ?s" by (rule k_inv_eq [OF inv]) (simp_all add: same_mem_def)
  moreover have "authority ?s c c" using l by (simp add: authority_def live_def)
  ultimately have "isolated c s (res_state (env_destroy c ?s))"
    using isolated_destroy isolated_check_addr by blast
  moreover have "isolated c s ?s" by (rule quiet_isolated [OF quiet_eq]) simp_all
  ultimately show ?thesis
    using x unfolding user_mem_assert_def deref_def pd option.case bindS_Inr
    by (cases "user_mem_check pd va len (perm OR PTE_U) s") (auto split: if_splits)
qed

named_theorems iso \<open>each system call leaves the address spaces of others alone\<close>

lemma quiet_print_chars: "quiet s (res_state (print_chars n precision p s))"
proof (induction n arbitrary: precision p s)
  case (Suc n)
  have "quiet t (res_state (print_chars n k q (t\<lparr>cons_out := x\<rparr>)))" for t k q x
    by (rule quiet_trans [OF quiet_eq Suc.IH]) simp_all
  then show ?case
    by (auto intro!: quiet_bindS simp: read_byte_state split: option.split nat.split)
qed simp

lemma quiet_print_str: "quiet s (res_state (print_str p len s))"
  by (simp add: print_str_def quiet_print_chars quiet_eq Let_def)

lemma iso_cputs [iso]: "k_inv s \<Longrightarrow> caller s c \<Longrightarrow> isolated c s (res_state (sys_cputs p len s))"
  unfolding sys_cputs_def
  by (simp add: caller_deref) (auto simp: caller_def intro!: isolated_bindS isolated_user_mem_assert quiet_print_str)

lemma quiet_e1000_transmit: "quiet s (res_state (e1000_transmit addr len s))"
  unfolding e1000_transmit_def Let_def
  by (auto simp: read_bytes_state set_reg_def intro!: quiet_bindS quiet_eq)

lemma iso_e1000 [iso]: "k_inv s \<Longrightarrow> caller s c \<Longrightarrow> isolated c s (res_state (sys_e1000_transmit addr len s))"
  unfolding sys_e1000_transmit_def
  by (simp add: caller_deref) (auto simp: caller_def intro!: isolated_bindS isolated_user_mem_assert quiet_e1000_transmit)

lemma iso_cgetc [iso]: "isolated c s (res_state (sys_cgetc s))"
  using cons_getc_frame [of s]
  by (auto simp: sys_cgetc_def same_mem_def intro!: quiet_isolated quiet_eq split: prod.split)

lemma iso_getenvid [iso]: "isolated c s (res_state (sys_getenvid s))"
  by (simp add: sys_getenvid_def deref_def split: option.split)

lemma iso_with_env:
  assumes c: "caller s c" and f: "\<And>r. r < 0 \<Longrightarrow> isolated c s (res_state (f (r, None) s))"
    and g: "\<And>e. authority s c e \<Longrightarrow> isolated c s (res_state (f (0, Some e) s))"
  shows "isolated c s (res_state (bindS (envid2env envid True s) f))"
  using f g by (cases rule: envid2env_auth [OF c, of envid]) (auto simp: err_consts)

lemma iso_env_destroy [iso]: "k_inv s \<Longrightarrow> caller s c \<Longrightarrow> isolated c s (res_state (sys_env_destroy envid s))"
  unfolding sys_env_destroy_def
  by (rule iso_with_env) (auto simp: deref_def intro!: isolated_bindS isolated_destroy)

lemma iso_set_status [iso]: "caller s c \<Longrightarrow> isolated c s (res_state (sys_env_set_status envid status s))"
proof (cases "status = ENV_RUNNABLE \<or> status = ENV_NOT_RUNNABLE")
  case True
  assume "caller s c"
  have "\<not> \<not> (status = ENV_RUNNABLE \<or> status = ENV_NOT_RUNNABLE)" using True by blast
  note ok = if_not_P [OF this]
  show ?thesis
    unfolding sys_env_set_status_def ok using True \<open>caller s c\<close>
    by (intro iso_with_env)
      (auto simp: deref_def same_env_def authority_def live_def status_consts intro!: quiet_isolated quiet_set_env)
qed (simp add: sys_env_set_status_def)

lemma iso_set_pgfault [iso]: "caller s c \<Longrightarrow> isolated c s (res_state (sys_env_set_pgfault_upcall envid func s))"
  unfolding sys_env_set_pgfault_upcall_def
  by (rule iso_with_env) (auto simp: deref_def same_env_def intro!: quiet_isolated quiet_set_env)

lemma iso_set_trapframe [iso]: "caller s c \<Longrightarrow> isolated c s (res_state (sys_env_set_trapframe envid tf s))"
  unfolding sys_env_set_trapframe_def
  by (rule iso_with_env)
    (auto simp: deref_def same_env_def read_bytes_state intro!: isolated_bindS quiet_set_env)

lemma iso_yield [iso]: "isolated c s (res_state (sys_yield s))"
  by (simp add: sys_yield_def quiet_isolated quiet_sched_yield)

lemma iso_recv [iso]: "caller s c \<Longrightarrow> isolated c s (res_state (sys_ipc_recv dstva s))"
  unfolding sys_ipc_recv_def
  by (rule quiet_isolated)
    (auto simp: deref_def Let_def same_env_def caller_def live_def status_consts
      intro!: quiet_bindS quiet_trans [OF _ quiet_sched_yield] quiet_trans [OF quiet_set_env quiet_set_env])

lemma iso_exofork [iso]:
  assumes inv: "k_inv s" and c: "caller s c"
  shows "isolated c s (res_state (sys_exofork s))"
  unfolding sys_exofork_def caller_deref [OF c] bindS_Inr
proof (rule isolated_bindS, goal_cases)
  case 1
  show ?case using env_alloc_spec [OF inv, of "env_id (envs s c)"] isolated_alloc [OF inv] by auto
next
  case (2 a t)
  obtain r e where a: "a = (r, e)" by (cases a)
  have "env_status (envs t x) = ENV_RUNNABLE" if "r = 0" "e = Some x" for x
    using env_alloc_spec [OF inv, of "env_id (envs s c)"] 2 that a
    by (auto simp: created_env_def new_env_def E_NO_MEM_def E_NO_FREE_ENV_def)
  then show ?case
    unfolding a by (auto simp: deref_def Let_def set_env_twice same_env_def status_consts split: option.split
        intro!: quiet_set_env)
qed

lemma iso_page_alloc [iso]: "k_inv s \<Longrightarrow> caller s c \<Longrightarrow> isolated c s (res_state (sys_page_alloc envid va perm s))"
proof -
  assume inv: "k_inv s" and c: "caller s c"
  have l: "authority s c c" "live s c" using c by (simp_all add: caller_def authority_def)
  obtain cpd where cpd: "env_pgdir (envs s c) = Some cpd" by (rule k_inv_pgdir [OF inv l(2)])
  from sys_page_alloc_spec [OF inv c, of envid va perm] show ?thesis
  proof (elim disjE exE conjE)
    fix s' assume "sys_page_alloc envid va perm s = Inr (- E_NO_MEM, s')" "vm_frame s s'"
      "\<forall>pd\<in>pgdirs s. \<forall>va<UTOP. look s' pd va = look s pd va"
    then show ?thesis using isolated_page_op [OF inv _ l(1) cpd, of s'] by simp
  next
    fix e pd p s' assume "sys_page_alloc envid va perm s = Inr (0, s')" "authority s c e" "env_pgdir (envs s e) = Some pd"
      "vm_frame s s'" "\<forall>pd'\<in>pgdirs s. \<forall>va'<UTOP. look s' pd' va' =
        (if pd' = pd \<and> PGNUM va' = PGNUM va then Some (page2pa p OR perm OR PTE_P) else look s pd' va')"
    then show ?thesis using isolated_page_op [OF inv, of s' c e pd] by simp
  qed simp_all
qed

lemma iso_page_map [iso]:
  assumes inv: "k_inv s" and "refs_ok s" "caller s c"
  shows "isolated c s (res_state (sys_page_map srcid srcva dstid dstva perm s))"
  using sys_page_map_spec [OF assms, of srcid srcva dstid dstva perm]
proof (elim disjE exE conjE)
  fix dst dpd w s' assume "sys_page_map srcid srcva dstid dstva perm s = Inr (0, s')" "authority s c dst"
    "env_pgdir (envs s dst) = Some dpd" "vm_frame s s'" "\<forall>pd'\<in>pgdirs s. \<forall>va'<UTOP. look s' pd' va' =
      (if pd' = dpd \<and> PGNUM va' = PGNUM dstva then Some (page2pa (PGNUM w) OR perm OR PTE_P) else look s pd' va')"
  then show ?thesis using isolated_page_op [OF inv, of s' c dst dpd] by simp
qed simp_all

lemma iso_page_unmap [iso]:
  assumes inv: "k_inv s" and "caller s c"
  shows "isolated c s (res_state (sys_page_unmap envid va s))"
  using sys_page_unmap_spec [OF assms, of envid va]
proof (elim disjE exE conjE)
  fix e pd s' assume "sys_page_unmap envid va s = Inr (0, s')" "authority s c e" "env_pgdir (envs s e) = Some pd"
    "vm_kept (pgdirs s) s s'" "\<forall>pd'\<in>pgdirs s. \<forall>va'<UTOP. look s' pd' va' =
      (if pd' = pd \<and> PGNUM va' = PGNUM va then None else look s pd' va')"
  then show ?thesis using isolated_page_op [OF inv, of s' c e pd] by (simp add: vm_kept_def)
qed simp_all

lemma iso_syscall:
  assumes "k_inv s" "refs_ok s" "caller s c" "sysno_of n \<noteq> Some SYS_ipc_try_send"
  shows "isolated c s (res_state (syscall n a1 a2 a3 a4 a5 s))"
proof -
  have ret: "res_state (ret_int m) = res_state m" "res_state (ret_zero m') = res_state m'" for m and m' :: "(kstate, 'a) res"
    by (auto simp: ret_int_def ret_zero_def bindS_def res_state_def split: sum.split)
  show ?thesis
    unfolding syscall_def using assms
    by (auto simp: ret sys_time_msec_def intro!: iso split: option.split sysno.split)
qed

section \<open>Properties\<close>

lemma duo_k_caller: "caller duo_k 0"
  unfolding caller_def duo_k_live by (simp add: curenv_def duo_k_def boot_k_def)

lemma no_pages: "pmem s = (\<lambda>_ _. 0) \<Longrightarrow> refs_ok s"
proof -
  assume "pmem s = (\<lambda>_ _. 0)"
  then have "mappings (pgdirs s) s p = {}" for p by (auto simp: mappings_def pg_of_def pt_of_def)
  then show ?thesis by (simp add: refs_ok_def)
qed

lemma duo_k_refs: "refs_ok duo_k"
  by (rule no_pages) (simp add: duo_k_def boot_k_def)

lemma duo_k_look: "look duo_k pd va = None"
  by (simp add: look_def pg_of_def pt_of_def duo_k_def boot_k_def)

text \<open>
  The same machine with a page: page 6 is a page table at index \<open>i\<close> of the directory of environment
  0, and page 7, which holds a few non-zero words, is mapped at index \<open>j\<close> of that table.
\<close>

definition page_k :: "nat \<Rightarrow> nat \<Rightarrow> kstate" where
  "page_k i j = duo_k\<lparr>pages := (\<lambda>p. \<lparr>pp_link = (if 8 < p \<and> p < 16 then Some (p - 1) else None),
        pp_ref = (if 4 \<le> p \<and> p \<le> 7 then 1 else 0)\<rparr>),
     pmem := (\<lambda>p k. if p = 4 \<and> k = i then 0x6007 else if p = 6 \<and> k = j then 0x7007
        else if p = 7 \<and> k = 13 then 8 else if p = 7 \<and> k = 1023 then 0x41414141 else 0)\<rparr>"

lemma page_k_fields:
  "envs (page_k i j) = envs duo_k" "env_free_list (page_k i j) = env_free_list duo_k" "curenv (page_k i j) = Some 0"
  "uninit (page_k i j) = 1" "cr3 (page_k i j) = 4" "npages (page_k i j) = 16" "page_free_list (page_k i j) = Some 15"
  by (simp_all add: page_k_def curenv_def) (simp_all add: duo_k_def boot_k_def)

lemma page_k_pgdirs: "pgdirs (page_k i j) = {4, 5}" "live (page_k i j) e \<longleftrightarrow> e = 0 \<or> e = 1"
  using duo_k_pgdirs duo_k_live [of e] by (simp_all add: pgdirs_def live_def page_k_fields)

lemma page_k_pt: "pd \<in> {4, 5} \<Longrightarrow> pt_of (page_k i j) pd x = (if pd = 4 \<and> x = i then Some 6 else None)"
  by (auto simp: pt_of_def page_k_def PGNUM_div bit_numeral_rec)

lemma page_k_pg: "pd \<in> {4, 5} \<Longrightarrow> pg_of (page_k i j) pd x y = (if pd = 4 \<and> x = i \<and> y = j then Some 0x7007 else None)"
  unfolding pg_of_def by (simp add: page_k_pt) (simp add: page_k_def bit_numeral_rec)

lemma page_k_mappings:
  assumes "i < PDX UTOP" "j < NPTENTRIES"
  shows "mappings {4, 5} (page_k i j) p = (if p = 7 then {(4, i, j)} else {})"
proof -
  have "PGNUM 0x7007 = 7" by (simp add: PGNUM_div)
  then show ?thesis
    using assms unfolding mappings_def by (auto simp: slots_def page_k_pg split: if_splits)
qed

lemma page_k_tables: "i < PDX UTOP \<Longrightarrow> page_tables {4, 5} (page_k i j) = {6}"
  unfolding page_tables_def by (auto simp: page_k_pt split: if_splits)

lemma page_k_vm:
  assumes "i < PDX UTOP" "j < NPTENTRIES"
  shows "vm_inv {4, 5} [15, 14, 13, 12, 11, 10, 9, 8] (\<lambda>_. 0) (page_k i j)"
proof -
  have "fl_inv [15, 14, 13, 12, 11, 10, 9, 8] (page_k i j)"
    unfolding fl_inv_def page_k_fields by (simp add: page_k_def) arith
  moreover have "pd_inv {4, 5} [15, 14, 13, 12, 11, 10, 9, 8] (page_k i j)"
    by (simp add: pd_inv_def page_k_fields) (simp add: page_k_def)
  moreover have "pt_inv {4, 5} [15, 14, 13, 12, 11, 10, 9, 8] (page_k i j)"
    unfolding pt_inv_def page_k_fields by (auto simp: page_k_pt split: if_splits) (simp add: page_k_def)
  moreover have "rc_inv {4, 5} [15, 14, 13, 12, 11, 10, 9, 8] (\<lambda>_. 0) (page_k i j)"
    unfolding rc_inv_def page_k_mappings [OF assms] page_k_tables [OF assms(1)] page_k_fields by (simp add: page_k_def)
  ultimately show ?thesis by (simp add: vm_inv_def page_k_fields)
qed

lemma page_k_inv:
  assumes "i < PDX UTOP" "j < NPTENTRIES"
  shows "k_inv (page_k i j)" "refs_ok (page_k i j)" "caller (page_k i j) 0"
proof -
  have "same_envs duo_k (page_k i j)" by (simp add: same_envs_def same_env_def page_k_fields)
  from same_envs_inv [OF this] have "envs_inv [2..<NENV] (page_k i j)" using duo_k_envs by simp
  then show "k_inv (page_k i j)"
    unfolding k_inv_def vm_ok_def page_k_pgdirs using page_k_vm [OF assms] by (auto simp: page_k_fields)
  show "refs_ok (page_k i j)" by (simp add: refs_ok_def page_k_pgdirs page_k_mappings [OF assms])
  show "caller (page_k i j) 0" by (simp add: caller_def page_k_pgdirs page_k_fields)
qed

text \<open>The page at \<open>0x800000\<close>.\<close>

abbreviation map_k :: kstate where
  "map_k \<equiv> page_k 2 0"

lemmas map_k_fields = page_k_fields [of 2 0]
lemmas map_k_pgdirs = page_k_pgdirs [of 2 0]
lemmas map_k_pg = page_k_pg [of _ 2 0]
lemmas map_k_def = page_k_def [of 2 0]

lemma map_k_inv: "k_inv map_k" and map_k_refs: "refs_ok map_k" and map_k_caller: "caller map_k 0"
  using page_k_inv [of 2 0] by (simp_all add: PDX_div jos_consts)

text \<open>
  C2. Every system call, with any number and any arguments, started by a live environment on a
  consistent kernel, ends in a consistent kernel, whether it returns, panics or switches to
  another environment: free list, reference counts, page tables, address spaces, environment ids
  and the list of free environments fit together. The only assumption is that no page has 65535
  mappings.
\<close>

theorem syscall_keeps_invariant:
  assumes "k_inv s" "refs_ok s" "caller s c"
  shows "k_inv (res_state (syscall n a1 a2 a3 a4 a5 s))"
  using assms by (rule k_inv_syscall)

theorem syscall_keeps_invariant_witness:
  "k_inv (res_state (syscall 4 0x1001 0x800000 7 0 0 duo_k)) \<and> k_inv (res_state (syscall 3 0 0 0 0 0 duo_k))"
  using syscall_keeps_invariant [OF duo_k_inv duo_k_refs duo_k_caller] by blast








lemma duo_recv:
  fixes s
  defines "s \<equiv> set_env 1 (\<lambda>v. v\<lparr>env_ipc_recving := True, env_status := ENV_NOT_RUNNABLE\<rparr>) duo_k"
  shows "k_inv s" "refs_ok s" "caller s 0" "envid2env 0x1001 False s = Inr ((0, Some 1), s)" "env_ipc_recving (envs s 1)"
    "env_id (envs s 0) = 0x1000"
proof -
  show "k_inv s" unfolding s_def
    by (rule k_inv_set_env [OF duo_k_inv]) (simp add: same_env_def duo_k_def status_consts)
  show "refs_ok s" by (rule no_pages) (simp add: s_def duo_k_def boot_k_def)
  show "caller s 0" using duo_k_caller by (simp add: caller_def curenv_def s_def live_def)
  show "envid2env 0x1001 False s = Inr ((0, Some 1), s)"
    by (simp add: envid2env_def s_def ENVX_def status_consts) (simp add: duo_k_def)
  show "env_ipc_recving (envs s 1)" by (simp add: s_def)
  show "env_id (envs s 0) = 0x1000" by (simp add: s_def) (simp add: duo_k_def)
qed


end
