(* ===== verification/SysErrs.thy ===== *)
theory SysErrs
  imports SysProps
begin

text \<open>
  Blocking in \<open>sys_ipc_recv\<close>, and the places where system calls depart from their documentation:
  a trap frame is installed unchecked, printing reads past the buffer, a packet length panics the
  kernel, typed characters are dropped, and an environment can run on two processors.
\<close>

section \<open>Waiting\<close>

lemma env_run_Inl: "\<exists>e s'. env_run x s = Inl (e, s')"
proof -
  have pop: "\<exists>e s'. env_pop_tf x t = Inl (e, s')" for t
    by (simp add: env_pop_tf_def deref_def split: option.split)
  have unl: "\<exists>e s'. bindS (unlock_kernel t) (\<lambda>_ s. env_pop_tf x s) = Inl (e, s')" for t
    using pop by (simp add: unlock_kernel_def)
  have "\<exists>e s'. bindS m (\<lambda>_ s. bindS (unlock_kernel s) (\<lambda>_ s. env_pop_tf x s)) = Inl (e, s')" for m :: "(kstate, unit) res"
    using unl by (auto simp: bindS_def split: sum.split prod.split)
  then show ?thesis unfolding env_run_def by blast
qed

lemma sched_yield_Inl: "\<exists>e s'. sched_yield s = Inl (e, s')"
proof -
  have "\<exists>e s'. sched_halt s = Inl (e, s')" by (simp add: sched_halt_def Let_def unlock_kernel_def)
  then show ?thesis unfolding sched_yield_def using env_run_Inl by (auto split: option.split)
qed

text \<open>Running another environment does not touch an environment that is blocked.\<close>

lemma env_run_other:
  assumes "e \<noteq> c" "env_status (envs s c) \<noteq> ENV_RUNNING"
  shows "envs (res_state (env_run e s)) c = envs s c"
proof -
  define s0 where "s0 = (case curenv s of
      Some c \<Rightarrow> if env_status (envs s c) = ENV_RUNNING then set_env c (\<lambda>v. v\<lparr>env_status := ENV_RUNNABLE\<rparr>) s else s
    | None \<Rightarrow> s)"
  define s1 where "s1 = set_env e (\<lambda>v. v\<lparr>env_status := ENV_RUNNING, env_runs := env_runs v + 1\<rparr>) (set_curenv (Some e) s0)"
  let ?I = "\<lambda>t. envs t c = envs s c \<and> curenv t = Some e"
  have "envs s0 c = envs s c" unfolding s0_def using assms(2) by (auto split: option.split)
  then have 1: "envs s1 c = envs s c" "curenv s1 = Some e"
    unfolding s1_def using assms(1) by (simp_all add: set_curenv_def curenv_def)
  have m: "?I (res_state (if curenv s \<noteq> Some e
      then bindS (PADDR (env_pgdir (envs s1 e)) s1) (\<lambda>pd s. Inr ((), lcr3 pd s)) else Inr ((), s)))"
    using 1 by (cases "env_pgdir (envs s1 e)") (auto simp: PADDR_def lcr3_def curenv_def)
  have u: "?I (res_state (bindS (unlock_kernel t) (\<lambda>_ s. env_pop_tf e s)))" if "?I t" for t
    using that assms(1) by (auto simp: unlock_kernel_def env_pop_tf_def deref_def curenv_def)
  have "?I (res_state (env_run e s))"
    unfolding env_run_def Let_def s0_def [symmetric] s1_def [symmetric]
    by (rule res_state_bindS [where I = ?I, OF m]) (rule u)
  then show ?thesis ..
qed

lemma sched_yield_blocked:
  assumes "env_status (envs s c) \<noteq> ENV_RUNNING" "env_status (envs s c) \<noteq> ENV_RUNNABLE"
  shows "envs (res_state (sched_yield s)) c = envs s c"
proof -
  have halt: "envs (res_state (sched_halt s)) c = envs s c"
    by (simp add: sched_halt_def Let_def unlock_kernel_def lcr3_def set_curenv_def)
  have run: "envs (res_state (env_run e s)) c = envs s c"
    if "env_status (envs s e) = ENV_RUNNABLE \<or> env_status (envs s e) = ENV_RUNNING" for e
    using that assms by (intro env_run_other) auto
  show ?thesis
    unfolding sched_yield_def using halt run by (auto dest: sched_search_runnable split: option.split)
qed

section \<open>Properties\<close>




lemma map_k_read: "read_byte (0x800000 + of_nat i) map_k = Inr (if i = 52 then 8 else 0, map_k)" if "i < 4092"
proof -
  have "unat (0x800000 + of_nat i :: 32 word) = 0x800000 + i"
    using that by (simp add: unat_word_ariths unat_of_nat)
  moreover have "(0x800000 + i) div 4096 = 2048" "(0x800000 + i) div 0x400000 = 2" using that by (intro div_nat_eqI; simp)+
  moreover have "(0x800000 + i) mod 4096 = i" using mod_mult_self3 [of 2048 4096 i] that by simp
  ultimately have ix: "PDX (0x800000 + of_nat i) = 2" "PTX (0x800000 + of_nat i) = 0"
    "unat (0x800000 + of_nat i :: 32 word) mod 4096 = i"
    using that by (simp_all add: PDX_div PTX_mod)
  have tr: "translate (0x800000 + of_nat i) map_k = Some (7, i, True)"
    unfolding translate_def ix by (simp add: map_k_def PGNUM_div bit_numeral_rec) (simp add: duo_k_def bit_numeral_rec PGNUM_div)
  have "i div 4 \<noteq> 1023" using that by simp
  moreover have "i mod 4 = 0" if "i div 4 = 13" "i = 52" using that by simp
  moreover have "get_byte (i mod 4) 8 = (if i = 52 then 8 else 0)" if "i div 4 = 13"
  proof -
    have "i = 52 + i mod 4" using that by presburger
    moreover have "i mod 4 \<in> {0, 1, 2, 3}" by auto
    ultimately show ?thesis by (auto simp: get_byte_def)
  qed
  ultimately show ?thesis
    unfolding read_byte_def tr by (auto simp: map_k_def get_byte_def)
qed

lemma read_bytes_map:
  "(\<And>i. i < n \<Longrightarrow> read_byte (va + of_nat i) s = Inr (f i, s)) \<Longrightarrow> read_bytes va n s = Inr (map f [0..<n], s)"
proof (induction n arbitrary: va f)
  case (Suc n)
  have "read_byte va s = Inr (f 0, s)" using Suc.prems [of 0] by simp
  moreover have "read_bytes (va + 1) n s = Inr (map (\<lambda>i. f (Suc i)) [0..<n], s)"
  proof (rule Suc.IH)
    fix i assume "i < n"
    then show "read_byte (va + 1 + of_nat i) s = Inr (f (Suc i), s)" using Suc.prems [of "Suc i"] by (simp add: add.assoc)
  qed
  moreover have "[0..<Suc n] = 0 # map Suc [0..<n]" by (simp add: map_Suc_upt upt_conv_Cons)
  ultimately show ?case by (simp add: comp_def del: upt_Suc)
qed simp


text \<open>
  Every environment can panic the kernel: a packet length whose sum with the address wraps to zero passes
  the check of user memory, and \<open>e1000_transmit\<close> panics on any length above the size of its
  buffers instead of reporting an error.
\<close>

theorem e1000_transmit_panics:
  assumes "k_inv s" "caller s c"
  shows "syscall 15 0xF0000000 0x10000000 a3 a4 a5 s = Inl (Panic, s)"
proof -
  have "live s c" using assms(2) by (simp add: caller_def)
  then obtain pd where pd: "env_pgdir (envs s c) = Some pd" by (rule k_inv_pgdir [OF assms(1)])
  have "ROUNDUP (0xF0000000 + 0x10000000) PGSIZE = 0" by (simp add: ROUNDUP_def ROUNDDOWN_def PGSIZE_def)
  then have "user_mem_check pd 0xF0000000 0x10000000 perm s = Inr (0, s)" for perm
    by (simp add: user_mem_check_def user_mem_check_loop.simps)
  then have "sys_e1000_transmit 0xF0000000 0x10000000 s = Inl (Panic, s)"
    using pd assms(2) by (simp add: sys_e1000_transmit_def caller_def user_mem_assert_def deref_def
        e1000_transmit_def DATA_SIZE_def)
  then show ?thesis by (simp add: syscall_def sysno_of_def sysnos_def ret_int_def)
qed

theorem e1000_transmit_panics_witness: "syscall 15 0xF0000000 0x10000000 0 0 0 duo_k = Inl (Panic, duo_k)"
  by (rule e1000_transmit_panics [OF duo_k_inv duo_k_caller])

text \<open>
  \<open>SYS_cgetc\<close> consumes a character and returns 0: what was typed never reaches the program.
\<close>

theorem syscall_cgetc_drops:
  "syscall 1 a1 a2 a3 a4 a5 s = Inr (0, snd (cons_getc s))"
  by (simp add: syscall_def sysno_of_def sysnos_def ret_zero_def sys_cgetc_def split: prod.split)

lemma read_byte_cons_out: "read_byte p (s\<lparr>cons_out := x\<rparr>) = (case read_byte p s of
    Inl (e, s') \<Rightarrow> Inl (e, s'\<lparr>cons_out := x\<rparr>) | Inr (b, s') \<Rightarrow> Inr (b, s'\<lparr>cons_out := x\<rparr>))"
  by (simp add: read_byte_def translate_def split: option.split)

lemma print_chars_overrun:
  assumes "\<forall>i<k. \<exists>b. read_byte (p + of_nat i) s = Inr (b, s) \<and> b \<noteq> 0" "translate (p + of_nat k) s = None" "k < n"
  shows "\<exists>s'. print_chars n (Some k) p s = Inl (Panic, s')"
  using assms
proof (induction k arbitrary: n p s)
  case 0
  then show ?case by (cases n) (simp_all add: read_byte_def)
next
  case (Suc k)
  obtain m where n: "n = Suc m" using Suc.prems(3) by (cases n) auto
  obtain b where b: "read_byte p s = Inr (b, s)" "b \<noteq> 0" using Suc.prems(1) by force
  let ?s = "s\<lparr>cons_out := cons_out s @ [b]\<rparr>"
  have "\<exists>b. read_byte (p + 1 + of_nat i) ?s = Inr (b, ?s) \<and> b \<noteq> 0" if "i < k" for i
    using Suc.prems(1) [rule_format, of "Suc i"] that unfolding read_byte_cons_out by (auto simp: add.assoc)
  moreover have "translate (p + 1 + of_nat k) ?s = None"
    using Suc.prems(2) by (simp add: translate_def add.assoc)
  ultimately have "\<exists>s'. print_chars m (Some k) (p + 1) ?s = Inl (Panic, s')"
    using Suc.IH [of "p + 1" ?s m] Suc.prems(3) n by blast
  then show ?case using b n by simp
qed

text \<open>
  C31. \<open>sys_cputs\<close> reads one byte more than it has checked: if the buffer passes the check, holds no zero
  byte and ends at the end of the mapped memory, the kernel faults on the byte behind it and
  panics.
\<close>

theorem sys_cputs_overrun:
  assumes "caller s c" "env_pgdir (envs s c) = Some pd" "user_mem_check pd p len PTE_U s = Inr (0, s)" "p \<noteq> 0" "0 \<le> sint len"
    and "\<forall>i<unat len. \<exists>b. read_byte (p + of_nat i) s = Inr (b, s) \<and> b \<noteq> 0" "translate (p + len) s = None"
  shows "\<exists>s'. sys_cputs p len s = Inl (Panic, s')"
proof -
  have "unat len < 2 ^ LENGTH(32)" by (rule unsigned_less)
  then have "\<exists>s'. print_chars (2 ^ 32) (Some (unat len)) p s = Inl (Panic, s')"
    using assms(6,7) by (intro print_chars_overrun) simp_all
  then have "\<exists>s'. print_str p len s = Inl (Panic, s')" using assms(4,5) by (simp add: print_str_def)
  then show ?thesis
    using assms(1-3) by (simp add: sys_cputs_def caller_def deref_def user_mem_assert_def)
qed

lemma map_k_last: "read_byte 0x800FFF map_k = Inr (0x41, map_k)" "translate 0x801000 map_k = None"
  "user_mem_check 4 0x800FFF 1 PTE_U map_k = Inr (0, map_k)"
proof -
  have tr: "translate 0x800FFF map_k = Some (7, 0xFFF, True)"
    by (simp add: translate_def PDX_div PTX_mod map_k_def PGNUM_div bit_numeral_rec)
      (simp add: duo_k_def bit_numeral_rec PGNUM_div)
  show "read_byte 0x800FFF map_k = Inr (0x41, map_k)" by (simp add: read_byte_def tr get_byte_def) (simp add: map_k_def)
  show "translate 0x801000 map_k = None"
    by (simp add: translate_def PDX_div PTX_mod map_k_def duo_k_def PGNUM_div)
  have "ROUNDUP (0x800FFF + 1) PGSIZE = 0x801000" "ROUNDDOWN 0x800FFF PGSIZE + PGSIZE = 0x801000"
    by (simp_all add: ROUNDUP_def ROUNDDOWN_def PGSIZE_def)
  moreover have "\<not> ULIM \<le> 0x800FFF" by (simp add: jos_consts)
  moreover have "pgdir_walk 4 0x800FFF False map_k = Inr (Some (6, 0), map_k)"
    by (simp add: pgdir_walk_def load_def KADDR_def map_k_fields PDX_div PTX_mod)
      (simp add: map_k_def PGNUM_div jos_consts)
  moreover have "load (6, 0) map_k = 0x7007" by (simp add: load_def map_k_def)
  ultimately show "user_mem_check 4 0x800FFF 1 PTE_U map_k = Inr (0, map_k)"
    by (simp add: user_mem_check_def user_mem_check_loop.simps [of _ _ "0x800FFF"] user_mem_check_loop.simps [of _ _ "0x801000"]
        jos_consts)
qed

theorem sys_cputs_overrun_witness: "\<exists>s'. sys_cputs 0x800FFF 1 map_k = Inl (Panic, s')"
proof -
  have "env_pgdir (envs map_k 0) = Some 4" by (simp add: map_k_fields) (simp add: duo_k_def)
  moreover have "\<forall>i<unat (1 :: 32 word). \<exists>b. read_byte (0x800FFF + of_nat i) map_k = Inr (b, map_k) \<and> b \<noteq> 0"
    using map_k_last(1) by simp
  moreover have "translate (0x800FFF + 1) map_k = None" using map_k_last(2) by simp
  ultimately show ?thesis using sys_cputs_overrun [OF map_k_caller _ map_k_last(3)] by simp
qed

text \<open>
  C32. \<open>sys_env_set_status\<close> does not look at the current status. A parent that marks a child runnable while the
  child runs on another processor, and then yields, makes the child run on both processors at
  once.
\<close>

theorem running_twice:
  assumes "k_inv s" "caller s c" "kernel_lock s = Some (cpunum s)" "envid2env envid True s = Inr ((0, Some e), s)"
    and "live s e" "e \<noteq> c" "k \<noteq> cpunum s" "cpu_env (cpus s k) = Some e"
    and "\<forall>x\<le>NENV. env_status (envs s x) \<noteq> ENV_RUNNABLE"
  shows "\<exists>s1 s2. sys_env_set_status envid ENV_RUNNABLE s = Inr (0, s1) \<and> sys_yield s1 = Inl (Running e, s2) \<and>
    cpu_env (cpus s2 k) = Some e \<and> cpu_env (cpus s2 (cpunum s)) = Some e"
proof -
  let ?s1 = "set_env e (\<lambda>v. v\<lparr>env_status := ENV_RUNNABLE\<rparr>) s"
  have 1: "sys_env_set_status envid ENV_RUNNABLE s = Inr (0, ?s1)"
    using assms(4) by (simp add: sys_env_set_status_def deref_def)
  have inv: "k_inv ?s1"
    using assms(1,5) by (intro k_inv_set_env) (simp_all add: same_env_def live_def status_consts)
  have c: "curenv ?s1 = Some c" "c < NENV" using assms(2) by (simp_all add: caller_def live_def curenv_def)
  have e: "e < NENV" using assms(5) by (simp add: live_def)
  have lock: "kernel_lock ?s1 = Some (cpunum ?s1)" using assms(3) by simp
  have "env_status (envs ?s1 NENV) \<noteq> ENV_RUNNABLE" using assms(9) e by simp
  from sched_yield_picks [OF inv lock c this e assms(6)] obtain x s2 where
    x: "sched_yield ?s1 = Inl (Running x, s2)" "curenv s2 = Some x" "cpunum s2 = cpunum s"
      "\<forall>k. k \<noteq> cpunum s \<longrightarrow> cpus s2 k = cpus ?s1 k" "x < NENV"
      "List.find (\<lambda>e. env_status (envs ?s1 e) = ENV_RUNNABLE) ([c + 1..<NENV] @ [0..<c]) = Some x" by auto
  have "env_status (envs ?s1 x) = ENV_RUNNABLE" using find_SomeD [OF x(6)] by blast
  then have "x = e" using assms(9) x(5) by (auto split: if_splits)
  then show ?thesis using 1 x(1-4) assms(7,8) by (auto simp: sys_yield_def curenv_def)
qed

theorem running_twice_witness:
  "\<exists>s s1 s2. k_inv s \<and> sys_env_set_status 0x1001 ENV_RUNNABLE s = Inr (0, s1) \<and> sys_yield s1 = Inl (Running 1, s2) \<and>
     cpu_env (cpus s2 0) = Some 1 \<and> cpu_env (cpus s2 1) = Some 1"
proof -
  let ?s = "set_env 1 (\<lambda>v. v\<lparr>env_status := ENV_RUNNING\<rparr>)
    (duo_k\<lparr>cpus := (cpus duo_k)(1 := \<lparr>cpu_status = CPU_STARTED, cpu_env = Some 1\<rparr>)\<rparr>)"
  have inv: "k_inv ?s"
    by (intro k_inv_set_env k_inv_cpus duo_k_inv) (simp add: same_env_def duo_k_def status_consts)
  have st: "env_status (envs ?s x) = (if x = 0 \<or> x = 1 then ENV_RUNNING else ENV_FREE)" for x
    by (simp add: duo_k_def boot_env_def)
  have l: "live ?s 0" "live ?s 1" unfolding live_def st by (simp_all add: status_consts NENV_def)
  have cur: "curenv ?s = Some 0" "cpunum ?s = 0" by (simp_all add: curenv_def) (simp_all add: duo_k_def boot_k_def)
  have e: "envid2env 0x1001 True ?s = Inr ((0, Some 1), ?s)"
    using envid2env_run [OF cur(1), of "0x1001" True] l(2) by (simp add: ENVX_def) (simp add: duo_k_def)
  have lock: "kernel_lock ?s = Some (cpunum ?s)" by (simp add: duo_k_def boot_k_def)
  have c: "caller ?s 0" using cur(1) l(1) unfolding caller_def ..
  have no: "\<forall>x\<le>NENV. env_status (envs ?s x) \<noteq> ENV_RUNNABLE" unfolding st by (simp add: status_consts)
  have k: "(1 :: nat) \<noteq> cpunum ?s" "cpu_env (cpus ?s 1) = Some 1" unfolding cur by simp_all
  from running_twice [OF inv c lock e l(2) _ k no] obtain s1 s2 where
    "sys_env_set_status 0x1001 ENV_RUNNABLE ?s = Inr (0, s1)" "sys_yield s1 = Inl (Running 1, s2)"
    "cpu_env (cpus s2 1) = Some 1" "cpu_env (cpus s2 (cpunum ?s)) = Some 1" by auto
  then show ?thesis using inv unfolding cur by blast
qed

end
