(* ===== verification/Trap.thy ===== *)
theory Trap
  imports SysErrs
begin

text \<open>
  \<open>kern/trap.c\<close>: names of traps, dispatch, entry into the kernel with its locking, and the delivery of
  page faults to a handler in user mode. The hardware enters with interrupts off and with the trap
  frame \<open>tf\<close> on the kernel stack; \<open>cr2\<close> is the faulting address. No other processor has panicked.
\<close>

definition T_DIVIDE :: "32 word" where [jos_consts]: "T_DIVIDE = 0"
definition T_BRKPT :: "32 word" where [jos_consts]: "T_BRKPT = 3"
definition T_PGFLT :: "32 word" where [jos_consts]: "T_PGFLT = 14"
definition T_SYSCALL :: "32 word" where [jos_consts]: "T_SYSCALL = 48"
definition IRQ_OFFSET :: "32 word" where [jos_consts]: "IRQ_OFFSET = 32"
definition IRQ_TIMER :: "32 word" where [jos_consts]: "IRQ_TIMER = 0"
definition IRQ_KBD :: "32 word" where [jos_consts]: "IRQ_KBD = 1"
definition IRQ_SERIAL :: "32 word" where [jos_consts]: "IRQ_SERIAL = 4"
definition IRQ_SPURIOUS :: "32 word" where [jos_consts]: "IRQ_SPURIOUS = 7"
definition IRQ_IDE :: "32 word" where [jos_consts]: "IRQ_IDE = 14"
definition IRQ_ERROR :: "32 word" where [jos_consts]: "IRQ_ERROR = 19"

definition excnames :: "string list" where
  "excnames = [''Divide error'', ''Debug'', ''Non-Maskable Interrupt'', ''Breakpoint'', ''Overflow'',
     ''BOUND Range Exceeded'', ''Invalid Opcode'', ''Device Not Available'', ''Double Fault'',
     ''Coprocessor Segment Overrun'', ''Invalid TSS'', ''Segment Not Present'', ''Stack Fault'',
     ''General Protection'', ''Page Fault'', ''(unknown trap)'', ''x87 FPU Floating-Point Error'',
     ''Alignment Check'', ''Machine-Check'', ''SIMD Floating-Point Exception'']"

text \<open>The first comparison is unsigned, the others are signed.\<close>

definition trapname :: "32 word \<Rightarrow> string" where
  "trapname trapno =
     (if unat trapno < length excnames then excnames ! unat trapno
      else if trapno = T_SYSCALL then ''System call''
      else if sint trapno \<ge> sint IRQ_OFFSET \<and> sint trapno < sint IRQ_OFFSET + 16 then ''Hardware Interrupt''
      else ''(unknown trap)'')"

text \<open>The gates that \<open>trap_init\<close> installs, with the privilege level from which software may use them.\<close>

definition gates :: "(nat \<times> nat) list" where
  "gates = [(0, 0), (1, 0), (2, 0), (3, 3), (4, 0), (5, 0), (6, 0), (7, 0), (8, 0), (10, 0), (11, 0), (12, 0),
     (13, 0), (14, 0), (16, 0), (17, 0), (18, 0), (19, 0), (48, 3), (32, 0), (33, 0), (36, 0), (39, 0), (46, 0),
     (51, 0)]"

record Gate =
  gd_sel :: "16 word"
  gd_istrap :: bool
  gd_dpl :: nat

definition trap_init :: "nat \<Rightarrow> Gate option" where
  "trap_init n = map_option (\<lambda>dpl. \<lparr>gd_sel = GD_KT, gd_istrap = False, gd_dpl = dpl\<rparr>) (map_of gates n)"

section \<open>Where the trap frame lives\<close>

text \<open>A frame taken from user mode is the one saved in the environment, otherwise it is on the stack.\<close>

datatype tfptr = OnStack Trapframe | OfEnv nat

fun get_tf :: "tfptr \<Rightarrow> kstate \<Rightarrow> Trapframe" where
  "get_tf (OnStack tf) s = tf"
| "get_tf (OfEnv e) s = env_tf (envs s e)"

text \<open>Changes of a frame on the stack are not seen by anything that follows.\<close>

fun upd_tf :: "tfptr \<Rightarrow> (Trapframe \<Rightarrow> Trapframe) \<Rightarrow> kstate \<Rightarrow> kstate" where
  "upd_tf (OnStack tf) f s = s"
| "upd_tf (OfEnv e) f s = set_env e (\<lambda>v. v\<lparr>env_tf := f (env_tf v)\<rparr>) s"

section \<open>Page faults\<close>

definition sizeof_UTrapframe :: "32 word" where [jos_consts]: "sizeof_UTrapframe = 52"

text \<open>The bytes of a \<open>struct UTrapframe\<close>.\<close>

definition utf_words :: "32 word \<Rightarrow> Trapframe \<Rightarrow> 32 word list" where
  "utf_words fault_va tf =
     (let r = tf_regs tf
      in [fault_va, tf_err tf, reg_edi r, reg_esi r, reg_ebp r, reg_oesp r, reg_ebx r, reg_edx r, reg_ecx r, reg_eax r,
          tf_eip tf, tf_eflags tf, tf_esp tf])"

definition page_fault_handler :: "32 word \<Rightarrow> tfptr \<Rightarrow> kstate \<Rightarrow> (kstate, unit) res" where
  "page_fault_handler cr2 tfp s =
     (if tf_cs (get_tf tfp s) = GD_KT then Inl (Panic, s)
      else
        bindS (deref (curenv s) s) (\<lambda>c s.
          if env_pgfault_upcall (envs s c) = 0 then env_destroy c s
          else
            let esp = tf_esp (get_tf tfp s);
                low = esp < USTACKTOP;
                uxtop = (if low then UXSTACKTOP - sizeof_UTrapframe else esp - sizeof_UTrapframe - 4);
                len = (if low then sizeof_UTrapframe else sizeof_UTrapframe + 4)
            in bindS (user_mem_assert c uxtop len (PTE_W OR PTE_P) s) (\<lambda>_ s.
               bindS (write_bytes uxtop (concat (map bytes32 (utf_words cr2 (get_tf tfp s)))) s) (\<lambda>_ s.
               bindS (deref (curenv s) s) (\<lambda>c s.
                 env_run c (upd_tf tfp (\<lambda>tf. tf\<lparr>tf_esp := uxtop, tf_eip := env_pgfault_upcall (envs s c)\<rparr>) s))))))"

section \<open>Dispatch\<close>

text \<open>The monitor of a breakpoint is interactive: the model stops there.\<close>

definition trap_dispatch :: "32 word \<Rightarrow> tfptr \<Rightarrow> kstate \<Rightarrow> (kstate, unit) res" where
  "trap_dispatch cr2 tfp s =
     (let trapno = tf_trapno (get_tf tfp s)
      in if trapno = IRQ_OFFSET + IRQ_SPURIOUS then Inr ((), s)
         else if trapno = IRQ_OFFSET + IRQ_TIMER then bindS (time_tick s) (\<lambda>_ s. sched_yield s)
         else if trapno = IRQ_OFFSET + IRQ_KBD then Inr ((), kbd_intr s)
         else if trapno = IRQ_OFFSET + IRQ_SERIAL then Inr ((), serial_intr s)
         else if trapno = T_PGFLT then page_fault_handler cr2 tfp s
         else if trapno = T_BRKPT then Inl (InMonitor, s)
         else if trapno = T_SYSCALL then
           let r = tf_regs (get_tf tfp s)
           in bindS (syscall (reg_eax r) (reg_edx r) (reg_ecx r) (reg_ebx r) (reg_edi r) (reg_esi r) s) (\<lambda>v s.
                Inr ((), upd_tf tfp (\<lambda>tf. tf\<lparr>tf_regs := (tf_regs tf)\<lparr>reg_eax := v\<rparr>\<rparr>) s))
         else if tf_cs (get_tf tfp s) = GD_KT then Inl (Panic, s)
         else bindS (deref (curenv s) s) (\<lambda>c s. env_destroy c s))"

text \<open>From user mode: take the lock, collect a dying environment, save the frame.\<close>

definition trap_enter :: "Trapframe \<Rightarrow> kstate \<Rightarrow> (kstate, tfptr) res" where
  "trap_enter tf s =
     (if tf_cs tf AND 3 = 3 then
        bindS (lock_kernel s) (\<lambda>_ s.
          case curenv s of
            None \<Rightarrow> Inl (Panic, s)
          | Some c \<Rightarrow>
              bindS (if env_status (envs s c) = ENV_DYING
                     then bindS (env_free c s) (\<lambda>_ s. sched_yield (set_curenv None s))
                     else Inr ((), s))
                (\<lambda>_ s. bindS (deref (curenv s) s) (\<lambda>c s. Inr (OfEnv c, set_env c (\<lambda>v. v\<lparr>env_tf := tf\<rparr>) s))))
      else Inr (OnStack tf, s))"

definition trap :: "32 word \<Rightarrow> Trapframe \<Rightarrow> kstate \<Rightarrow> (kstate, unit) res" where
  "trap cr2 tf s =
     (let halted = (cpu_status (cpus s (cpunum s)) = CPU_HALTED);
          s0 = s\<lparr>cpus := (cpus s)(cpunum s := (cpus s (cpunum s))\<lparr>cpu_status := CPU_STARTED\<rparr>)\<rparr>
      in bindS (if halted then lock_kernel s0 else Inr ((), s0)) (\<lambda>_ s.
         bindS (trap_enter tf s) (\<lambda>tfp s.
         bindS (trap_dispatch cr2 tfp s) (\<lambda>_ s.
           case curenv s of
             Some c \<Rightarrow> if env_status (envs s c) = ENV_RUNNING then env_run c s else sched_yield s
           | None \<Rightarrow> sched_yield s))))"

end
