(* ===== verification/UserAccess.thy ===== *)
theory UserAccess
  imports Trap
begin

text \<open>
  Writing to user memory, by the kernel or by the environment itself: such a write never touches page
  tables or directories, so that the invariant and all translations stay, and what was written is
  read back.
\<close>

definition byte_at :: "kstate \<Rightarrow> nat \<Rightarrow> nat \<Rightarrow> 8 word" where
  "byte_at s p off = get_byte (off mod 4) (pmem s p (off div 4))"

definition put_byte :: "nat \<Rightarrow> nat \<Rightarrow> 8 word \<Rightarrow> kstate \<Rightarrow> kstate" where
  "put_byte p off b s = store (p, off div 4) (set_byte (off mod 4) b (pmem s p (off div 4))) s"

lemma byte_at_put: "byte_at (put_byte p off b s) p' off' = (if p' = p \<and> off' = off then b else byte_at s p' off')"
proof -
  have "pmem (put_byte p off b s) p = put8 off b (pmem s p)" "p' \<noteq> p \<Longrightarrow> pmem (put_byte p off b s) p' = pmem s p'"
    by (auto simp: fun_eq_iff put_byte_def put8_def pmem_store)
  then show ?thesis by (cases "p' = p") (simp_all add: byte_at_def get8_put8 flip: get8_def)
qed

lemma read_byte_at:
  "read_byte va s = (case translate va s of None \<Rightarrow> Inl (Panic, s) | Some (p, off, _) \<Rightarrow> Inr (byte_at s p off, s))"
  by (auto simp: read_byte_def byte_at_def split: option.split)

lemma write_byte_put:
  "translate va s = Some (p, off, True) \<Longrightarrow> write_byte va b s = Inr ((), put_byte p off b s)"
  by (simp add: write_byte_def put_byte_def)

section \<open>Data pages\<close>

definition data_page :: "kstate \<Rightarrow> nat \<Rightarrow> bool" where
  "data_page s p \<longleftrightarrow> p \<notin> pgdirs s \<and> p \<notin> page_tables (pgdirs s) s"

lemma translate_data:
  assumes inv: "k_inv s" and pd: "cr3 s \<in> pgdirs s" and va: "va < UTOP" and tr: "translate va s = Some (p, off, w)"
  shows "data_page s p" "off = unat va mod 4096"
proof -
  obtain fl where fl: "vm_inv (pgdirs s) fl (\<lambda>_. 0) s" using k_inv_ok [OF inv] by (auto simp: vm_ok_def)
  let ?pte = "pmem s (PGNUM (pmem s (cr3 s) (PDX va))) (PTX va)"
  have "pg_of s (cr3 s) (PDX va) (PTX va) = Some ?pte" "p = PGNUM ?pte" "off = unat va mod 4096"
    using tr by (simp_all add: translate_def pg_of_def pt_of_def Let_def split: if_splits)
  then show "data_page s p" "off = unat va mod 4096"
    using vm_inv_mapped [OF fl slots_va [OF pd va]] by (simp_all add: data_page_def)
qed

lemma put_byte_view:
  assumes inv: "k_inv s" and p: "data_page s p"
  shows "same_view (pgdirs s) s (put_byte p off b s)"
proof -
  obtain fl where fl: "vm_inv (pgdirs s) fl (\<lambda>_. 0) s" using k_inv_ok [OF inv] by (auto simp: vm_ok_def)
  show ?thesis
    using p vm_inv_pt(5) [OF fl] unfolding data_page_def
    by (intro same_viewI) (auto simp: pt_of_def put_byte_def pmem_store)
qed

text \<open>What a write to user memory leaves alone.\<close>

definition user_write :: "kstate \<Rightarrow> kstate \<Rightarrow> bool" where
  "user_write s s' \<longleftrightarrow>
     s' = s\<lparr>pmem := pmem s'\<rparr> \<and> same_view (pgdirs s) s s' \<and> (\<forall>q. \<not> data_page s q \<longrightarrow> pmem s' q = pmem s q)"

lemma user_write_simps:
  assumes "user_write s s'"
  shows "envs s' = envs s" "pgdirs s' = pgdirs s" "cr3 s' = cr3 s" "curenv s' = curenv s" "cpus s' = cpus s"
    "kernel_lock s' = kernel_lock s" "cpunum s' = cpunum s" "live s' e = live s e" "vm_frame s s'"
    "env_free_list s' = env_free_list s" "npages s' = npages s"
proof -
  have s': "s' = s\<lparr>pmem := pmem s'\<rparr>" using assms by (simp add: user_write_def)
  show "envs s' = envs s" "cr3 s' = cr3 s" "curenv s' = curenv s" "cpus s' = cpus s"
    "kernel_lock s' = kernel_lock s" "cpunum s' = cpunum s" "env_free_list s' = env_free_list s" "npages s' = npages s"
    by (subst s', simp add: curenv_def)+
  then show "pgdirs s' = pgdirs s" "live s' e = live s e" by (simp_all add: pgdirs_def live_def)
  show "vm_frame s s'" by (subst s') (simp add: vm_frame_def)
qed

lemma user_write_inv:
  assumes "k_inv s" "user_write s s'"
  shows "k_inv s'" "data_page s' p = data_page s p"
    "pd \<in> pgdirs s \<Longrightarrow> va < UTOP \<Longrightarrow> look s' pd va = look s pd va"
proof -
  note sv = assms(2) [unfolded user_write_def, THEN conjunct2, THEN conjunct1]
  have s': "s' = s\<lparr>pmem := pmem s'\<rparr>" using assms(2) by (simp add: user_write_def)
  have "vm_ok (pgdirs s) s'"
  proof -
    obtain fl where fl: "vm_inv (pgdirs s) fl (\<lambda>_. 0) s" "uninit s \<noteq> 0" using k_inv_ok [OF assms(1)] by (auto simp: vm_ok_def)
    have eq: "pages s' = pages s" "page_free_list s' = page_free_list s" "npages s' = npages s" "uninit s' = uninit s"
      by (subst s', simp)+
    then have "fl_inv fl s' = fl_inv fl s" by (simp add: fl_inv_def)
    then show ?thesis using fl vm_inv_same_view [OF sv] eq unfolding vm_ok_def by auto
  qed
  then show "k_inv s'" using k_inv_page_op [OF assms(1)] user_write_simps(9) [OF assms(2)] by blast
  show "data_page s' p = data_page s p"
    by (simp add: data_page_def user_write_simps(2) [OF assms(2)] same_view_tables [OF sv])
  show "look s' pd va = look s pd va" if "pd \<in> pgdirs s" "va < UTOP"
    using sv slots_va [OF that] by (simp add: look_def same_view_def)
qed

lemma user_write_put: "k_inv s \<Longrightarrow> data_page s p \<Longrightarrow> user_write s (put_byte p off b s)"
  using put_byte_view [of s p off b] unfolding user_write_def
  by (auto simp: put_byte_def pmem_store store_def)

lemma user_write_refl: "user_write s s"
  by (simp add: user_write_def same_view_def)

lemma user_write_trans:
  assumes "k_inv s" "user_write s s'" "user_write s' s''"
  shows "user_write s s''"
proof -
  have 1: "s' = s\<lparr>pmem := pmem s'\<rparr>" "same_view (pgdirs s) s s'" and 2: "s'' = s'\<lparr>pmem := pmem s''\<rparr>" "same_view (pgdirs s) s' s''"
    using assms(2,3) user_write_simps(2) [OF assms(2)] unfolding user_write_def by simp_all
  have "s'' = s\<lparr>pmem := pmem s''\<rparr>" using 1(1) 2(1) by (metis vm.update_convs(7) vm.surjective) 
  moreover have "same_view (pgdirs s) s s''" using 1(2) 2(2) by (simp add: same_view_def)
  ultimately show ?thesis
    using assms user_write_inv(2) [OF assms(1,2)] unfolding user_write_def by simp
qed

lemma translate_user_write:
  assumes inv: "k_inv s" and w: "user_write s s'" and pd: "cr3 s \<in> pgdirs s" and va: "va < UTOP"
  shows "translate va s' = translate va s"
proof -
  have same: "pmem s' q = pmem s q" if "\<not> data_page s q" for q using w that by (simp add: user_write_def)
  have dir: "pmem s' (cr3 s) = pmem s (cr3 s)" using pd by (intro same) (simp add: data_page_def)
  show ?thesis
  proof (cases "bit (pmem s (cr3 s) (PDX va)) 0")
    case True
    have "PDX va < PDX UTOP" using va by (simp add: below_UTOP_iff)
    then have "PGNUM (pmem s (cr3 s) (PDX va)) \<in> page_tables (pgdirs s) s"
      using True pd unfolding page_tables_def pt_of_def by auto
    then have "pmem s' (PGNUM (pmem s (cr3 s) (PDX va))) = pmem s (PGNUM (pmem s (cr3 s) (PDX va)))"
      by (intro same) (simp add: data_page_def)
    then show ?thesis unfolding translate_def user_write_simps(3) [OF w] dir by simp
  next
    case False
    then show ?thesis unfolding translate_def user_write_simps(3) [OF w] dir by simp
  qed
qed

text \<open>Offsets of the addresses of a short range are pairwise different.\<close>

lemma offsets_differ:
  assumes "i < j" "j < 4096"
  shows "unat (va + of_nat i :: 32 word) mod 4096 \<noteq> unat (va + of_nat j :: 32 word) mod 4096"
proof
  have m: "unat (va + of_nat k :: 32 word) mod 4096 = (unat va + k) mod 4096" if "k < 4096" for k
    using that by (simp add: unat_word_ariths unat_of_nat mod_mod_cancel)
  assume "unat (va + of_nat i :: 32 word) mod 4096 = unat (va + of_nat j :: 32 word) mod 4096"
  then have "(unat va + i) mod 4096 = (unat va + j) mod 4096" using assms by (simp add: m)
  then have "4096 dvd (unat va + j) - (unat va + i)" using assms(1) by (metis add_le_cancel_left less_imp_le mod_eq_dvd_iff_nat)
  then have "4096 dvd j - i" by simp
  then show False using assms by (auto dest: dvd_imp_le)
qed

lemma write_bytes_spec:
  assumes "k_inv s" "cr3 s \<in> pgdirs s" "length bs \<le> 4096"
    and "\<forall>i<length bs. va + of_nat i < UTOP \<and> (\<exists>p off. translate (va + of_nat i) s = Some (p, off, True))"
  shows "\<exists>s'. write_bytes va bs s = Inr ((), s') \<and> user_write s s' \<and>
    (\<forall>i<length bs. read_byte (va + of_nat i) s' = Inr (bs ! i, s')) \<and>
    (\<forall>p off. (\<forall>i<length bs. off \<noteq> unat (va + of_nat i) mod 4096) \<longrightarrow> byte_at s' p off = byte_at s p off)"
  using assms
proof (induction bs arbitrary: va s)
  case Nil
  then show ?case by (simp add: user_write_refl)
next
  case (Cons b bs)
  obtain p off where tr: "translate va s = Some (p, off, True)" and va: "va < UTOP" using Cons.prems(4) by force
  note d = translate_data [OF Cons.prems(1,2) va tr]
  let ?s1 = "put_byte p off b s"
  have w1: "user_write s ?s1" by (rule user_write_put [OF Cons.prems(1) d(1)])
  have inv1: "k_inv ?s1" by (rule user_write_inv(1) [OF Cons.prems(1) w1])
  have cr: "cr3 ?s1 \<in> pgdirs ?s1" using Cons.prems(2) user_write_simps(2,3) [OF w1] by simp
  have tr1: "translate x ?s1 = translate x s" if "x < UTOP" for x
    by (rule translate_user_write [OF Cons.prems(1) w1 Cons.prems(2) that])
  have "\<forall>i<length bs. va + 1 + of_nat i < UTOP \<and> (\<exists>p off. translate (va + 1 + of_nat i) ?s1 = Some (p, off, True))"
  proof (intro allI impI)
    fix i assume "i < length bs"
    then have "va + of_nat (Suc i) < UTOP \<and> (\<exists>p off. translate (va + of_nat (Suc i)) s = Some (p, off, True))"
      using Cons.prems(4) by (metis Suc_less_eq length_Cons)
    then show "va + 1 + of_nat i < UTOP \<and> (\<exists>p off. translate (va + 1 + of_nat i) ?s1 = Some (p, off, True))"
      using tr1 by (simp add: add.assoc)
  qed
  with Cons.IH [OF inv1 cr, of "va + 1"] Cons.prems(3) obtain s' where
    s': "write_bytes (va + 1) bs ?s1 = Inr ((), s')" "user_write ?s1 s'"
      "\<forall>i<length bs. read_byte (va + 1 + of_nat i) s' = Inr (bs ! i, s')"
      "\<forall>p off. (\<forall>i<length bs. off \<noteq> unat (va + 1 + of_nat i) mod 4096) \<longrightarrow> byte_at s' p off = byte_at ?s1 p off" by auto
  have run: "write_bytes va (b # bs) s = Inr ((), s')" using s'(1) write_byte_put [OF tr] by simp
  have w: "user_write s s'" by (rule user_write_trans [OF Cons.prems(1) w1 s'(2)])
  have off': "off \<noteq> unat (va + 1 + of_nat i) mod 4096" if "i < length bs" for i
    using offsets_differ [of 0 "Suc i" va] that Cons.prems(3) d(2) by (simp add: add.assoc)
  have first: "read_byte va s' = Inr (b, s')"
    using s'(4) off' translate_user_write [OF Cons.prems(1) w Cons.prems(2) va] tr
    by (simp add: read_byte_at byte_at_put)
  have all: "\<forall>i<length (b # bs). read_byte (va + of_nat i) s' = Inr ((b # bs) ! i, s')"
  proof (intro allI impI)
    fix i assume "i < length (b # bs)"
    then show "read_byte (va + of_nat i) s' = Inr ((b # bs) ! i, s')"
      using first s'(3) by (cases i) (simp_all add: add.assoc)
  qed
  have "byte_at s' p' o' = byte_at s p' o'" if o: "\<forall>i<length (b # bs). o' \<noteq> unat (va + of_nat i) mod 4096" for p' o'
  proof -
    have "o' \<noteq> off" using o d(2) by force
    moreover have "\<forall>i<length bs. o' \<noteq> unat (va + 1 + of_nat i) mod 4096"
    proof (intro allI impI)
      fix i assume "i < length bs"
      then show "o' \<noteq> unat (va + 1 + of_nat i) mod 4096" using o [rule_format, of "Suc i"] by (simp add: add.assoc)
    qed
    ultimately show ?thesis using s'(4) by (simp add: byte_at_put)
  qed
  then show ?case using run w all by blast
qed

end
