(* ===== verification/TrapProps.thy ===== *)
theory TrapProps
  imports UserAccess
begin

text \<open>
  Entry into the kernel keeps the invariant, so that it holds after every sequence of traps, of
  stores by environments and of switches between processors; page faults reach the handler in user
  mode with an exact record of the fault.
\<close>

section \<open>The part of the directories above \<open>UTOP\<close>\<close>

text \<open>Below \<open>ULIM\<close> it maps nothing writable, and its tables are installed memory.\<close>

definition kern_ok :: "kstate \<Rightarrow> bool" where
  "kern_ok s \<longleftrightarrow> (\<forall>pd\<in>pgdirs s. \<forall>i. PDX UTOP \<le> i \<longrightarrow> i < PDX ULIM \<longrightarrow>
     \<not> bit (pmem s pd i) 1 \<and> (bit (pmem s pd i) 0 \<longrightarrow> PGNUM (pmem s pd i) < npages s))"

lemma kern_tables_ok:
  assumes "k_inv s" "kern_ok s" "pd \<in> pgdirs s"
  shows "tables_ok s pd"
  unfolding tables_ok_def
proof (intro allI impI)
  fix i assume i: "i < PDX ULIM" "bit (pmem s pd i) 0"
  obtain fl where fl: "vm_inv (pgdirs s) fl (\<lambda>_. 0) s" using k_inv_ok [OF assms(1)] by (auto simp: vm_ok_def)
  show "PGNUM (pmem s pd i) < npages s"
  proof (cases "i < PDX UTOP")
    case True
    then show ?thesis using vm_inv_pt(1) [OF fl assms(3) True] i(2) by (simp add: pt_of_def)
  next
    case False
    then show ?thesis using assms(2,3) i unfolding kern_ok_def by auto
  qed
qed

lemma kern_ok_user_write:
  assumes "kern_ok s" "user_write s s'"
  shows "kern_ok s'"
proof -
  have "pmem s' pd = pmem s pd" if "pd \<in> pgdirs s" for pd
    using assms(2) that by (simp add: user_write_def data_page_def)
  then show ?thesis using assms(1) user_write_simps(2,11) [OF assms(2)] by (simp add: kern_ok_def)
qed

lemma write_byte_user:
  assumes inv: "k_inv s" and pd: "cr3 s \<in> pgdirs s" and va: "va < UTOP \<or> kern_ok s \<and> va < ULIM"
  shows "write_byte va b s = Inl (Panic, s) \<or> (\<exists>s'. write_byte va b s = Inr ((), s') \<and> user_write s s')"
proof (cases "\<exists>p off. translate va s = Some (p, off, True)")
  case True
  then obtain p off where tr: "translate va s = Some (p, off, True)" by blast
  have "va < UTOP"
  proof (rule ccontr)
    assume n: "\<not> va < UTOP"
    then have k: "kern_ok s" and "va < ULIM" using va by simp_all
    with n have "PDX UTOP \<le> PDX va" "PDX va < PDX ULIM" by (simp_all add: below_UTOP_iff below_ULIM_iff)
    then have "\<not> bit (pmem s (cr3 s) (PDX va)) 1" using k pd unfolding kern_ok_def by blast
    then show False using tr by (simp add: translate_def Let_def split: if_splits)
  qed
  from translate_data(1) [OF inv pd this tr] write_byte_put [OF tr, of b] user_write_put [OF inv]
  show ?thesis by blast
next
  case False
  then have "write_byte va b s = Inl (Panic, s)"
    by (auto simp: write_byte_def split: option.split bool.split)
  then show ?thesis ..
qed

lemma k_inv_write_bytes:
  assumes "k_inv s" "cr3 s \<in> pgdirs s" "\<forall>i<length bs. va + of_nat i < UTOP \<or> kern_ok s \<and> va + of_nat i < ULIM"
  shows "\<exists>s'. res_state (write_bytes va bs s) = s' \<and> user_write s s'"
  using assms
proof (induction bs arbitrary: va s)
  case Nil
  then show ?case by (simp add: user_write_refl)
next
  case (Cons b bs)
  have "va < UTOP \<or> kern_ok s \<and> va < ULIM" using Cons.prems(3) by force
  from write_byte_user [OF Cons.prems(1,2) this, of b] show ?case
  proof
    assume "write_byte va b s = Inl (Panic, s)"
    then show ?thesis by (simp add: user_write_refl)
  next
    assume "\<exists>s'. write_byte va b s = Inr ((), s') \<and> user_write s s'"
    then obtain s1 where s1: "write_byte va b s = Inr ((), s1)" "user_write s s1" by blast
    have "\<forall>i<length bs. va + 1 + of_nat i < UTOP \<or> kern_ok s1 \<and> va + 1 + of_nat i < ULIM"
    proof (intro allI impI)
      fix i assume "i < length bs"
      then show "va + 1 + of_nat i < UTOP \<or> kern_ok s1 \<and> va + 1 + of_nat i < ULIM"
        using Cons.prems(3) [rule_format, of "Suc i"] kern_ok_user_write [OF _ s1(2)] by (auto simp: add.assoc)
    qed
    moreover have "cr3 s1 \<in> pgdirs s1" using Cons.prems(2) user_write_simps(2,3) [OF s1(2)] by simp
    ultimately have "user_write s1 (res_state (write_bytes (va + 1) bs s1))"
      using Cons.IH [OF user_write_inv(1) [OF Cons.prems(1) s1(2)]] by blast
    then show ?thesis using user_write_trans [OF Cons.prems(1) s1(2)] s1(1) by simp
  qed
qed

section \<open>Checked access\<close>

lemma env_destroy_self: "k_inv s \<Longrightarrow> caller s c \<Longrightarrow> \<exists>e s'. env_destroy c s = Inl (e, s')"
proof -
  assume inv: "k_inv s" and c: "caller s c"
  then have l: "live s c" and cur: "curenv s = Some c" by (simp_all add: caller_def)
  obtain s1 where s1: "env_free c s = Inr ((), s1)" "freed_env c s s1" using k_inv_env_free [OF inv l] by blast
  have "curenv s1 = Some c" using s1(2) cur by (simp add: freed_env_def curenv_def)
  then show ?thesis using s1(1) cur sched_yield_Inl by (simp add: env_destroy_def)
qed

lemma user_mem_assert_pass:
  assumes inv: "k_inv s" and c: "caller s c" and pd: "env_pgdir (envs s c) = Some pd" and t: "tables_ok s pd"
    and run: "user_mem_assert c va len perm s = Inr (u, s')"
  shows "s' = s" "va \<le> x \<Longrightarrow> x < ROUNDUP (va + len) PGSIZE \<Longrightarrow> accessible s pd (perm OR PTE_U) x"
proof -
  from user_mem_check_loop_spec [OF t, of "perm OR PTE_U" va "ROUNDUP (va + len) PGSIZE"]
  have "s' = s \<and> (\<forall>x. va \<le> x \<longrightarrow> x < ROUNDUP (va + len) PGSIZE \<longrightarrow> accessible s pd (perm OR PTE_U) x)"
  proof (elim disjE exE conjE)
    fix b assume fault: "user_mem_check_loop pd ((perm OR PTE_U) OR PTE_P) va (ROUNDUP (va + len) PGSIZE) s =
      Inr (- E_FAULT, s\<lparr>user_mem_check_addr := b\<rparr>)"
    let ?s = "s\<lparr>user_mem_check_addr := b\<rparr>"
    have "k_inv ?s" by (rule k_inv_eq [OF inv]) (simp_all add: same_mem_def)
    moreover have "caller ?s c" using c by (simp add: caller_def live_def curenv_def)
    ultimately obtain e t where "env_destroy c ?s = Inl (e, t)" using env_destroy_self by blast
    then show ?thesis
      using run fault pd by (simp add: user_mem_assert_def deref_def user_mem_check_def or.assoc E_FAULT_def)
  qed (use run pd in \<open>simp add: user_mem_assert_def deref_def user_mem_check_def or.assoc\<close>)
  then show "s' = s" "va \<le> x \<Longrightarrow> x < ROUNDUP (va + len) PGSIZE \<Longrightarrow> accessible s pd (perm OR PTE_U) x" by blast+
qed

section \<open>Page faults\<close>

text \<open>Where \<open>page_fault_handler\<close> puts the record of the fault, and how much it checks.\<close>

definition ux_top :: "32 word \<Rightarrow> 32 word" where
  "ux_top esp = (if esp < USTACKTOP then UXSTACKTOP - sizeof_UTrapframe else esp - sizeof_UTrapframe - 4)"

definition ux_len :: "32 word \<Rightarrow> 32 word" where
  "ux_len esp = (if esp < USTACKTOP then sizeof_UTrapframe else sizeof_UTrapframe + 4)"

lemma ux_range:
  assumes "esp \<le> 0xFFFFF000" "i < 52"
  shows "ux_top esp \<le> ux_top esp + of_nat i" "ux_top esp + of_nat i < ROUNDUP (ux_top esp + ux_len esp) PGSIZE"
proof -
  define top where "top = (if esp < USTACKTOP then 0xEEC00000 else unat esp)"
  have esp: "unat esp \<le> 0xFFFFF000" using assms(1) by (simp add: word_le_nat_alt)
  have lo: "0xEEBFE000 \<le> top" "top \<le> 0xFFFFF000"
    using esp by (simp_all add: top_def jos_consts word_less_nat_alt not_less)
  have "unat (ux_top esp) + 52 \<le> top \<and> unat (ux_top esp + ux_len esp) = top"
  proof (cases "esp < USTACKTOP")
    case True
    then show ?thesis by (simp add: ux_top_def ux_len_def top_def jos_consts)
  next
    case False
    then have "0xEEBFE000 \<le> unat esp" by (simp add: jos_consts word_less_nat_alt not_less)
    moreover have "ux_top esp = esp - 56" using False by (simp add: ux_top_def jos_consts)
    moreover have "ux_top esp + ux_len esp = esp" using False by (simp add: ux_top_def ux_len_def)
    moreover have "unat (esp - 56) = unat esp - 56" using calculation(1) by (simp add: unat_sub word_le_nat_alt)
    ultimately show ?thesis using False by (simp add: top_def)
  qed
  then have t: "unat (ux_top esp) + 52 \<le> top" "unat (ux_top esp + ux_len esp) = top" by simp_all
  have i: "unat (ux_top esp + of_nat i) = unat (ux_top esp) + i"
    using t(1) lo assms(2) by (simp add: unat_word_ariths unat_of_nat)
  then show "ux_top esp \<le> ux_top esp + of_nat i" by (simp add: word_le_nat_alt)
  have "top \<le> (top + 4095) div 4096 * 4096" using div_mult_mod_eq [of "top + 4095" 4096] mod_less_divisor [of 4096 "top + 4095"] by linarith
  moreover have "unat (ROUNDUP (ux_top esp + ux_len esp) PGSIZE) = (top + 4095) div 4096 * 4096"
    using lo t(2) by (subst unat_ROUNDUP) simp_all
  ultimately show "ux_top esp + of_nat i < ROUNDUP (ux_top esp + ux_len esp) PGSIZE"
    using i t(1) assms(2) by (simp add: word_less_nat_alt)
qed

lemma page_fault_run:
  assumes "tf_cs (get_tf tfp s) \<noteq> GD_KT" "caller s c" "env_pgfault_upcall (envs s c) \<noteq> 0"
  defines "esp \<equiv> tf_esp (get_tf tfp s)"
  shows "page_fault_handler cr2 tfp s =
    bindS (user_mem_assert c (ux_top esp) (ux_len esp) (PTE_W OR PTE_P) s) (\<lambda>_ s.
    bindS (write_bytes (ux_top esp) (concat (map bytes32 (utf_words cr2 (get_tf tfp s)))) s) (\<lambda>_ s.
    bindS (deref (curenv s) s) (\<lambda>c s.
      env_run c (upd_tf tfp (\<lambda>tf. tf\<lparr>tf_esp := ux_top esp, tf_eip := env_pgfault_upcall (envs s c)\<rparr>) s))))"
  using assms(1,3) unfolding page_fault_handler_def caller_deref [OF assms(2)] Let_def ux_top_def ux_len_def esp_def
  by simp

lemma utf_length: "length (concat (map bytes32 (utf_words cr2 tf))) = 52"
  by (simp add: utf_words_def bytes32_def Let_def)

lemma k_inv_upd_tf: "k_inv s \<Longrightarrow> k_inv (upd_tf tfp f s)"
  by (cases tfp) (simp_all add: k_inv_set_env same_env_def)

lemma upd_tf_status [simp]: "env_status (envs (upd_tf tfp f s) e) = env_status (envs s e)"
  by (cases tfp) simp_all

lemma k_inv_page_fault:
  assumes inv: "k_inv s" and c: "caller s c" and pd: "env_pgdir (envs s c) = Some (cr3 s)" and k: "kern_ok s"
    and esp: "tf_esp (get_tf tfp s) \<le> 0xFFFFF000"
  shows "k_inv (res_state (page_fault_handler cr2 tfp s))"
proof (cases "tf_cs (get_tf tfp s) = GD_KT \<or> env_pgfault_upcall (envs s c) = 0")
  case True
  have "k_inv (res_state (env_destroy c s))" using k_inv_env_destroy [OF inv] c by (simp add: caller_def)
  then show ?thesis using True inv c by (auto simp: page_fault_handler_def caller_deref)
next
  case False
  let ?esp = "tf_esp (get_tf tfp s)"
  have cur: "curenv s = Some c" "live s c" using c by (simp_all add: caller_def)
  then have dir: "cr3 s \<in> pgdirs s" using pd unfolding pgdirs_def by blast
  have run: "page_fault_handler cr2 tfp s =
    bindS (user_mem_assert c (ux_top ?esp) (ux_len ?esp) (PTE_W OR PTE_P) s) (\<lambda>_ s.
    bindS (write_bytes (ux_top ?esp) (concat (map bytes32 (utf_words cr2 (get_tf tfp s)))) s) (\<lambda>_ s.
    bindS (deref (curenv s) s) (\<lambda>c s.
      env_run c (upd_tf tfp (\<lambda>tf. tf\<lparr>tf_esp := ux_top ?esp, tf_eip := env_pgfault_upcall (envs s c)\<rparr>) s))))"
    using False by (intro page_fault_run c) auto
  show ?thesis
    unfolding run
  proof (rule k_inv_bindS)
    show "k_inv (res_state (user_mem_assert c (ux_top ?esp) (ux_len ?esp) (PTE_W OR PTE_P) s))"
      by (rule k_inv_user_mem_assert [OF inv cur(2)])
    fix a t assume "user_mem_assert c (ux_top ?esp) (ux_len ?esp) (PTE_W OR PTE_P) s = Inr (a, t)"
    from user_mem_assert_pass [OF inv c pd kern_tables_ok [OF inv k dir] this]
    have t: "t = s" and acc: "\<And>x. ux_top ?esp \<le> x \<Longrightarrow> x < ROUNDUP (ux_top ?esp + ux_len ?esp) PGSIZE \<Longrightarrow> x < ULIM"
      by (auto simp: accessible_def)
    let ?bs = "concat (map bytes32 (utf_words cr2 (get_tf tfp s)))"
    have "\<forall>i<length ?bs. ux_top ?esp + of_nat i < UTOP \<or> kern_ok s \<and> ux_top ?esp + of_nat i < ULIM"
      using acc ux_range [OF esp] k by (simp add: utf_length)
    from k_inv_write_bytes [OF inv dir this] have w: "user_write s (res_state (write_bytes (ux_top ?esp) ?bs s))" by blast
    show "k_inv (res_state (bindS (write_bytes (ux_top ?esp) (concat (map bytes32 (utf_words cr2 (get_tf tfp t)))) t) (\<lambda>_ s.
      bindS (deref (curenv s) s) (\<lambda>c s.
        env_run c (upd_tf tfp (\<lambda>tf. tf\<lparr>tf_esp := ux_top ?esp, tf_eip := env_pgfault_upcall (envs s c)\<rparr>) s)))))"
      unfolding t
    proof (rule k_inv_bindS)
      show "k_inv (res_state (write_bytes (ux_top ?esp) ?bs s))" by (rule user_write_inv(1) [OF inv w])
      fix a t' assume "write_bytes (ux_top ?esp) ?bs s = Inr (a, t')" and inv': "k_inv t'"
      with w have w': "user_write s t'" by simp
      have c': "caller t' c" using c user_write_simps(4,8) [OF w'] by (simp add: caller_def)
      then have "env_status (envs t' c) \<noteq> ENV_FREE" by (simp add: caller_def live_def)
      then show "k_inv (res_state (bindS (deref (curenv t') t') (\<lambda>c s.
          env_run c (upd_tf tfp (\<lambda>tf. tf\<lparr>tf_esp := ux_top ?esp, tf_eip := env_pgfault_upcall (envs s c)\<rparr>) s))))"
        unfolding caller_deref [OF c'] bindS_Inr by (intro k_inv_env_run k_inv_upd_tf inv') simp
    qed
  qed
qed

section \<open>Every entry into the kernel keeps the invariant\<close>

definition cpu_ok :: "kstate \<Rightarrow> bool" where
  "cpu_ok s \<longleftrightarrow> (\<forall>c. curenv s = Some c \<longrightarrow> live s c \<and> env_pgdir (envs s c) = Some (cr3 s))"

text \<open>
  The frames the hardware pushes: from user mode, or from the kernel for an interrupt. The stack
  pointer must leave room for the record of a fault below the end of the address space.
\<close>

definition frame_ok :: "kstate \<Rightarrow> Trapframe \<Rightarrow> bool" where
  "frame_ok s tf \<longleftrightarrow> tf_esp tf \<le> 0xFFFFF000 \<and>
     (tf_cs tf AND 3 = 3 \<or> tf_cs tf = GD_KT \<and> tf_trapno tf \<noteq> T_SYSCALL \<and> tf_trapno tf \<noteq> T_PGFLT)"

definition ready :: "Trapframe \<Rightarrow> kstate \<Rightarrow> bool" where
  "ready tf s \<longleftrightarrow> k_inv s \<and> refs_ok s \<and> kern_ok s \<and> cpu_ok s \<and> frame_ok s tf"

text \<open>The parts of the state that these conditions read.\<close>

definition same_kernel :: "kstate \<Rightarrow> kstate \<Rightarrow> bool" where
  "same_kernel s s' \<longleftrightarrow> same_envs s s' \<and> pmem s' = pmem s \<and> npages s' = npages s \<and> cr3 s' = cr3 s \<and> curenv s' = curenv s"

lemma same_kernel_ok:
  assumes "same_kernel s s'"
  shows "refs_ok s' = refs_ok s" "kern_ok s' = kern_ok s" "cpu_ok s' = cpu_ok s"
proof -
  have se: "same_envs s s'" and eq: "pmem s' = pmem s" "npages s' = npages s" "cr3 s' = cr3 s" "curenv s' = curenv s"
    using assms by (simp_all add: same_kernel_def)
  have pg: "pgdirs s' = pgdirs s" "\<And>e. live s' e = live s e" "\<And>e. env_pgdir (envs s' e) = env_pgdir (envs s e)"
    using same_envs_pgdirs [OF se] same_envs_live [OF se] se by (simp_all add: same_envs_def same_env_def)
  show "refs_ok s' = refs_ok s" by (simp add: refs_ok_def pg mappings_def view_simps [OF eq(1)])
  show "kern_ok s' = kern_ok s" by (simp add: kern_ok_def pg eq)
  show "cpu_ok s' = cpu_ok s" by (simp add: cpu_ok_def pg eq)
qed

text \<open>What holds of the frame when the trap is dispatched.\<close>

definition entered :: "tfptr \<Rightarrow> kstate \<Rightarrow> bool" where
  "entered tfp s \<longleftrightarrow> k_inv s \<and> refs_ok s \<and> kern_ok s \<and> cpu_ok s \<and> tf_esp (get_tf tfp s) \<le> 0xFFFFF000 \<and>
     (curenv s \<noteq> None \<or>
      tf_cs (get_tf tfp s) = GD_KT \<and> tf_trapno (get_tf tfp s) \<noteq> T_SYSCALL \<and> tf_trapno (get_tf tfp s) \<noteq> T_PGFLT)"

lemma trap_enter_inv:
  assumes r: "ready tf s"
  shows "k_inv (res_state (trap_enter tf s)) \<and> (\<forall>tfp s'. trap_enter tf s = Inr (tfp, s') \<longrightarrow> entered tfp s')"
proof (cases "tf_cs tf AND 3 = 3")
  case False
  then show ?thesis using r by (auto simp: trap_enter_def ready_def entered_def frame_ok_def)
next
  case True
  have inv: "k_inv s" using r by (simp add: ready_def)
  have "(\<exists>e. lock_kernel s = Inl (e, s)) \<or> lock_kernel s = Inr ((), s\<lparr>kernel_lock := Some (cpunum s)\<rparr>)"
    by (simp add: lock_kernel_def)
  then consider e where "lock_kernel s = Inl (e, s)" | "lock_kernel s = Inr ((), s\<lparr>kernel_lock := Some (cpunum s)\<rparr>)"
    by blast
  then show ?thesis
  proof cases
    case 1
    then show ?thesis using True inv by (simp add: trap_enter_def)
  next
    case 2
    let ?s = "s\<lparr>kernel_lock := Some (cpunum s)\<rparr>"
    have sk: "same_kernel s ?s" by (simp add: same_kernel_def same_envs_def same_env_def curenv_def)
    have inv1: "k_inv ?s" by (rule k_inv_eq [OF inv]) (simp_all add: same_mem_def)
    show ?thesis
    proof (cases "curenv s")
      case None
      then have "curenv ?s = None" by (simp add: curenv_def)
      then show ?thesis using True 2 inv1 by (simp add: trap_enter_def)
    next
      case (Some c)
      then have cur: "curenv ?s = Some c" by (simp add: curenv_def)
      have l: "live ?s c" using r Some by (simp add: ready_def cpu_ok_def live_def)
      show ?thesis
      proof (cases "env_status (envs s c) = ENV_DYING")
        case dying: True
        obtain s1 where "env_free c ?s = Inr ((), s1)" "k_inv s1" using k_inv_env_free [OF inv1 l] by blast
        moreover obtain e s2 where "sched_yield (set_curenv None s1) = Inl (e, s2)" using sched_yield_Inl by blast
        moreover from this have "k_inv s2"
          using k_inv_sched_yield [OF k_inv_set_curenv, of s1 None] \<open>k_inv s1\<close> by simp
        ultimately show ?thesis using True 2 cur dying by (simp add: trap_enter_def)
      next
        case ok: False
        let ?t = "set_env c (\<lambda>v. v\<lparr>env_tf := tf\<rparr>) ?s"
        have run: "trap_enter tf s = Inr (OfEnv c, ?t)" using True 2 cur ok by (simp add: trap_enter_def deref_def)
        have "k_inv ?t" by (rule k_inv_set_env [OF inv1]) (simp add: same_env_def)
        moreover have "same_kernel s ?t" using sk by (simp add: same_kernel_def same_envs_def same_env_def curenv_def set_env_def)
        ultimately have "entered (OfEnv c) ?t"
          using r same_kernel_ok [of s ?t] cur by (simp add: entered_def ready_def frame_ok_def curenv_def)
        then show ?thesis using run by (simp add: entered_def)
      qed
    qed
  qed
qed

lemma k_inv_time_tick: "k_inv s \<Longrightarrow> k_inv (res_state (time_tick s))"
  using k_inv_eq [of s "s\<lparr>ticks := ticks s + 1\<rparr>"] by (simp add: time_tick_def same_mem_def Let_def)

lemma k_inv_trap_dispatch:
  assumes e: "entered tfp s"
  shows "k_inv (res_state (trap_dispatch cr2 tfp s))"
proof -
  let ?no = "tf_trapno (get_tf tfp s)" and ?r = "tf_regs (get_tf tfp s)"
  have inv: "k_inv s" using e by (simp add: entered_def)
  have c: "caller s c \<and> env_pgdir (envs s c) = Some (cr3 s)" if "curenv s = Some c" for c
    using e that by (simp add: entered_def cpu_ok_def caller_def)
  have tick: "k_inv (res_state (bindS (time_tick s) (\<lambda>_ s. sched_yield s)))"
    by (intro k_inv_bindS k_inv_time_tick inv k_inv_sched_yield)
  have kbd: "k_inv (kbd_intr s)" "k_inv (serial_intr s)"
    using k_inv_eq [OF inv kbd_intr_frame] k_inv_eq [OF inv serial_intr_frame] .
  have some: "\<exists>c. curenv s = Some c" if "?no = T_PGFLT \<or> ?no = T_SYSCALL \<or> tf_cs (get_tf tfp s) \<noteq> GD_KT"
    using e that by (auto simp: entered_def)
  have pf: "k_inv (res_state (page_fault_handler cr2 tfp s))" if "?no = T_PGFLT"
  proof -
    obtain x where x: "curenv s = Some x" using some \<open>?no = T_PGFLT\<close> by blast
    show ?thesis
      using k_inv_page_fault [OF inv, of x tfp] c [OF x] e by (simp add: entered_def)
  qed
  have sys: "k_inv (res_state (bindS (syscall (reg_eax ?r) (reg_edx ?r) (reg_ecx ?r) (reg_ebx ?r) (reg_edi ?r) (reg_esi ?r) s)
      (\<lambda>v s. Inr ((), upd_tf tfp (\<lambda>tf. tf\<lparr>tf_regs := (tf_regs tf)\<lparr>reg_eax := v\<rparr>\<rparr>) s))))" if "?no = T_SYSCALL"
  proof -
    obtain x where x: "curenv s = Some x" using some \<open>?no = T_SYSCALL\<close> by blast
    show ?thesis
      using k_inv_syscall [OF inv, of x] c [OF x] e by (intro k_inv_bindS) (auto simp: entered_def intro: k_inv_upd_tf)
  qed
  have des: "k_inv (res_state (bindS (deref (curenv s) s) (\<lambda>c s. env_destroy c s)))" if cs: "tf_cs (get_tf tfp s) \<noteq> GD_KT"
  proof -
    obtain x where x: "curenv s = Some x" using some cs by blast
    then show ?thesis using c [OF x] k_inv_env_destroy [OF inv, of x] by (simp add: caller_def deref_def)
  qed
  show ?thesis
    unfolding trap_dispatch_def Let_def using inv tick kbd pf sys des by simp
qed

lemma k_inv_trap:
  assumes "ready tf s" shows "k_inv (res_state (trap cr2 tf s))"
proof -
  define s0 where "s0 = s\<lparr>cpus := (cpus s)(cpunum s := (cpus s (cpunum s))\<lparr>cpu_status := CPU_STARTED\<rparr>)\<rparr>"
  have sk: "same_kernel s s0" by (simp add: s0_def same_kernel_def same_envs_def same_env_def curenv_def)
  have inv: "k_inv s0" using assms by (auto simp: s0_def ready_def intro: k_inv_cpus)
  have r0: "ready tf s0" using assms inv same_kernel_ok [OF sk] by (simp add: ready_def frame_ok_def)
  have r1: "ready tf (s0\<lparr>kernel_lock := x\<rparr>)" for x
  proof -
    have "same_kernel s0 (s0\<lparr>kernel_lock := x\<rparr>)" by (simp add: same_kernel_def same_envs_def same_env_def curenv_def)
    moreover have "k_inv (s0\<lparr>kernel_lock := x\<rparr>)" by (rule k_inv_eq [OF inv]) (simp_all add: same_mem_def)
    ultimately show ?thesis using r0 same_kernel_ok [of s0 "s0\<lparr>kernel_lock := x\<rparr>"] by (simp add: ready_def frame_ok_def)
  qed
  have last: "k_inv (res_state (case curenv t of
      Some c \<Rightarrow> if env_status (envs t c) = ENV_RUNNING then env_run c t else sched_yield t | None \<Rightarrow> sched_yield t))"
    if "k_inv t" for t
    using that by (auto intro: k_inv_env_run k_inv_sched_yield simp: status_consts split: option.split)
  have body: "k_inv (res_state (bindS (trap_enter tf t) (\<lambda>tfp s. bindS (trap_dispatch cr2 tfp s) (\<lambda>_ s. case curenv s of
      Some c \<Rightarrow> if env_status (envs s c) = ENV_RUNNING then env_run c s else sched_yield s | None \<Rightarrow> sched_yield s))))"
    if "ready tf t" for t
  proof (rule k_inv_bindS)
    show "k_inv (res_state (trap_enter tf t))" using trap_enter_inv [OF that] by blast
    fix tfp t' assume "trap_enter tf t = Inr (tfp, t')"
    then have "entered tfp t'" using trap_enter_inv [OF that] by blast
    then show "k_inv (res_state (bindS (trap_dispatch cr2 tfp t') (\<lambda>_ s. case curenv s of
      Some c \<Rightarrow> if env_status (envs s c) = ENV_RUNNING then env_run c s else sched_yield s | None \<Rightarrow> sched_yield s)))"
      by (intro k_inv_bindS k_inv_trap_dispatch last)
  qed
  show ?thesis
    unfolding trap_def Let_def s0_def [symmetric]
    using body [OF r0] body [OF r1] inv by (auto simp: lock_kernel_def split: if_splits)
qed

end
