(* ===== verification/Load.thy ===== *)
theory Load
  imports TrapProps
begin

text \<open>
  Loading a program into a new environment keeps the invariant, for images whose segments lie below
  \<open>UTOP\<close>.
\<close>

section \<open>Allocating regions\<close>

lemma page_alloc_spec:
  assumes ok: "vm_ok pds s"
  shows "page_alloc 0 s = Inr (None, s) \<or>
    (\<exists>p s1 fl. page_alloc 0 s = Inr (Some p, s1) \<and> vm_inv pds fl (\<lambda>_. 0) s1 \<and> limbo pds fl (\<lambda>_. 0) s1 p \<and>
       vm_frame s s1 \<and> (\<forall>pd\<in>pds. \<forall>va<UTOP. look s1 pd va = look s pd va))"
proof -
  obtain fl where inv: "vm_inv pds fl (\<lambda>_. 0) s" using ok by (auto simp: vm_ok_def)
  show ?thesis
  proof (cases fl)
    case Nil
    then show ?thesis using page_alloc_Nil [of s 0] inv by (simp add: vm_inv_def)
  next
    case (Cons p fl')
    have fl: "fl_inv (p # fl') s" and np: "npages s \<le> 0x100000" using inv Cons by (simp_all add: vm_inv_def)
    have "page_alloc 0 s = Inr (Some p, pop_page p s)" using page_alloc_Cons [OF fl np, of 0] by simp
    moreover have "vm_frame s (pop_page p s)" by (simp add: frame_simps)
    moreover have "look (pop_page p s) = look s" by (simp add: look_def fun_eq_iff view_simps [of "pop_page p s" s])
    ultimately show ?thesis using vm_inv_pop [OF inv [unfolded Cons]] by auto
  qed
qed

lemma region_page_inv:
  assumes inv: "k_inv s" and l: "live s e" and a: "a < UTOP"
  shows "k_inv (res_state (region_page e a s)) \<and> vm_frame s (res_state (region_page e a s))"
proof -
  obtain pd where pd: "env_pgdir (envs s e) = Some pd" "pd \<in> pgdirs s" by (rule k_inv_pgdir [OF inv l])
  note vm = k_inv_ok [OF inv]
  show ?thesis
    using page_alloc_spec [OF vm]
  proof (elim disjE exE conjE)
    assume "page_alloc 0 s = Inr (None, s)"
    then show ?thesis using inv by (simp add: region_page_def)
  next
    fix p s1 fl assume s1: "page_alloc 0 s = Inr (Some p, s1)" "vm_inv (pgdirs s) fl (\<lambda>_. 0) s1"
      "limbo (pgdirs s) fl (\<lambda>_. 0) s1 p" "vm_frame s s1"
    have "uninit s1 \<noteq> 0" using vm s1(4) by (simp add: vm_ok_def vm_frame_iff)
    then have ok1: "vm_ok (pgdirs s) s1" using s1(2) by (auto simp: vm_ok_def)
    have "mappings (pgdirs s) s1 p = {}" using s1(3) by (simp add: limbo_def)
    then have m: "mappable (pgdirs s) s1 p" using s1(2) limbo_insertable [OF s1(3)] by (auto simp: mappable_def)
    have run: "region_page e a s =
        bindS (page_insert pd p a (PTE_W OR PTE_U) s1) (\<lambda>r s. if r \<noteq> 0 then Inl (Panic, s) else Inr ((), s))"
      using s1(1) pd(1) vm_frame_k(1) [OF s1(4)] by (simp add: region_page_def deref_def)
    have "flags_only (PTE_W OR PTE_U)" by simp
    from page_insert_law [OF ok1 pd(2) a this m] show ?thesis
    proof (elim disjE exE conjE)
      assume "page_insert pd p a (PTE_W OR PTE_U) s1 = Inr (- E_NO_MEM, s1)"
      then show ?thesis unfolding run using k_inv_page_op [OF inv ok1 s1(4)] s1(4) err_consts by simp
    next
      fix s' assume "page_insert pd p a (PTE_W OR PTE_U) s1 = Inr (0, s')" "vm_ok (pgdirs s) s'" "vm_frame s1 s'"
      then show ?thesis unfolding run using k_inv_page_op [OF inv] vm_frame_trans [OF s1(4)] by simp
    qed
  qed
qed

text \<open>A loop keeps a property that its body keeps, also where it stops early.\<close>

lemma for_each_state:
  assumes "I s" and "\<And>i s. i \<in> set xs \<Longrightarrow> I s \<Longrightarrow> I (res_state (body i s))"
  shows "I (res_state (for_each body xs s))"
  using assms
proof (induction xs arbitrary: s)
  case (Cons i xs)
  have "I (res_state (body i s))" using Cons.prems by simp
  moreover have "I (res_state (for_each body xs t))" if "I t" for t
    using Cons.IH [OF that] Cons.prems(2) by simp
  ultimately show ?case by (simp add: res_state_bindS [where I = I])
qed simp

lemma region_pages_low:
  assumes "stop \<le> UTOP" "a \<in> set (region_pages start stop)"
  shows "a < UTOP"
proof -
  from assms(2) obtain k where k: "start < stop" "k < (unat (stop - start) + 4095) div 4096"
    and a: "a = start + of_nat k * PGSIZE" by (auto simp: region_pages_def page_offsets_def split: if_splits)
  have d: "unat (stop - start) = unat stop - unat start" using k(1) by (simp add: unat_sub less_imp_le)
  have "k * 4096 < unat (stop - start)"
  proof -
    have "Suc k * 4096 \<le> unat (stop - start) + 4095"
      using k(2) by (metis Suc_leI div_times_less_eq_dividend le_trans mult_le_mono1)
    then show ?thesis by simp
  qed
  moreover have "unat stop \<le> 0xEEC00000" using assms(1) by (simp add: word_le_nat_alt unat_UTOP)
  ultimately have "unat start + k * 4096 < 0xEEC00000" using d k(1) by (simp add: word_less_nat_alt)
  then have "unat a < 0xEEC00000" unfolding a by (simp add: unat_word_ariths unat_of_nat PGSIZE_def)
  then show ?thesis by (simp add: word_less_nat_alt unat_UTOP)
qed

lemma region_alloc_inv:
  assumes inv: "k_inv s" and l: "live s e"
  shows "k_inv (res_state (region_alloc e va len s)) \<and> vm_frame s (res_state (region_alloc e va len s))"
proof (cases "UTOP < ROUNDUP (va + len) PGSIZE")
  case True
  then show ?thesis using inv by (simp add: region_alloc_def)
next
  case False
  let ?I = "\<lambda>t. k_inv t \<and> vm_frame s t"
  have low: "ROUNDUP (va + len) PGSIZE \<le> UTOP" using False by simp
  have "?I (res_state (for_each (region_page e) (region_pages (ROUNDDOWN va PGSIZE) (ROUNDUP (va + len) PGSIZE)) s))"
  proof (rule for_each_state [where I = ?I])
    show "?I s" using inv by simp
    fix a t assume "a \<in> set (region_pages (ROUNDDOWN va PGSIZE) (ROUNDUP (va + len) PGSIZE))" "?I t"
    moreover from this have "a < UTOP" "live t e" using l live_frame [of s t] region_pages_low [OF low] by auto
    ultimately show "?I (res_state (region_page e a t))" using region_page_inv [of t e a] vm_frame_trans [of s t] by blast
  qed
  then show ?thesis using False by (simp add: region_alloc_def)
qed

section \<open>Loading\<close>

text \<open>Images whose loadable segments lie below \<open>UTOP\<close>.\<close>

definition segment_ok :: "(nat \<Rightarrow> 8 word) \<Rightarrow> nat \<Rightarrow> bool" where
  "segment_ok binary ph \<longleftrightarrow>
     (le32 binary ph = ELF_PROG_LOAD \<longrightarrow> unat (le32 binary (ph + 8)) + unat (le32 binary (ph + 20)) \<le> unat UTOP)"

definition image_ok :: "(nat \<Rightarrow> 8 word) \<Rightarrow> bool" where
  "image_ok binary \<longleftrightarrow> (\<forall>k<unat (le16 binary 44). segment_ok binary (unat (le32 binary 28) + 32 * k))"

text \<open>The state while environment \<open>e\<close> is being loaded: its directory is in force.\<close>

definition loading :: "nat \<Rightarrow> kstate \<Rightarrow> bool" where
  "loading e s \<longleftrightarrow> k_inv s \<and> live s e \<and> env_pgdir (envs s e) = Some (cr3 s)"

lemma loading_frame: "loading e s \<Longrightarrow> vm_frame s t \<Longrightarrow> k_inv t \<Longrightarrow> loading e t"
  using vm_frame_k(1,5) [of s t] live_frame [of s t] by (simp add: loading_def)

lemma loading_write:
  assumes l: "loading e s" and low: "unat va + length bs \<le> unat UTOP"
  shows "loading e (res_state (write_bytes va bs s))"
proof -
  have inv: "k_inv s" and dir: "cr3 s \<in> pgdirs s" using l unfolding loading_def pgdirs_def by auto
  have "va + of_nat i < UTOP" if "i < length bs" for i
  proof -
    have "unat va + i < unat UTOP" using low that by simp
    moreover from this have "unat (va + of_nat i) = unat va + i"
      by (simp add: unat_word_ariths unat_of_nat unat_UTOP)
    ultimately show ?thesis by (simp add: word_less_nat_alt)
  qed
  then have w: "user_write s (res_state (write_bytes va bs s))" using k_inv_write_bytes [OF inv dir, of bs va] by blast
  show ?thesis using loading_frame [OF l user_write_simps(9) [OF w] user_write_inv(1) [OF inv w]] .
qed

lemma loading_segment:
  assumes l: "loading e s" and seg: "segment_ok binary ph"
  shows "loading e (res_state (load_segment e binary ph s))"
proof (cases "le32 binary ph = ELF_PROG_LOAD \<and> le32 binary (ph + 16) \<le> le32 binary (ph + 20)")
  case False
  then show ?thesis using l by (auto simp: load_segment_def Let_def)
next
  case True
  let ?va = "le32 binary (ph + 8)" and ?m = "le32 binary (ph + 20)" and ?f = "le32 binary (ph + 16)"
  have low: "unat ?va + unat ?m \<le> unat UTOP" "unat ?f \<le> unat ?m"
    using seg True by (simp_all add: segment_ok_def word_le_nat_alt)
  have "loading e (res_state (region_alloc e ?va ?m s))"
    using l region_alloc_inv [of s e ?va ?m] loading_frame [OF l] by (simp add: loading_def)
  moreover have "loading e (res_state (write_bytes ?va (replicate (unat ?m) 0) t))" if "loading e t" for t
    using loading_write [OF that, of ?va] low by simp
  moreover have "loading e (res_state (write_bytes ?va (map f [0..<unat ?f]) t))" if "loading e t" for t f
    using loading_write [OF that, of ?va] low by simp
  ultimately show ?thesis
    using True by (simp add: load_segment_def Let_def res_state_bindS [where I = "loading e"])
qed

lemma k_inv_load_icode:
  assumes inv: "k_inv s" and e: "live s e" and img: "image_ok binary"
  shows "k_inv (res_state (load_icode e binary s))"
proof (cases "le32 binary 0 = ELF_MAGIC")
  case False
  then show ?thesis using inv by (simp add: load_icode_def)
next
  case True
  obtain pd where pd: "env_pgdir (envs s e) = Some pd" by (rule k_inv_pgdir [OF inv e])
  let ?I = "loading e"
  have 0: "?I (lcr3 pd s)" using k_inv_lcr3 [OF inv] e pd by (simp add: loading_def lcr3_def live_def)
  let ?segs = "for_each (\<lambda>k s. load_segment e binary (unat (le32 binary 28) + 32 * k) s) [0..<unat (le16 binary 44)]"
  have 1: "?I (res_state (?segs (lcr3 pd s)))"
    using 0 img by (intro for_each_state [where I = ?I]) (auto simp: image_ok_def intro: loading_segment)
  have 2: "?I (set_env e (\<lambda>v. v\<lparr>env_tf := (env_tf v)\<lparr>tf_eip := x\<rparr>\<rparr>) t)" if "?I t" for t x
    using that by (simp add: loading_def k_inv_set_env same_env_def live_def)
  have 3: "k_inv (res_state (bindS (region_alloc e va len t) (\<lambda>_ s. Inr ((), lcr3 (kern_pgdir s) s))))" if "?I t" for t va len
    using that region_alloc_inv [of t e va len] by (intro k_inv_bindS) (auto simp: loading_def intro: k_inv_lcr3)
  have "k_inv (res_state (bindS (?segs (lcr3 pd s)) (\<lambda>_ s.
      let s1 = set_env e (\<lambda>v. v\<lparr>env_tf := (env_tf v)\<lparr>tf_eip := le32 binary 24\<rparr>\<rparr>) s
      in bindS (region_alloc e (USTACKTOP - PGSIZE) PGSIZE s1) (\<lambda>_ s. Inr ((), lcr3 (kern_pgdir s) s)))))"
    using 1 2 3 unfolding Let_def
    by (cases "?segs (lcr3 pd s)") (auto simp: loading_def)
  then show ?thesis using True pd by (simp add: load_icode_def PADDR_def)
qed

lemma k_inv_env_create:
  assumes inv: "k_inv s" and img: "image_ok binary"
  shows "k_inv (res_state (env_create binary type s))"
  using env_alloc_spec [OF inv, of 0]
proof (elim disjE exE conjE)
  fix e pd s' assume s': "e < NENV" "env_alloc 0 s = Inr ((0, Some e), s')" "k_inv s'" "created_env e pd 0 s s'"
  have l: "live s' e" using created_env_live [OF s'(4,1)] by simp
  have ty: "k_inv (set_env e (\<lambda>v. v\<lparr>env_type := type\<rparr>) t)" if "k_inv t" for t
    by (rule k_inv_set_env [OF that]) (simp add: same_env_def)
  have fs: "k_inv (set_env e (\<lambda>v. v\<lparr>env_tf := (env_tf v)\<lparr>tf_eflags := tf_eflags (env_tf v) OR FL_IOPL_3\<rparr>\<rparr>)
      (set_env e (\<lambda>v. v\<lparr>env_type := type\<rparr>) t))" if "k_inv t" for t
    by (rule k_inv_set_env [OF ty [OF that]]) (simp add: same_env_def)
  show ?thesis
    using s'(2) k_inv_load_icode [OF s'(3) l img] ty fs
    by (auto simp: env_create_def deref_def Let_def intro!: k_inv_bindS)
qed (use inv err_consts in \<open>simp_all add: env_create_def E_NO_FREE_ENV_def\<close>)

end
