(* ===== verification/Machine.thy ===== *)
theory Machine
  imports Load
begin

text \<open>
  The kernel as a transition system: its steps are the creation of environments at boot, entries into
  the kernel, stores by environments, and the turns of other processors. The invariant of the kernel
  holds in every reachable state.
\<close>

section \<open>The machine as a transition system\<close>

text \<open>
  A step is an entry into the kernel (a trap, a system call, an interrupt) up to the point where it
  leaves, a store by the current environment, or the turn of another processor.
\<close>

inductive kstep :: "kstate \<Rightarrow> kstate \<Rightarrow> bool" where
  create: "image_ok binary \<Longrightarrow> kstep s (res_state (env_create binary type s))"
| kernel_entry: "ready tf s \<Longrightarrow> kstep s (res_state (trap cr2 tf s))"
| user_store: "cpu_ok s \<Longrightarrow> curenv s = Some c \<Longrightarrow> va < UTOP \<Longrightarrow> write_byte va b s = Inr ((), s') \<Longrightarrow> kstep s s'"
| other_cpu: "kstep s (s\<lparr>cpunum := k, cr3 := p, tlb := t\<rparr>)"
| device: "kstep s (s\<lparr>serial_in := cs, kbd_in := ds, tx_desc_buf := tx, e1000 := regs\<rparr>)"

inductive_cases kstep_elims: "kstep s t"

lemma kstep_inv: "kstep s t \<Longrightarrow> k_inv s \<Longrightarrow> k_inv t"
proof (induction rule: kstep.induct)
  case (create binary s type)
  then show ?case by (intro k_inv_env_create)
next
  case (kernel_entry tf s cr2)
  then show ?case by (intro k_inv_trap)
next
  case (user_store s c va b s')
  then have dir: "cr3 s \<in> pgdirs s" unfolding cpu_ok_def pgdirs_def by blast
  obtain p off where tr: "translate va s = Some (p, off, True)"
    using user_store(4) by (auto simp: write_byte_def split: option.splits bool.splits)
  from user_write_put [OF user_store(5) translate_data(1) [OF user_store(5) dir user_store(3) tr]]
  show ?case using user_store(4) write_byte_put [OF tr, of b] user_write_inv(1) [OF user_store(5)] by auto
next
  case (other_cpu s k p t)
  then show ?case by (rule k_inv_eq) (simp_all add: same_mem_def)
next
  case (device s cs ds tx regs)
  then show ?case by (rule k_inv_eq) (simp_all add: same_mem_def)
qed

definition booted :: "kstate \<Rightarrow> bool" where
  "booted s \<longleftrightarrow> (\<exists>s0. vm_ok {} s0 \<and> s = env_init s0)"

interpretation machine: trans_sys booted kstep k_inv
proof
  show "k_inv s" if "booted s" for s using that k_inv_env_init by (auto simp: booted_def)
  show "k_inv t" if "k_inv s" "kstep s t" for s t using kstep_inv that by blast
qed

section \<open>Properties\<close>



text \<open>
  C19. A page fault in user mode with a handler registered reaches the handler: if the exception stack is
  mapped writable where the record goes, exactly the 52 bytes of the record are stored there (the
  faulting address, the error code, all registers, program counter, flags and stack pointer at
  the fault), the environment continues at the handler with the stack pointer at the record, the
  kernel lock is released, and the invariant holds. A fault on the exception stack itself leaves
  one free word below the old stack pointer.
\<close>

theorem page_fault_upcall:
  assumes "k_inv s" "caller s c" "env_pgdir (envs s c) = Some (cr3 s)" "kernel_lock s = Some (cpunum s)"
    and "tf = env_tf (envs s c)" "tf_cs tf \<noteq> GD_KT" "upcall = env_pgfault_upcall (envs s c)" "upcall \<noteq> 0"
    and "uxtop = (if tf_esp tf < USTACKTOP then UXSTACKTOP - 52 else tf_esp tf - 56)"
    and "user_mem_check (cr3 s) uxtop (if tf_esp tf < USTACKTOP then 52 else 56) (PTE_W OR PTE_P OR PTE_U) s = Inr (0, s)"
    and "\<forall>i<52. uxtop + of_nat i < UTOP \<and> (\<exists>p off. translate (uxtop + of_nat i) s = Some (p, off, True))"
  shows "\<exists>s'. page_fault_handler cr2 (OfEnv c) s = Inl (Running c, s') \<and> k_inv s' \<and> kernel_lock s' = None \<and>
    env_tf (envs s' c) = tf\<lparr>tf_esp := uxtop, tf_eip := upcall\<rparr> \<and>
    (\<forall>i<52. read_byte (uxtop + of_nat i) s' = Inr (concat (map bytes32 (utf_words cr2 tf)) ! i, s'))"
proof -
  let ?bs = "concat (map bytes32 (utf_words cr2 tf))"
  have top: "ux_top (tf_esp tf) = uxtop" "ux_len (tf_esp tf) = (if tf_esp tf < USTACKTOP then 52 else 56)"
    using assms(9) by (simp_all add: ux_top_def ux_len_def sizeof_UTrapframe_def)
  have cur: "curenv s = Some c" "live s c" using assms(2) by (simp_all add: caller_def)
  then have dir: "cr3 s \<in> pgdirs s" using assms(3) unfolding pgdirs_def by blast
  have pass: "user_mem_assert c uxtop (ux_len (tf_esp tf)) (PTE_W OR PTE_P) s = Inr ((), s)"
    using assms(3,10) top(2) by (simp add: user_mem_assert_def deref_def or.assoc)
  obtain s1 where s1: "write_bytes uxtop ?bs s = Inr ((), s1)" "user_write s s1"
      "\<forall>i<52. read_byte (uxtop + of_nat i) s1 = Inr (?bs ! i, s1)"
    using write_bytes_spec [OF assms(1) dir, of ?bs uxtop] assms(11) by (auto simp: utf_length)
  note u = user_write_simps [OF s1(2)]
  let ?s2 = "set_env c (\<lambda>v. v\<lparr>env_tf := (env_tf v)\<lparr>tf_esp := uxtop, tf_eip := upcall\<rparr>\<rparr>) s1"
  have run: "page_fault_handler cr2 (OfEnv c) s = env_run c ?s2"
    using page_fault_run [of "OfEnv c" s c cr2] assms(2,5-8) pass s1(1) u(1,4) cur(1) top(1) by (simp add: deref_def)
  let ?s' = "set_env c (\<lambda>v. v\<lparr>env_cpunum := cpunum s\<rparr>) (?s2\<lparr>kernel_lock := None\<rparr>)"
  have cur1: "curenv s1 = Some c" using u(4) cur(1) by simp
  have go: "env_run c ?s2 = Inl (Running c, ?s')"
    using cur1 assms(4) u(6,7)
    by (simp add: env_run_def unlock_kernel_def env_pop_tf_def deref_def curenv_def set_env_def)
  have inv1: "k_inv s1" by (rule user_write_inv(1) [OF assms(1) s1(2)])
  have "k_inv ?s2" by (rule k_inv_set_env [OF inv1]) (simp add: same_env_def)
  moreover have "env_status (envs ?s2 c) \<noteq> ENV_FREE" using cur(2) u(1) by (simp add: live_def)
  ultimately have "k_inv ?s'" using k_inv_env_run [of ?s2 c] go by simp
  moreover have "read_byte a ?s' = Inr (b, ?s')" if "read_byte a s1 = Inr (b, s1)" for a b
    using that by (auto simp: read_byte_at translate_def byte_at_def set_env_def Let_def split: if_splits)
  then have "\<forall>i<52. read_byte (uxtop + of_nat i) ?s' = Inr (?bs ! i, ?s')" using s1(3) by blast
  moreover have "env_tf (envs ?s' c) = tf\<lparr>tf_esp := uxtop, tf_eip := upcall\<rparr>" using assms(5) u(1) by simp
  moreover have "kernel_lock ?s' = None" by simp
  ultimately show ?thesis using run go by (intro exI [of _ ?s']) simp
qed

text \<open>An environment with a handler and a page for its exception stack.\<close>

definition fault_k :: kstate where
  "fault_k = set_env 0 (\<lambda>v. v\<lparr>env_tf := zero_tf\<lparr>tf_cs := GD_UT OR 3, tf_esp := 0x1000\<rparr>, env_pgfault_upcall := 0x800020\<rparr>)
     (page_k 954 1023)"

lemma fault_k_ok:
  "k_inv fault_k" "caller fault_k 0" "env_pgdir (envs fault_k 0) = Some (cr3 fault_k)"
  "kernel_lock fault_k = Some (cpunum fault_k)" "cr3 fault_k = 4"
proof -
  have ix: "954 < PDX UTOP" "1023 < NPTENTRIES" by (simp_all add: PDX_div jos_consts)
  note k = page_k_inv [OF ix]
  show "k_inv fault_k" unfolding fault_k_def by (rule k_inv_set_env [OF k(1)]) (simp add: same_env_def)
  show "caller fault_k 0" using k(3) by (simp add: fault_k_def caller_def live_def curenv_def)
  show "env_pgdir (envs fault_k 0) = Some (cr3 fault_k)" "kernel_lock fault_k = Some (cpunum fault_k)" "cr3 fault_k = 4"
    by (simp_all add: fault_k_def page_k_def) (simp_all add: duo_k_def boot_k_def set_env_def)
qed

lemma fault_k_mem:
  "pmem fault_k 4 954 = 0x6007" "pmem fault_k 6 1023 = 0x7007" "npages fault_k = 16"
  by (simp_all add: fault_k_def page_k_def) (simp add: duo_k_def boot_k_def)

lemma fault_k_translate:
  assumes "i < 52"
  shows "0xEEBFFFCC + of_nat i < UTOP" "translate (0xEEBFFFCC + of_nat i) fault_k = Some (7, 0xFCC + i, True)"
proof -
  have u: "unat (0xEEBFFFCC + of_nat i :: 32 word) = 0xEEBFFFCC + i"
    using assms by (simp add: unat_word_ariths unat_of_nat)
  then show "0xEEBFFFCC + of_nat i < UTOP" using assms by (simp add: word_less_nat_alt unat_UTOP)
  have "(0xEEBFFFCC + i) div 0x400000 = 954" "(0xEEBFFFCC + i) div 4096 = 0xEEBFF" using assms by (intro div_nat_eqI; simp)+
  moreover have "(0xEEBFFFCC + i) mod 4096 = 0xFCC + i"
    using mod_mult_self3 [of "0xEEBFF" 4096 "0xFCC + i"] assms by simp
  ultimately have "PDX (0xEEBFFFCC + of_nat i) = 954" "PTX (0xEEBFFFCC + of_nat i) = 1023"
    "unat (0xEEBFFFCC + of_nat i :: 32 word) mod 4096 = 0xFCC + i"
    by (simp_all add: PDX_div PTX_mod u)
  then show "translate (0xEEBFFFCC + of_nat i) fault_k = Some (7, 0xFCC + i, True)"
    by (simp add: translate_def fault_k_ok(5) fault_k_mem PGNUM_div bit_numeral_rec)
qed

lemma fault_k_check: "user_mem_check 4 0xEEBFFFCC 52 (PTE_W OR PTE_P OR PTE_U) fault_k = Inr (0, fault_k)"
proof -
  have "ROUNDUP (0xEEBFFFCC + 52) PGSIZE = 0xEEC00000" "ROUNDDOWN 0xEEBFFFCC PGSIZE + PGSIZE = 0xEEC00000"
    by (simp_all add: ROUNDUP_def ROUNDDOWN_def PGSIZE_def)
  moreover have "\<not> ULIM \<le> 0xEEBFFFCC" by (simp add: jos_consts)
  moreover have "pgdir_walk 4 0xEEBFFFCC False fault_k = Inr (Some (6, 1023), fault_k)"
    by (simp add: pgdir_walk_def load_def KADDR_def PDX_div PTX_mod fault_k_mem PGNUM_div PTE_ADDR_def jos_consts)
  moreover have "load (6, 1023) fault_k = 0x7007" by (simp add: load_def fault_k_mem)
  ultimately show ?thesis
    by (simp add: user_mem_check_def user_mem_check_loop.simps [of _ _ "0xEEBFFFCC"]
        user_mem_check_loop.simps [of _ _ "0xEEC00000"] jos_consts)
qed

theorem page_fault_upcall_witness:
  "\<exists>s'. page_fault_handler 0xDEAD0000 (OfEnv 0) fault_k = Inl (Running 0, s') \<and> tf_eip (env_tf (envs s' 0)) = 0x800020 \<and>
     tf_esp (env_tf (envs s' 0)) = 0xEEBFFFCC \<and> read_byte 0xEEBFFFCF s' = Inr (0xDE, s')"
proof -
  let ?tf = "zero_tf\<lparr>tf_cs := GD_UT OR 3, tf_esp := 0x1000\<rparr>"
  have tf: "env_tf (envs fault_k 0) = ?tf" "env_pgfault_upcall (envs fault_k 0) = 0x800020" by (simp_all add: fault_k_def)
  have esp: "tf_esp ?tf < USTACKTOP" "UXSTACKTOP - 52 = 0xEEBFFFCC" by (simp_all add: jos_consts)
  have cs: "tf_cs ?tf \<noteq> GD_KT" by (simp add: GD_UT_def GD_KT_def)
  from page_fault_upcall [OF fault_k_ok(1-4) tf(1) [symmetric] cs tf(2) [symmetric], of "0xEEBFFFCC" "0xDEAD0000"]
  obtain s' where s': "page_fault_handler 0xDEAD0000 (OfEnv 0) fault_k = Inl (Running 0, s')"
    "env_tf (envs s' 0) = ?tf\<lparr>tf_esp := 0xEEBFFFCC, tf_eip := 0x800020\<rparr>"
    "\<forall>i<52. read_byte (0xEEBFFFCC + of_nat i) s' = Inr (concat (map bytes32 (utf_words 0xDEAD0000 ?tf)) ! i, s')"
    using esp fault_k_check fault_k_translate fault_k_ok(5) by auto
  have "concat (map bytes32 (utf_words 0xDEAD0000 ?tf)) ! 3 = 0xDE"
    by (simp add: utf_words_def bytes32_def get_byte_def Let_def)
  with s'(3) [rule_format, of 3] have "read_byte 0xEEBFFFCF s' = Inr (0xDE, s')" by simp
  then show ?thesis using s'(1,2) by auto
qed

end
