(* ===== verification/Contents.thy ===== *)
theory Contents
  imports UserAccess SysProps
begin

text \<open>
  What the operations of \<open>kern/pmap.c\<close> and the system calls on address spaces do to the contents of
  pages: they write to page directories, page tables and pages that were free, never to a page that
  is mapped.
\<close>

section \<open>Page operations\<close>

lemma walk_Some:
  assumes "pt_of s pd (PDX va) = Some pt" "pgdir_walk pd va create s = Inr (r, s1)"
  shows "s1 = s" "r = Some (pt, PTX va)"
  using assms by (auto simp: pgdir_walk_def load_def KADDR_def pt_of_Some split: if_splits)

lemma decref_contents:
  assumes "page_decref p s = Inr ((), s')"
  shows "pmem s' = pmem s" "page_free_list s \<noteq> None \<Longrightarrow> page_free_list s' \<noteq> None"
  using assms by (auto simp: page_decref_def page_free_def Let_def set_page_def split: if_splits)

lemma remove_contents:
  assumes pt: "pt_of s pd (PDX va) = Some pt" and r: "page_remove pd va s = Inr ((), s')"
  shows "q \<noteq> pt \<Longrightarrow> pmem s' q = pmem s q" "page_free_list s \<noteq> None \<Longrightarrow> page_free_list s' \<noteq> None"
proof -
  from r obtain pp ptep s1 where l: "page_lookup pd va s = Inr ((pp, ptep), s1)"
    by (auto simp: page_remove_def bindS_def split: sum.splits)
  from l obtain x s2 where w: "pgdir_walk pd va False s = Inr (x, s2)" by (auto simp: page_lookup_def bindS_def split: sum.splits)
  have s1: "s1 = s \<and> (ptep = None \<or> ptep = Some (pt, PTX va))"
    using l unfolding page_lookup_def w by (auto simp: walk_Some [OF pt w] pa2page_def split: if_splits)
  show "q \<noteq> pt \<Longrightarrow> pmem s' q = pmem s q" "page_free_list s \<noteq> None \<Longrightarrow> page_free_list s' \<noteq> None"
    using r s1 unfolding page_remove_def l
    by (auto simp: bindS_def tlb_invalidate_def pmem_store decref_contents(1) dest: decref_contents(2)
        split: option.splits sum.splits prod.splits)
qed

text \<open>The part of \<open>page_insert\<close> after the walk.\<close>

lemma insert_tail_contents:
  assumes pt: "pt_of s pd (PDX va) = Some pt" and w: "pgdir_walk pd va True s0 = Inr (Some (pt, PTX va), s)"
    and i: "page_insert pd pp va perm s0 = Inr (r, s')"
  shows "r = 0" "q \<noteq> pt \<Longrightarrow> q \<noteq> pd \<Longrightarrow> pmem s' q = pmem s q" "page_free_list s \<noteq> None \<Longrightarrow> page_free_list s' \<noteq> None"
    "bit perm k \<Longrightarrow> bit (pmem s' pd (PDX va)) k"
proof -
  let ?s = "set_page pp (\<lambda>pi. pi\<lparr>pp_ref := pp_ref pi + 1\<rparr>) s"
  have pt': "pt_of ?s pd (PDX va) = Some pt" using pt by (simp add: pt_of_Some)
  obtain s1 where s1: "(if load (pt, PTX va) ?s AND PTE_P = PTE_P then page_remove pd va ?s else Inr ((), ?s)) = Inr ((), s1)"
    "r = 0" "s' = store (pd, PDX va) (load (pd, PDX va) (store (pt, PTX va) (page2pa pp OR perm OR PTE_P) s1) OR perm)
      (store (pt, PTX va) (page2pa pp OR perm OR PTE_P) s1)"
    using i unfolding page_insert_def w by (auto simp: bindS_def Let_def split: sum.splits if_splits)
  show "r = 0" by (fact s1)
  have "q \<noteq> pt \<Longrightarrow> pmem s1 q = pmem ?s q" "page_free_list ?s \<noteq> None \<Longrightarrow> page_free_list s1 \<noteq> None"
    using s1(1) remove_contents(1) [OF pt', of s1 q] remove_contents(2) [OF pt', of s1] by (auto split: if_splits)
  then show "q \<noteq> pt \<Longrightarrow> q \<noteq> pd \<Longrightarrow> pmem s' q = pmem s q" "page_free_list s \<noteq> None \<Longrightarrow> page_free_list s' \<noteq> None"
    by (simp_all add: s1(3) pmem_store)
  show "bit perm k \<Longrightarrow> bit (pmem s' pd (PDX va)) k" by (simp add: s1(3) pmem_store load_def bit_or_iff)
qed

lemma insert_contents:
  assumes inv: "vm_inv pds fl ex s" and pd: "pd \<in> pds" "va < UTOP" and i: "page_insert pd pp va perm s = Inr (0, s')"
  shows "q \<notin> set fl \<Longrightarrow> q \<noteq> pd \<Longrightarrow> pt_of s pd (PDX va) \<noteq> Some q \<Longrightarrow> pmem s' q = pmem s q"
    "2 \<le> length fl \<Longrightarrow> page_free_list s' \<noteq> None" "bit perm k \<Longrightarrow> bit (pmem s' pd (PDX va)) k"
proof -
  have chain: "chain (\<lambda>p. pp_link (pages s p)) (page_free_list s) fl" using inv by (simp add: vm_inv_def fl_inv_def)
  consider pt where "pt_of s pd (PDX va) = Some pt" | "pt_of s pd (PDX va) = None" by (cases "pt_of s pd (PDX va)") auto
  then have "(q \<notin> set fl \<longrightarrow> q \<noteq> pd \<longrightarrow> pt_of s pd (PDX va) \<noteq> Some q \<longrightarrow> pmem s' q = pmem s q) \<and>
    (2 \<le> length fl \<longrightarrow> page_free_list s' \<noteq> None) \<and> (bit perm k \<longrightarrow> bit (pmem s' pd (PDX va)) k)"
  proof cases
    case (1 pt)
    note t = insert_tail_contents [OF 1 pgdir_walk_present [OF inv pd 1] i]
    have "page_free_list s \<noteq> None" if "2 \<le> length fl" using that chain by (cases fl) auto
    then show ?thesis using t 1 by auto
  next
    case 2
    show ?thesis
    proof (cases fl)
      case Nil
      then have "page_insert pd pp va perm s = Inr (- E_NO_MEM, s)"
        using 2 inv page_alloc_Nil [of s ALLOC_ZERO] by (simp add: vm_inv_def page_insert_def pgdir_walk_def load_def pt_of_None)
      then show ?thesis using i err_consts by simp
    next
      case (Cons p fl')
      note w = pgdir_walk_alloc [OF inv [unfolded Cons] pd 2]
      note t = insert_tail_contents [OF w(3,1) i]
      have "page_free_list (pop_page p s) \<noteq> None" if "2 \<le> length fl"
        using that chain Cons by (cases fl') (auto simp: pop_page_def)
      then show ?thesis using t Cons by (auto simp: pmem_store zero_page_def pop_page_def set_page_def)
    qed
  qed
  then show "q \<notin> set fl \<Longrightarrow> q \<noteq> pd \<Longrightarrow> pt_of s pd (PDX va) \<noteq> Some q \<Longrightarrow> pmem s' q = pmem s q"
    "2 \<le> length fl \<Longrightarrow> page_free_list s' \<noteq> None" "bit perm k \<Longrightarrow> bit (pmem s' pd (PDX va)) k" by blast+
qed

lemma insert_succeeds:
  assumes inv: "vm_inv pds fl ex s" and pd: "pd \<in> pds" "va < UTOP" and fl: "fl \<noteq> []"
    and i: "page_insert pd pp va perm s = Inr (r, s')"
  shows "r = 0"
proof (cases "pt_of s pd (PDX va)")
  case (Some pt)
  then show ?thesis using insert_tail_contents(1) [OF Some pgdir_walk_present [OF inv pd Some] i] by simp
next
  case None
  obtain p fl' where Cons: "fl = p # fl'" using fl by (cases fl) auto
  note w = pgdir_walk_alloc [OF inv [unfolded Cons] pd None]
  show ?thesis by (rule insert_tail_contents(1) [OF w(3,1) i])
qed

section \<open>System calls\<close>

text \<open>A page that some environment has mapped.\<close>

definition mapped_page :: "kstate \<Rightarrow> nat \<Rightarrow> bool" where
  "mapped_page s q \<longleftrightarrow> (\<exists>pd\<in>pgdirs s. \<exists>va<UTOP. \<exists>w. look s pd va = Some w \<and> PGNUM w = q)"

lemma mapped_pageI: "pd \<in> pgdirs s \<Longrightarrow> va < UTOP \<Longrightarrow> look s pd va = Some w \<Longrightarrow> mapped_page s (PGNUM w)"
  by (auto simp: mapped_page_def)

lemma mapped_not_special:
  assumes inv: "vm_inv (pgdirs s) fl ex s" and q: "mapped_page s q"
  shows "q \<notin> set fl" "q \<notin> pgdirs s" "pd \<in> pgdirs s \<Longrightarrow> va < UTOP \<Longrightarrow> pt_of s pd (PDX va) \<noteq> Some q"
proof -
  from q obtain pd' va' w where w: "pd' \<in> pgdirs s" "va' < UTOP" "look s pd' va' = Some w" "PGNUM w = q"
    by (auto simp: mapped_page_def)
  note m = vm_inv_mapped [OF inv slots_va [OF w(1,2)] w(3) [unfolded look_def]]
  show "q \<notin> set fl" "q \<notin> pgdirs s" using m w(4) by auto
  have "q \<notin> page_tables (pgdirs s) s" using m w(4) by auto
  then show "pt_of s pd (PDX va) \<noteq> Some q" if "pd \<in> pgdirs s" "va < UTOP"
    using that unfolding page_tables_def by (auto simp: below_UTOP_iff)
qed

lemma page_map_contents:
  assumes inv: "k_inv s" and refs: "refs_ok s" and c: "caller s c"
    and r: "sys_page_map srcid srcva dstid dstva perm s = Inr (0, s')" and dst: "envid2env dstid True s = Inr ((0, Some e), s)"
    "env_pgdir (envs s e) = Some dpd"
  shows "mapped_page s q \<Longrightarrow> pmem s' q = pmem s q" "bit perm k \<Longrightarrow> bit (pmem s' dpd (PDX dstva)) k"
    "fl_inv fl s \<Longrightarrow> 2 \<le> length fl \<Longrightarrow> page_free_list s' \<noteq> None"
proof -
  have c0: "- E_INVAL \<noteq> 0" "- E_BAD_ENV \<noteq> 0" "- E_NO_MEM \<noteq> 0" by (simp_all add: jos_consts E_INVAL_def E_BAD_ENV_def E_NO_MEM_def)
  from sys_page_map_spec [OF inv refs c, of srcid srcva dstid dstva perm] r c0 obtain src spd w where
    s: "srcva < UTOP" "dstva < UTOP" "\<not> PTE_bad_perm perm" "envid2env srcid True s = Inr ((0, Some src), s)"
      "authority s c src" "env_pgdir (envs s src) = Some spd" "look s spd srcva = Some w" "perm AND PTE_W \<noteq> 0 \<longrightarrow> w AND PTE_W \<noteq> 0"
    by fastforce
  have "authority s c e" using envid2env_auth [OF c, of dstid] dst(1) c0 by (metis Inr_inject Pair_inject option.inject)
  then have dpd: "dpd \<in> pgdirs s" using dst(2) by (auto simp: pgdirs_def authority_def)
  have spd: "spd \<in> pgdirs s" using s(5,6) by (auto simp: pgdirs_def authority_def)
  have al: "\<not> (srcva \<ge> UTOP \<or> dstva \<ge> UTOP \<or> srcva mod PGSIZE \<noteq> 0 \<or> dstva mod PGSIZE \<noteq> 0)"
    using r c0 by (auto simp: sys_page_map_def split: if_splits)
  have "sys_page_map srcid srcva dstid dstva perm s = page_map_insert (Some e) (PGNUM w) dstva perm s"
    using sys_page_map_run [OF inv al s(3,4,6) spd dst(1)] s(7,8) by auto
  then have "page_map_insert (Some e) (PGNUM w) dstva perm s = Inr (0, s')" using r by simp
  then have i: "page_insert dpd (PGNUM w) dstva perm s = Inr (0, s')"
    using dst(2) c0 err_consts insert_shared [OF inv refs spd s(1,7) dpd s(2) bad_perm_flags [OF s(3)]]
    by (auto simp: page_map_insert_def deref_def bindS_def split: sum.splits if_splits)
  obtain fl0 where fl: "vm_inv (pgdirs s) fl0 (\<lambda>_. 0) s" using k_inv_ok [OF inv] by (auto simp: vm_ok_def)
  note ic = insert_contents [OF fl dpd s(2) i]
  show "pmem s' q = pmem s q" if "mapped_page s q"
    using ic(1) [of q] mapped_not_special [OF fl that] dpd s(2) by metis
  show "bit perm k \<Longrightarrow> bit (pmem s' dpd (PDX dstva)) k" by (rule ic)
  show "page_free_list s' \<noteq> None" if "fl_inv fl s" "2 \<le> length fl"
    using ic(2) fl_inv_unique [OF that(1)] fl that(2) by (auto simp: vm_inv_def)
qed

lemma page_unmap_contents:
  assumes inv: "k_inv s" and c: "caller s c" and r: "sys_page_unmap envid va s = Inr (0, s')" and q: "mapped_page s q"
  shows "pmem s' q = pmem s q"
proof -
  have c0: "- E_INVAL \<noteq> 0" "- E_BAD_ENV \<noteq> 0" by (simp_all add: E_INVAL_def E_BAD_ENV_def)
  from sys_page_unmap_spec [OF inv c, of envid va] r c0 obtain e pd where
    s: "va < UTOP" "envid2env envid True s = Inr ((0, Some e), s)" "authority s c e" "env_pgdir (envs s e) = Some pd"
    by fastforce
  have pd: "pd \<in> pgdirs s" using s(3,4) by (auto simp: pgdirs_def authority_def)
  have al: "\<not> (va \<ge> UTOP \<or> va mod PGSIZE \<noteq> 0)" using r c0 by (auto simp: sys_page_unmap_def split: if_splits)
  have rm: "page_remove pd va s = Inr ((), s')"
    using r s al by (auto simp: sys_page_unmap_def deref_def bindS_def split: sum.splits if_splits)
  obtain fl where fl: "vm_inv (pgdirs s) fl (\<lambda>_. 0) s" using k_inv_ok [OF inv] by (auto simp: vm_ok_def)
  show ?thesis
  proof (cases "pt_of s pd (PDX va)")
    case None
    then have "page_remove pd va s = Inr ((), s)"
      by (simp add: page_remove_def page_lookup_def pgdir_walk_absent)
    then show ?thesis using rm by simp
  next
    case (Some pt)
    then show ?thesis using remove_contents(1) [OF Some rm] mapped_not_special(3) [OF fl q pd s(1)] by auto
  qed
qed

text \<open>\<open>sys_page_alloc\<close> succeeds when two pages are free, one for the page and one for a page table.\<close>

lemma page_alloc_contents:
  assumes inv: "k_inv s" and c: "caller s c" and ok: "va < UTOP" "va mod PGSIZE = 0" "\<not> PTE_bad_perm perm"
    and e: "envid2env envid True s = Inr ((0, Some e), s)" "env_pgdir (envs s e) = Some pd"
    and fl: "fl_inv fl s" "3 \<le> length fl"
  shows "\<exists>p s'. sys_page_alloc envid va perm s = Inr (0, s') \<and> k_inv s' \<and> vm_frame s s' \<and> p \<in> set fl \<and>
    (\<forall>pd'\<in>pgdirs s. \<forall>va'<UTOP. look s' pd' va' =
       (if pd' = pd \<and> PGNUM va' = PGNUM va then Some (page2pa p OR perm OR PTE_P) else look s pd' va')) \<and>
    (\<forall>q. mapped_page s q \<longrightarrow> pmem s' q = pmem s q) \<and> (\<forall>k. bit perm k \<longrightarrow> bit (pmem s' pd (PDX va)) k) \<and>
    page_free_list s' \<noteq> None"
proof -
  have c0: "- E_INVAL \<noteq> 0" "- E_BAD_ENV \<noteq> 0" by (simp_all add: E_INVAL_def E_BAD_ENV_def)
  obtain fl0 where inv0: "vm_inv (pgdirs s) fl0 (\<lambda>_. 0) s" using k_inv_ok [OF inv] by (auto simp: vm_ok_def)
  then have "fl_inv fl0 s" by (simp add: vm_inv_def)
  then have fl0: "fl0 = fl" using fl_inv_unique fl(1) by blast
  obtain p fl' where Cons: "fl = p # fl'" "2 \<le> length fl'" using fl(2) by (cases fl) auto
  have "authority s c e" using envid2env_auth [OF c, of envid] e(1) c0 by (metis Inr_inject Pair_inject option.inject)
  then have pd: "pd \<in> pgdirs s" using e(2) by (auto simp: pgdirs_def authority_def)
  let ?s1 = "zero_page p (pop_page p s)"
  have np: "npages s \<le> 0x100000" using inv0 by (simp add: vm_inv_def)
  have al: "page_alloc ALLOC_ZERO s = Inr (Some p, ?s1)"
    using page_alloc_Cons [OF fl(1) [unfolded Cons(1)] np, of ALLOC_ZERO] by (simp add: jos_consts)
  have inv1: "vm_inv (pgdirs s) fl' (\<lambda>_. 0) ?s1"
    using vm_inv_zero_limbo(1) [OF vm_inv_pop [OF inv0 [unfolded fl0 Cons(1)]]] .
  have fr1: "vm_frame s ?s1" by (simp add: frame_simps)
  have run: "sys_page_alloc envid va perm s = bindS (page_insert pd p va perm ?s1)
      (\<lambda>r s. if r = 0 then Inr (0, s) else bindS (page_free p s) (\<lambda>_ s. Inr (- E_NO_MEM, s)))"
    using ok(1) [folded not_le] ok(2,3) e al vm_frame_k(1) [OF fr1] by (simp add: sys_page_alloc_def deref_def)
  have flags: "flags_only perm" by (rule bad_perm_flags [OF ok(3)])
  from alloc_insert_spec [OF k_inv_ok [OF inv] pd ok(1) flags al] obtain r s' where i: "page_insert pd p va perm ?s1 = Inr (r, s')" by blast
  have "fl' \<noteq> []" using Cons(2) by auto
  from insert_succeeds [OF inv1 pd ok(1) this i] have r: "r = 0" .
  then have s': "vm_ok (pgdirs s) s'" "vm_frame s s'" "\<forall>pd'\<in>pgdirs s. \<forall>va'<UTOP. look s' pd' va' =
      (if pd' = pd \<and> PGNUM va' = PGNUM va then Some (page2pa p OR perm OR PTE_P) else look s pd' va')"
    using alloc_insert_spec [OF k_inv_ok [OF inv] pd ok(1) flags al] i err_consts by auto
  note ic = insert_contents [OF inv1 pd ok(1) i [unfolded r]]
  have "pmem s' q = pmem s q" if "mapped_page s q" for q
  proof -
    note m = mapped_not_special [OF inv0 that, unfolded fl0 Cons(1)]
    have "pt_of ?s1 pd (PDX va) = pt_of s pd (PDX va)"
      using vm_inv_free_unmapped [OF inv0 [unfolded fl0], of p] pd Cons(1)
      by (auto simp: pt_of_def zero_page_def pop_page_def set_page_def)
    then have "pmem s' q = pmem ?s1 q" using ic(1) [of q] m(1,2) m(3) [OF pd ok(1)] pd by auto
    then show ?thesis using m(1) by (simp add: zero_page_def pop_page_def set_page_def)
  qed
  moreover have "k_inv s'" using k_inv_page_op [OF inv s'(1,2)] .
  moreover have "sys_page_alloc envid va perm s = Inr (0, s')" using run i r by simp
  ultimately show ?thesis using s' ic(2,3) Cons by (intro exI [of _ p] exI [of _ s']) auto
qed

section \<open>References\<close>

text \<open>No reference count is within \<open>n\<close> of overflowing.\<close>

definition refs_room :: "nat \<Rightarrow> kstate \<Rightarrow> bool" where
  "refs_room n s \<longleftrightarrow> (\<forall>p. card (mappings (pgdirs s) s p) + n < 0x10000)"

lemma refs_room_ok: "refs_room (Suc n) s \<Longrightarrow> refs_ok s"
  unfolding refs_room_def refs_ok_def
proof
  fix p assume "\<forall>p. card (mappings (pgdirs s) s p) + Suc n < 0x10000"
  then have "card (mappings (pgdirs s) s p) + Suc n < 0x10000" ..
  then show "card (mappings (pgdirs s) s p) + 1 < 0x10000" by simp
qed

lemma same_slot: "PGNUM va' = PGNUM va \<longleftrightarrow> PDX va' = PDX va \<and> PTX va' = PTX va"
proof -
  have "PDX x = PGNUM x div 1024" "PTX x = PGNUM x mod 1024" for x
    by (simp_all add: PDX_div PTX_mod PGNUM_div div_mult2_eq [symmetric])
  then show ?thesis by (metis div_mult_mod_eq)
qed

lemma look_same_page: "PGNUM va' = PGNUM va \<Longrightarrow> look s pd va' = look s pd va"
  by (simp add: same_slot look_def)

lemma mappings_one_slot:
  assumes eq: "\<forall>pd'\<in>pgdirs s. \<forall>va'<UTOP. look s' pd' va' = (if pd' = pd \<and> PGNUM va' = PGNUM va then v else look s pd' va')"
    and same: "pgdirs s' = pgdirs s" and fin: "finite (pgdirs s)" and room: "refs_room (Suc n) s"
  shows "refs_room n s'"
proof -
  have "mappings (pgdirs s) s' p \<subseteq> insert (pd, PDX va, PTX va) (mappings (pgdirs s) s p)" for p
  proof
    fix x assume "x \<in> mappings (pgdirs s) s' p"
    then obtain pd' i j z where x: "x = (pd', i, j)" and sl: "(pd', i, j) \<in> slots (pgdirs s)" and z: "pg_of s' pd' i j = Some z" "PGNUM z = p"
      by (auto simp: mappings_def)
    show "x \<in> insert (pd, PDX va, PTX va) (mappings (pgdirs s) s p)"
    proof (cases "(pd', i, j) = (pd, PDX va, PTX va)")
      case ne: False
      have "PDX UTOP = 955" by (simp add: PDX_div jos_consts)
      then have ij: "i < 955" "i < PDX UTOP" "j < 1024" "pd' \<in> pgdirs s" using sl by (simp_all add: slots_def jos_consts)
      have "PGADDR i j 0 < UTOP" using ij by (simp add: below_UTOP_iff)
      moreover have "\<not> (pd' = pd \<and> PGNUM (PGADDR i j 0) = PGNUM va)" using ne ij(1,3) unfolding same_slot by auto
      ultimately have "look s' pd' (PGADDR i j 0) = look s pd' (PGADDR i j 0)" using eq ij(4) by auto
      then have "pg_of s pd' i j = Some z" using z(1) ij(1,3) by (simp add: look_def)
      then show ?thesis using sl z(2) x by (simp add: mappings_def)
    qed (simp add: x)
  qed
  then have c: "card (mappings (pgdirs s) s' p) \<le> card (insert (pd, PDX va, PTX va) (mappings (pgdirs s) s p))" for p
    using finite_mappings [OF fin] by (intro card_mono) simp_all
  have "card (insert (pd, PDX va, PTX va) (mappings (pgdirs s) s p)) \<le> Suc (card (mappings (pgdirs s) s p))" for p
    by (simp add: card_insert_if finite_mappings [OF fin])
  with c have "card (mappings (pgdirs s) s' p) \<le> Suc (card (mappings (pgdirs s) s p))" for p by (rule le_trans)
  moreover have "card (mappings (pgdirs s) s p) + Suc n < 0x10000" for p using room by (simp add: refs_room_def)
  ultimately show ?thesis unfolding refs_room_def same by (metis add_Suc_right add_Suc add_le_mono1 le_less_trans)
qed

section \<open>Copying a page\<close>

lemma read_page:
  assumes "\<forall>i<n. \<exists>w. translate (va + of_nat i) s = Some (p, k + i, w)"
  shows "read_bytes va n s = Inr (map (byte_at s p) [k..<k + n], s)"
  using assms
proof (induction n arbitrary: va k)
  case (Suc n)
  have "\<exists>w. translate (va + 1 + of_nat i) s = Some (p, Suc k + i, w)" if "i < n" for i
    using Suc.prems [rule_format, of "Suc i"] that by (simp add: add.assoc)
  moreover have "[k..<k + Suc n] = k # [Suc k..<Suc k + n]" by (simp add: upt_conv_Cons del: upt_Suc)
  ultimately show ?case using Suc.IH [of "va + 1" "Suc k"] Suc.prems [rule_format, of 0] by (auto simp: read_byte_at)
qed simp

lemma write_page:
  assumes "k_inv s" "cr3 s \<in> pgdirs s" "\<forall>i<length bs. va + of_nat i < UTOP \<and> translate (va + of_nat i) s = Some (p, k + i, True)"
  shows "\<exists>s'. write_bytes va bs s = Inr ((), s') \<and> user_write s s' \<and>
    (\<forall>q off. byte_at s' q off = (if q = p \<and> k \<le> off \<and> off < k + length bs then bs ! (off - k) else byte_at s q off))"
  using assms
proof (induction bs arbitrary: va s k)
  case Nil
  then show ?case by (auto simp: user_write_refl)
next
  case (Cons b bs)
  have va: "va < UTOP" and tr: "translate va s = Some (p, k, True)" using Cons.prems(3) [rule_format, of 0] by simp_all
  note d = translate_data [OF Cons.prems(1,2) va tr]
  let ?s1 = "put_byte p k b s"
  have w1: "user_write s ?s1" by (rule user_write_put [OF Cons.prems(1) d(1)])
  have inv1: "k_inv ?s1" by (rule user_write_inv(1) [OF Cons.prems(1) w1])
  have cr: "cr3 ?s1 \<in> pgdirs ?s1" using Cons.prems(2) user_write_simps(2,3) [OF w1] by simp
  have "va + 1 + of_nat i < UTOP \<and> translate (va + 1 + of_nat i) ?s1 = Some (p, Suc k + i, True)" if "i < length bs" for i
    using Cons.prems(3) [rule_format, of "Suc i"] that translate_user_write [OF Cons.prems(1) w1 Cons.prems(2)] by (simp add: add.assoc)
  from Cons.IH [OF inv1 cr allI [OF impI [OF this]]] obtain s' where
    s': "write_bytes (va + 1) bs ?s1 = Inr ((), s')" "user_write ?s1 s'"
      "\<forall>q off. byte_at s' q off = (if q = p \<and> Suc k \<le> off \<and> off < Suc k + length bs then bs ! (off - Suc k) else byte_at ?s1 q off)"
    by blast
  have "byte_at s' q off = (if q = p \<and> k \<le> off \<and> off < k + length (b # bs) then (b # bs) ! (off - k) else byte_at s q off)" for q off
    using s'(3) by (cases "off = k") (auto simp: byte_at_put nth_Cons')
  moreover have "write_bytes va (b # bs) s = Inr ((), s')" using s'(1) write_byte_put [OF tr] by simp
  ultimately show ?case using user_write_trans [OF Cons.prems(1) w1 s'(2)] by blast
qed

lemma page_addr:
  assumes "va mod PGSIZE = 0" "i < 4096"
  shows "unat (va + of_nat i) = unat va + i" "PGNUM (va + of_nat i) = PGNUM va" "unat (va + of_nat i) mod 4096 = i"
proof -
  have "unat (va mod PGSIZE) = 0" using assms(1) by simp
  then have "unat va mod 4096 = 0" by (simp add: PGSIZE_def unat_mod)
  then obtain d where d: "unat va = 4096 * d" by (auto simp: mod_eq_0_iff_dvd elim: dvdE)
  have "unat va < 2 ^ LENGTH(32)" by (rule unsigned_less)
  then have "4096 * d + i < 2 ^ 32" using assms(2) d by simp
  then show u: "unat (va + of_nat i) = unat va + i" by (simp add: unat_word_ariths unat_of_nat d)
  show "PGNUM (va + of_nat i) = PGNUM va" "unat (va + of_nat i) mod 4096 = i" using assms(2) by (simp_all add: PGNUM_div u d)
qed

lemma translate_page:
  assumes "look s (cr3 s) va = Some w" "va mod PGSIZE = 0" "i < 4096"
  shows "translate (va + of_nat i) s = Some (PGNUM w, i, bit (pmem s (cr3 s) (PDX va)) 1 \<and> bit w 1)"
proof -
  have e: "PDX (va + of_nat i) = PDX va" "PTX (va + of_nat i) = PTX va"
    using page_addr(2) [OF assms(2,3)] unfolding same_slot by simp_all
  show ?thesis using assms(1) unfolding translate_def e page_addr(3) [OF assms(2,3)]
    by (auto simp: look_def pg_of_def pt_of_def Let_def split: if_splits)
qed

section \<open>Calls that succeed\<close>

lemma frame_caller:
  assumes "vm_frame s s'"
  shows "caller s' c = caller s c" "pgdirs s' = pgdirs s" "live s' e = live s e"
  using vm_frame_k [OF assms] by (simp_all add: caller_def live_def pgdirs_def)

lemma caller_pgdir: "caller s c \<Longrightarrow> env_pgdir (envs s c) = Some pd \<Longrightarrow> pd \<in> pgdirs s"
  by (auto simp: caller_def pgdirs_def)

lemma envid2env_self: "caller s c \<Longrightarrow> envid2env 0 True s = Inr ((0, Some c), s)"
  by (simp add: envid2env_def caller_def)

lemma page_map_ok:
  assumes inv: "k_inv s" and refs: "refs_ok s" and c: "caller s c" and free: "page_free_list s \<noteq> None"
    and src: "envid2env srcid True s = Inr ((0, Some src), s)" "env_pgdir (envs s src) = Some spd" "srcva < UTOP" "srcva mod PGSIZE = 0"
    and dst: "envid2env dstid True s = Inr ((0, Some e), s)" "env_pgdir (envs s e) = Some dpd" "dstva < UTOP" "dstva mod PGSIZE = 0"
    and w: "look s spd srcva = Some w" and perm: "\<not> PTE_bad_perm perm" "perm AND PTE_W \<noteq> 0 \<longrightarrow> w AND PTE_W \<noteq> 0"
  shows "\<exists>s'. sys_page_map srcid srcva dstid dstva perm s = Inr (0, s') \<and> k_inv s' \<and> vm_frame s s' \<and>
    (\<forall>pd'\<in>pgdirs s. \<forall>va'<UTOP. look s' pd' va' =
       (if pd' = dpd \<and> PGNUM va' = PGNUM dstva then Some (page2pa (PGNUM w) OR perm OR PTE_P) else look s pd' va'))"
proof -
  have c0: "- E_BAD_ENV \<noteq> 0" by (simp add: E_BAD_ENV_def)
  have "authority s c src" "authority s c e"
    using envid2env_auth [OF c, of srcid] envid2env_auth [OF c, of dstid] src(1) dst(1) c0 by (metis Inr_inject Pair_inject option.inject)+
  then have pd: "spd \<in> pgdirs s" "dpd \<in> pgdirs s" using src(2) dst(2) by (auto simp: pgdirs_def authority_def)
  have al: "\<not> (srcva \<ge> UTOP \<or> dstva \<ge> UTOP \<or> srcva mod PGSIZE \<noteq> 0 \<or> dstva mod PGSIZE \<noteq> 0)"
    using src(3,4) dst(3,4) by (simp add: not_le)
  have "sys_page_map srcid srcva dstid dstva perm s = page_map_insert (Some e) (PGNUM w) dstva perm s"
    using sys_page_map_run [OF inv al perm(1) src(1,2) pd(1) dst(1)] w perm(2) by auto
  then show ?thesis
    using page_map_insert_spec [OF inv refs pd(1) src(3) w dst(2) pd(2) dst(3) bad_perm_flags [OF perm(1)]] free by auto
qed

end
