(* ===== verification/Fork.thy ===== *)
theory Fork
  imports Contents
begin

text \<open>
  \<open>lib/fork.c\<close> and \<open>lib/pgfault.c\<close>: \<open>fork\<close> with copy-on-write, written in the user library over the
  system calls of the kernel model. The library reads the page tables through the window at
  \<open>UVPT\<close>, where the page directory maps itself. A call of the library is one sequence of loads,
  stores and system calls of the current environment; a fault that its own handler does not handle,
  and a panic of the library, end it.
\<close>

definition PTE_COW :: "32 word" where [jos_consts]: "PTE_COW = 0x800"
definition PTE_SHARE :: "32 word" where [jos_consts]: "PTE_SHARE = 0x400"
definition FEC_WR :: "32 word" where [jos_consts]: "FEC_WR = 2"
definition UTEMP :: "32 word" where [jos_consts]: "UTEMP = PTSIZE"
definition PFTEMP :: "32 word" where [jos_consts]: "PFTEMP = UTEMP + PTSIZE - PGSIZE"

section \<open>User memory\<close>

text \<open>A load of an aligned word in user mode.\<close>

definition user_load :: "32 word \<Rightarrow> kstate \<Rightarrow> (kstate, 32 word) res" where
  "user_load va s =
     (let pde = pmem s (cr3 s) (PDX va); pte = pmem s (PGNUM pde) (PTX va)
      in if bit pde 0 \<and> bit pde 2 \<and> bit pte 0 \<and> bit pte 2
         then Inr (pmem s (PGNUM pte) (unat va mod 4096 div 4), s) else Inl (UserPanic, s))"

definition uvpd :: "nat \<Rightarrow> kstate \<Rightarrow> (kstate, 32 word) res" where
  "uvpd i s = user_load (UVPT + drop_bit 12 UVPT * 4 + 4 * of_nat i) s"

definition uvpt :: "nat \<Rightarrow> kstate \<Rightarrow> (kstate, 32 word) res" where
  "uvpt pn s = user_load (UVPT + 4 * of_nat pn) s"

text \<open>\<open>memmove\<close> between two pages.\<close>

definition copy_page :: "32 word \<Rightarrow> 32 word \<Rightarrow> kstate \<Rightarrow> (kstate, unit) res" where
  "copy_page dst src s =
     (case bindS (read_bytes src 4096 s) (\<lambda>bs s. write_bytes dst bs s) of
        Inl (_, s) \<Rightarrow> Inl (UserPanic, s)
      | Inr r \<Rightarrow> Inr r)"

section \<open>The page fault handler\<close>

definition pgfault :: "32 word \<Rightarrow> 32 word \<Rightarrow> kstate \<Rightarrow> (kstate, unit) res" where
  "pgfault addr err s =
     (if err AND FEC_WR = 0 then Inl (UserPanic, s)
      else bindS (uvpt (PGNUM addr) s) (\<lambda>pte s.
        if pte AND PTE_COW = 0 then Inl (UserPanic, s)
        else
          bindS (sys_page_alloc 0 PFTEMP (PTE_P OR PTE_U OR PTE_W) s) (\<lambda>r s.
          if r < 0 then Inl (UserPanic, s)
          else bindS (copy_page PFTEMP (ROUNDDOWN addr PGSIZE) s) (\<lambda>_ s.
          bindS (sys_page_map 0 PFTEMP 0 (ROUNDDOWN addr PGSIZE) (PTE_P OR PTE_U OR PTE_W) s) (\<lambda>r s.
          if r < 0 then Inl (UserPanic, s)
          else bindS (sys_page_unmap 0 PFTEMP s) (\<lambda>r s.
          if r < 0 then Inl (UserPanic, s) else Inr ((), s)))))))"

text \<open>\<open>_pgfault_handler\<close> is a variable of the environment: \<open>installed\<close> says whether it is set.\<close>

definition set_pgfault_handler :: "bool \<Rightarrow> 32 word \<Rightarrow> kstate \<Rightarrow> (kstate, unit) res" where
  "set_pgfault_handler installed upcall s =
     (if installed then Inr ((), s)
      else bindS (deref (curenv s) s) (\<lambda>c s.
        bindS (sys_page_alloc (env_id (envs s c)) (UXSTACKTOP - PGSIZE) (PTE_P OR PTE_U OR PTE_W) s) (\<lambda>r s.
        if r \<noteq> 0 then Inl (UserPanic, s)
        else bindS (sys_env_set_pgfault_upcall (env_id (envs s c)) upcall s) (\<lambda>r s.
        if r < 0 then Inl (UserPanic, s) else Inr ((), s)))))"

section \<open>Duplicating an address space\<close>

definition dup_perm :: "32 word \<Rightarrow> 32 word" where
  "dup_perm pte =
     (if pte AND PTE_SHARE \<noteq> 0 then pte AND PTE_SYSCALL
      else if pte AND PTE_W \<noteq> 0 \<or> pte AND PTE_COW \<noteq> 0 then PTE_P OR PTE_U OR PTE_COW
      else PTE_P OR PTE_U)"

definition duppage :: "32 word \<Rightarrow> nat \<Rightarrow> kstate \<Rightarrow> (kstate, int) res" where
  "duppage envid pn s =
     (let va = of_nat pn * PGSIZE
      in bindS (uvpt pn s) (\<lambda>pte s.
           if pte AND PTE_W \<noteq> 0 \<or> pte AND PTE_COW \<noteq> 0 \<or> pte AND PTE_SHARE \<noteq> 0 then
             bindS (sys_page_map 0 va envid va (dup_perm pte) s) (\<lambda>r s.
             if r < 0 then Inl (UserPanic, s)
             else bindS (sys_page_map 0 va 0 va (dup_perm pte) s) (\<lambda>r s.
             if r < 0 then Inl (UserPanic, s) else Inr (0, s)))
           else
             bindS (sys_page_map 0 va envid va (dup_perm pte) s) (\<lambda>r s.
             if r < 0 then Inl (UserPanic, s) else Inr (0, s))))"

definition fork_page :: "32 word \<Rightarrow> nat \<Rightarrow> kstate \<Rightarrow> (kstate, unit) res" where
  "fork_page envid pn s =
     bindS (uvpd (PDX (of_nat pn * PGSIZE)) s) (\<lambda>pde s.
       if pde AND PTE_P = 0 then Inr ((), s)
       else bindS (uvpt pn s) (\<lambda>pte s.
         if pte AND (PTE_P OR PTE_U) = 0 then Inr ((), s)
         else bindS (duppage envid pn s) (\<lambda>_ s. Inr ((), s))))"

text \<open>\<open>fork\<close> as the parent executes it; the child continues after \<open>sys_exofork\<close> with the result 0.\<close>

definition fork :: "bool \<Rightarrow> 32 word \<Rightarrow> kstate \<Rightarrow> (kstate, 32 word) res" where
  "fork installed upcall s =
     bindS (set_pgfault_handler installed upcall s) (\<lambda>_ s.
     bindS (sys_exofork s) (\<lambda>envid s.
       if sint envid < 0 then Inl (UserPanic, s)
       else if envid = 0 then Inr (0, s)
       else
         bindS (for_each (fork_page envid) [0..<PGNUM UXSTACKTOP - 2] s) (\<lambda>_ s.
         bindS (sys_page_alloc envid (UXSTACKTOP - PGSIZE) (PTE_P OR PTE_U OR PTE_W) s) (\<lambda>r s.
         if r < 0 then Inl (UserPanic, s)
         else bindS (sys_env_set_pgfault_upcall envid upcall s) (\<lambda>r s.
         if r < 0 then Inl (UserPanic, s)
         else bindS (sys_env_set_status envid ENV_RUNNABLE s) (\<lambda>r s.
         if r < 0 then Inl (UserPanic, s) else Inr (envid, s)))))))"

section \<open>The window on the page tables\<close>

definition self_map :: "kstate \<Rightarrow> nat \<Rightarrow> bool" where
  "self_map s pd \<longleftrightarrow> pd < 0x100000 \<and> pmem s pd (PDX UVPT) = page2pa pd OR PTE_P OR PTE_U"

lemma window: "(4013948928 + 4 * pn) div 4096 mod 1024 = pn div 1024" "(4013948928 + 4 * pn) mod 4096 div 4 = pn mod 1024"
  if "pn < 1048576" for pn :: nat
proof -
  obtain d r where d: "pn = 1024 * d + r" "r < 1024" by (metis mult_div_mod_eq mod_less_divisor zero_less_numeral)
  then have "d < 1024" using that by linarith
  have "(4013948928 + 4 * pn) div 4096 = 979968 + d" using d by (intro div_nat_eqI) simp_all
  moreover have "979968 + d = d + 1024 * 957" by simp
  then have "(979968 + d) mod 1024 = d" using \<open>d < 1024\<close> by (simp only: mod_mult_self2 mod_less)
  ultimately show "(4013948928 + 4 * pn) div 4096 mod 1024 = pn div 1024" using d by simp
  have "(4013948928 + 4 * pn) mod 4096 = 4 * r" using d minus_mult_div_eq_mod [of "4013948928 + 4 * pn" 4096]
    \<open>(4013948928 + 4 * pn) div 4096 = 979968 + d\<close> by simp
  then show "(4013948928 + 4 * pn) mod 4096 div 4 = pn mod 1024" using d by simp
qed

lemma uvpt_look:
  assumes sm: "self_map s pd" and cr: "cr3 s = pd" and pn: "pn < 0x100000" and u: "uvpt pn s = Inr (w, s)" "bit w 0"
  shows "look s pd (of_nat pn * PGSIZE) = Some w"
proof -
  have "PTE_P OR PTE_U = 5" by (simp add: jos_consts)
  then have e: "bit (pmem s pd (PDX UVPT)) 0" "PGNUM (pmem s pd (PDX UVPT)) = pd"
    using sm PGNUM_flags [of 5 "page2pa pd"] by (simp_all add: self_map_def bit_or_iff jos_consts flags_only_def or.assoc)
  have "unat (UVPT + 4 * of_nat pn) = 0xef400000 + 4 * pn"
    using pn by (simp add: jos_consts unat_word_ariths unat_of_nat)
  then have va: "PDX (UVPT + 4 * of_nat pn) = PDX UVPT" "PTX (UVPT + 4 * of_nat pn) = pn div 1024"
    "unat (UVPT + 4 * of_nat pn) mod 4096 div 4 = pn mod 1024"
    using pn by (simp_all add: PDX_div PTX_mod jos_consts window)
  have "unat (of_nat pn * PGSIZE) = pn * 4096" using pn by (simp add: jos_consts unat_word_ariths unat_of_nat)
  then have pva: "PDX (of_nat pn * PGSIZE) = pn div 1024" "PTX (of_nat pn * PGSIZE) = pn mod 1024"
    by (simp_all add: PDX_div PTX_mod div_mult2_eq [symmetric])
  show ?thesis
    using u e unfolding uvpt_def user_load_def va cr look_def pva
    by (auto simp: pg_of_def pt_of_def Let_def split: if_splits)
qed

section \<open>Copy-on-write\<close>

lemma perm_consts: "\<not> PTE_bad_perm (PTE_P OR PTE_U OR PTE_W)" "\<not> PTE_bad_perm (PTE_P OR PTE_U OR PTE_COW)" "\<not> PTE_bad_perm (PTE_P OR PTE_U)"
  by (simp_all add: PTE_bad_perm_def jos_consts)

lemma dup_perm_ok:
  assumes "bit w 0" "bit w 2"
  shows "\<not> PTE_bad_perm (dup_perm w)" "dup_perm w AND PTE_W \<noteq> 0 \<longrightarrow> w AND PTE_W \<noteq> 0"
    "w AND PTE_SHARE = 0 \<Longrightarrow> dup_perm w AND PTE_W = 0"
proof -
  have "(w AND PTE_SYSCALL) AND PTE_U = PTE_U" "(w AND PTE_SYSCALL) AND PTE_P = PTE_P" "(w AND PTE_SYSCALL) AND NOT PTE_SYSCALL = 0"
  proof -
    have and_bit: "v AND push_bit n 1 = push_bit n 1" if "bit v n" for n and v :: "32 word"
      by (rule bit_word_eqI) (use that in \<open>auto simp: bit_simps\<close>)
    have c: "PTE_SYSCALL AND PTE_U = PTE_U" "PTE_SYSCALL AND PTE_P = PTE_P" by (simp_all add: jos_consts)
    have "w AND PTE_U = PTE_U" "w AND PTE_P = PTE_P" using and_bit [of w 2] and_bit [of w 0] assms by (simp_all add: jos_consts)
    then show "(w AND PTE_SYSCALL) AND PTE_U = PTE_U" "(w AND PTE_SYSCALL) AND PTE_P = PTE_P" by (simp_all only: and.assoc c)
    show "(w AND PTE_SYSCALL) AND NOT PTE_SYSCALL = 0" by (simp add: and.assoc)
  qed
  then have "\<not> PTE_bad_perm (w AND PTE_SYSCALL)" unfolding PTE_bad_perm_def by blast
  then show "\<not> PTE_bad_perm (dup_perm w)" using perm_consts by (simp add: dup_perm_def)
  show "dup_perm w AND PTE_W \<noteq> 0 \<longrightarrow> w AND PTE_W \<noteq> 0" "w AND PTE_SHARE = 0 \<Longrightarrow> dup_perm w AND PTE_W = 0"
    by (auto simp: dup_perm_def jos_consts and.assoc)
qed

text \<open>The kernel while an environment executes library code in its own address space.\<close>

definition in_user :: "kstate \<Rightarrow> nat \<Rightarrow> nat \<Rightarrow> bool" where
  "in_user s c pd \<longleftrightarrow> k_inv s \<and> caller s c \<and> env_pgdir (envs s c) = Some pd \<and> cr3 s = pd \<and> self_map s pd"

lemma page_va:
  assumes "pn < PGNUM UTOP"
  shows "pn < 0x100000" "of_nat pn * PGSIZE < UTOP" "(of_nat pn * PGSIZE) mod PGSIZE = 0" "PGNUM (of_nat pn * PGSIZE) = pn"
proof -
  have pn: "pn < 977920" using assms by (simp add: PGNUM_div jos_consts)
  then show "pn < 0x100000" by simp
  have u: "unat (of_nat pn * PGSIZE :: 32 word) = pn * 4096" using pn by (simp add: jos_consts unat_word_ariths unat_of_nat)
  then show "of_nat pn * PGSIZE < UTOP" using pn by (simp add: word_less_nat_alt jos_consts)
  have "unat ((of_nat pn * PGSIZE) mod PGSIZE) = 0" unfolding unat_mod u by (simp add: jos_consts)
  then show "(of_nat pn * PGSIZE) mod PGSIZE = 0" by (simp add: unsigned_eq_0_iff)
  show "PGNUM (of_nat pn * PGSIZE) = pn" by (simp add: PGNUM_div u)
qed

lemma entry_page: "flags_only perm \<Longrightarrow> PGNUM (page2pa (PGNUM w) OR perm OR PTE_P) = PGNUM w"
proof -
  assume "flags_only perm"
  then have "flags_only (perm OR PTE_P)" by (simp add: jos_consts) (simp add: flags_only_def)
  moreover have "unat w < 2 ^ LENGTH(32)" by (rule unsigned_less)
  then have "PGNUM w < 0x100000" unfolding PGNUM_div by (intro less_mult_imp_div_less) simp
  ultimately show ?thesis by (simp add: PGNUM_flags)
qed

lemma entry_flag: "(page2pa p OR perm OR PTE_P) AND PTE_W = perm AND PTE_W"
proof -
  have w: "PTE_W = push_bit 1 1" "PTE_P = push_bit 0 1" by (simp_all add: jos_consts)
  show ?thesis unfolding w by (rule bit_word_eqI) (auto simp: page2pa_def bit_simps)
qed

lemma other_pgdir:
  assumes "k_inv s" "live s c" "live s e" "env_pgdir (envs s c) = Some pd" "env_pgdir (envs s e) = Some cd" "e \<noteq> c"
  shows "cd \<noteq> pd"
proof -
  obtain efl where "envs_inv efl s" using assms(1) by (auto simp: k_inv_def)
  then have "\<forall>e e'. live s e \<longrightarrow> live s e' \<longrightarrow> env_pgdir (envs s e) = env_pgdir (envs s e') \<longrightarrow> e = e'" by (simp add: envs_inv_def)
  then show ?thesis using assms(2-) by metis
qed

lemma mapped_keep:
  assumes eq: "\<forall>pd'\<in>pgdirs s. \<forall>x<UTOP. look s' pd' x = (if pd' = pd \<and> PGNUM x = PGNUM va then v else look s pd' x)"
    and none: "look s pd va = None" and same: "pgdirs s' = pgdirs s" and q: "mapped_page s q"
  shows "mapped_page s' q"
proof -
  from q obtain pd' x z where x: "pd' \<in> pgdirs s" "x < UTOP" "look s pd' x = Some z" "PGNUM z = q" by (auto simp: mapped_page_def)
  have "\<not> (pd' = pd \<and> PGNUM x = PGNUM va)" using none x(3) look_same_page [of x va s pd] by auto
  then have "look s' pd' x = Some z" using eq x by auto
  then show ?thesis using mapped_pageI [of pd' s' x z] x same by simp
qed

lemma finite_pgdirs: "k_inv s \<Longrightarrow> finite (pgdirs s)"
  using k_inv_ok [of s] by (auto simp: vm_ok_def vm_inv_def pd_inv_def)

text \<open>
  C8. \<open>duppage\<close> shares a page copy-on-write. Let the page be mapped in the parent, let the child be an
  environment that the parent may change and that has nothing there, and let two pages be free. Then \<open>duppage\<close> succeeds: the
  child maps the same physical page at the same address with the permissions of \<open>dup_perm\<close>; a page that
  was writable or copy-on-write is remapped in the parent with the same permissions; no other
  mapping and no contents change. Unless the page is marked \<open>PTE_SHARE\<close>, afterwards neither parent nor
  child can write to it.
\<close>

theorem duppage_cow:
  assumes u: "in_user s c pd" and refs: "refs_room 2 s" and fl: "fl_inv fl s" "2 \<le> length fl"
    and child: "envid2env envid True s = Inr ((0, Some e), s)" "e \<noteq> c" "env_pgdir (envs s e) = Some cd"
      "look s cd (of_nat pn * PGSIZE) = None"
    and page: "pn < PGNUM UTOP" "uvpt pn s = Inr (w, s)" "bit w 0" "bit w 2"
  shows "\<exists>s'. duppage envid pn s = Inr (0, s') \<and> k_inv s' \<and>
    look s' cd (of_nat pn * PGSIZE) = Some (page2pa (PGNUM w) OR dup_perm w OR PTE_P) \<and>
    (\<forall>pd'\<in>pgdirs s. \<forall>x<UTOP. \<not> ((pd' = pd \<or> pd' = cd) \<and> PGNUM x = pn) \<longrightarrow> look s' pd' x = look s pd' x) \<and>
    (w AND PTE_SHARE = 0 \<longrightarrow> (\<forall>pd'\<in>{pd, cd}. \<exists>v. look s' pd' (of_nat pn * PGSIZE) = Some v \<and> PGNUM v = PGNUM w \<and> v AND PTE_W = 0)) \<and>
    (\<forall>q. mapped_page s q \<longrightarrow> pmem s' q = pmem s q)"
proof -
  let ?va = "of_nat pn * PGSIZE" and ?v = "page2pa (PGNUM w) OR dup_perm w OR PTE_P"
  have inv: "k_inv s" and c: "caller s c" and pd: "env_pgdir (envs s c) = Some pd" and cr: "cr3 s = pd" and sm: "self_map s pd"
    using u by (simp_all add: in_user_def)
  note va = page_va [OF page(1)] and perm = dup_perm_ok [OF page(3,4)]
  have w: "look s pd ?va = Some w" by (rule uvpt_look [OF sm cr va(1) page(2,3)])
  have live: "live s c" "live s e" using c child(1) envid2env_auth [OF c, of envid]
    by (auto simp: caller_def authority_def E_BAD_ENV_def)
  have cd: "cd \<noteq> pd" by (rule other_pgdir [OF inv live pd child(3,2)])
  have pds: "pd \<in> pgdirs s" "cd \<in> pgdirs s" using live pd child(3) by (auto simp: pgdirs_def)
  have free: "page_free_list s \<noteq> None" using fl by (cases fl) (auto simp: fl_inv_def)
  have refs': "refs_room (Suc 1) s" using refs by (simp add: numeral_2_eq_2)
  obtain s1 where s1: "sys_page_map 0 ?va envid ?va (dup_perm w) s = Inr (0, s1)" "k_inv s1" "vm_frame s s1"
    "\<forall>pd'\<in>pgdirs s. \<forall>x<UTOP. look s1 pd' x = (if pd' = cd \<and> PGNUM x = PGNUM ?va then Some ?v else look s pd' x)"
    using page_map_ok [OF inv refs_room_ok [OF refs'] c free envid2env_self [OF c] pd va(2,3) child(1,3) va(2,3) w perm(1,2)] by blast
  note con1 = page_map_contents [OF inv refs_room_ok [OF refs'] c s1(1) child(1,3)]
  have v: "PGNUM ?v = PGNUM w" by (rule entry_page [OF bad_perm_flags [OF perm(1)]])
  have vw: "w AND PTE_SHARE = 0 \<longrightarrow> ?v AND PTE_W = 0" using perm(3) by (simp add: entry_flag)
  have lo: "look s1 pd ?va = Some w" "look s1 cd ?va = Some ?v" using s1(4) pds cd w va(2) by auto
  show ?thesis
  proof (cases "w AND PTE_W \<noteq> 0 \<or> w AND PTE_COW \<noteq> 0 \<or> w AND PTE_SHARE \<noteq> 0")
    case False
    then have "duppage envid pn s = Inr (0, s1)" using page(2) s1(1) by (simp add: duppage_def Let_def)
    then show ?thesis using s1(2,4) lo v vw va(4) con1(1) False by (intro exI [of _ s1]) auto
  next
    case True
    note fr = frame_caller [OF s1(3)] and k = vm_frame_k [OF s1(3)]
    have c1: "caller s1 c" and pd1: "env_pgdir (envs s1 c) = Some pd" using c pd fr k by simp_all
    have refs1: "refs_ok s1" using refs_room_ok mappings_one_slot [OF s1(4) fr(2) finite_pgdirs [OF inv] refs'] by (metis One_nat_def)
    have free1: "page_free_list s1 \<noteq> None" by (rule con1(3) [OF fl])
    obtain s2 where s2: "sys_page_map 0 ?va 0 ?va (dup_perm w) s1 = Inr (0, s2)" "k_inv s2" "vm_frame s1 s2"
      "\<forall>pd'\<in>pgdirs s1. \<forall>x<UTOP. look s2 pd' x = (if pd' = pd \<and> PGNUM x = PGNUM ?va then Some ?v else look s1 pd' x)"
      using page_map_ok [OF s1(2) refs1 c1 free1 envid2env_self [OF c1] pd1 va(2,3) envid2env_self [OF c1] pd1 va(2,3) lo(1) perm(1,2)] by blast
    note m = mapped_keep [OF s1(4) child(4) fr(2)]
    have "pmem s2 q = pmem s q" if "mapped_page s q" for q
      using page_map_contents(1) [OF s1(2) refs1 c1 s2(1) envid2env_self [OF c1] pd1 m [OF that]] con1(1) [OF that] by simp
    moreover have "duppage envid pn s = Inr (0, s2)" using True page(2) s1(1) s2(1) by (simp add: duppage_def Let_def)
    moreover have "look s2 pd ?va = Some ?v" "look s2 cd ?va = Some ?v" using s2(4) fr(2) pds cd lo(2) va(2) by auto
    moreover have "look s2 pd' x = look s pd' x" if "pd' \<in> pgdirs s" "x < UTOP" "\<not> ((pd' = pd \<or> pd' = cd) \<and> PGNUM x = pn)" for pd' x
      using s2(4) s1(4) fr(2) va(4) that by auto
    ultimately show ?thesis using s2(2) v vw by (intro exI [of _ s2]) auto
  qed
qed

lemma PFTEMP_facts: "PFTEMP < UTOP" "PFTEMP mod PGSIZE = 0" "PGNUM PFTEMP = 0x7ff"
  "i < 4096 \<Longrightarrow> PFTEMP + of_nat i < UTOP"
proof -
  show "PFTEMP < UTOP" "PFTEMP mod PGSIZE = 0" "PGNUM PFTEMP = 0x7ff" by (simp_all add: jos_consts PGNUM_div)
  show "PFTEMP + of_nat i < UTOP" if "i < 4096"
    using page_addr(1) [OF \<open>PFTEMP mod PGSIZE = 0\<close> that] that by (simp add: word_less_nat_alt jos_consts)
qed

lemma rounddown_page: "ROUNDDOWN addr PGSIZE = of_nat (PGNUM addr) * PGSIZE"
proof -
  have "unat addr < 2 ^ LENGTH(32)" by (rule unsigned_less)
  then have "unat addr div 4096 * 4096 < 4294967296" by (simp add: le_less_trans [OF div_times_less_eq_dividend])
  then have u: "unat (of_nat (PGNUM addr) * PGSIZE :: 32 word) = unat addr div 4096 * 4096"
    by (simp add: PGNUM_div jos_consts unat_word_ariths unat_of_nat mod_simps)
  show ?thesis using u unat_ROUNDDOWN [of addr] by (simp add: word_unat_eq_iff)
qed

lemma copy_page_step:
  assumes inv: "k_inv s" and cr: "cr3 s \<in> pgdirs s" and src: "look s (cr3 s) va = Some w" "va mod PGSIZE = 0"
    and dst: "look s (cr3 s) PFTEMP = Some z" "bit z 1" "bit (pmem s (cr3 s) (PDX PFTEMP)) 1"
  shows "\<exists>s'. copy_page PFTEMP va s = Inr ((), s') \<and> user_write s s' \<and>
    (\<forall>q off. byte_at s' q off = (if q = PGNUM z \<and> off < 4096 then byte_at s (PGNUM w) off else byte_at s q off))"
proof -
  let ?bs = "map (byte_at s (PGNUM w)) [0..<4096]"
  have r: "read_bytes va 4096 s = Inr (?bs, s)"
    using read_page [of 4096 va s "PGNUM w" 0] translate_page [OF src] by auto
  have "\<forall>i<length ?bs. PFTEMP + of_nat i < UTOP \<and> translate (PFTEMP + of_nat i) s = Some (PGNUM z, 0 + i, True)"
    using translate_page [OF dst(1) PFTEMP_facts(2)] dst(2,3) PFTEMP_facts(4) by auto
  from write_page [OF inv cr this] obtain s' where s': "write_bytes PFTEMP ?bs s = Inr ((), s')" "user_write s s'"
    "\<forall>q off. byte_at s' q off = (if q = PGNUM z \<and> 0 \<le> off \<and> off < 0 + length ?bs then ?bs ! (off - 0) else byte_at s q off)" by blast
  have "copy_page PFTEMP va s = Inr ((), s')" unfolding copy_page_def r using s'(1) by simp
  moreover have "byte_at s' q off = (if q = PGNUM z \<and> off < 4096 then byte_at s (PGNUM w) off else byte_at s q off)" for q off
    using s'(3) by simp
  ultimately show ?thesis using s'(2) by blast
qed

text \<open>The page that the handler allocates is mapped in two places for a moment, so one reference is spare.\<close>

lemma pgfault_remap:
  assumes inv: "k_inv s" and refs: "refs_ok s" and c: "caller s c" and pd: "env_pgdir (envs s c) = Some pd"
    and free: "page_free_list s \<noteq> None" and va: "va < UTOP" "va mod PGSIZE = 0" "PGNUM va \<noteq> PGNUM PFTEMP"
    and z: "look s pd PFTEMP = Some z" "z AND PTE_W \<noteq> 0" and v: "v = page2pa (PGNUM z) OR (PTE_P OR PTE_U OR PTE_W) OR PTE_P"
  shows "\<exists>s3 s'. sys_page_map 0 PFTEMP 0 va (PTE_P OR PTE_U OR PTE_W) s = Inr (0, s3) \<and> sys_page_unmap 0 PFTEMP s3 = Inr (0, s') \<and>
    k_inv s' \<and> pgdirs s' = pgdirs s \<and>
    (\<forall>pd'\<in>pgdirs s. \<forall>x<UTOP. look s' pd' x = (if pd' = pd \<and> PGNUM x = PGNUM va then Some v
       else if pd' = pd \<and> PGNUM x = PGNUM PFTEMP then None else look s pd' x)) \<and>
    (\<forall>q. mapped_page s q \<and> mapped_page s' q \<longrightarrow> pmem s' q = pmem s q)"
proof -
  note PF = PFTEMP_facts(1,2)
  obtain s3 where s3: "sys_page_map 0 PFTEMP 0 va (PTE_P OR PTE_U OR PTE_W) s = Inr (0, s3)" "k_inv s3" "vm_frame s s3"
    "\<forall>pd'\<in>pgdirs s. \<forall>x<UTOP. look s3 pd' x = (if pd' = pd \<and> PGNUM x = PGNUM va then Some v else look s pd' x)"
    using page_map_ok [OF inv refs c free envid2env_self [OF c] pd PF envid2env_self [OF c] pd va(1,2) z(1) perm_consts(1)] z(2) v by blast
  note fr = frame_caller [OF s3(3)] and k = vm_frame_k [OF s3(3)]
  have c3: "caller s3 c" and pd3: "env_pgdir (envs s3 c) = Some pd" using c pd fr k by simp_all
  obtain s4 where s4: "sys_page_unmap 0 PFTEMP s3 = Inr (0, s4)" "k_inv s4" "vm_frame s3 s4"
    "\<forall>pd'\<in>pgdirs s3. \<forall>x<UTOP. look s4 pd' x = (if pd' = pd \<and> PGNUM x = PGNUM PFTEMP then None else look s3 pd' x)"
    using sys_page_unmap_spec [OF s3(2) c3, of 0 PFTEMP] PF envid2env_self [OF c3] pd3 by (auto simp: not_le vm_kept_def)
  note fr4 = frame_caller [OF s4(3)]
  have "mapped_page s3 q" if "mapped_page s4 q" for q
    using that s4(4) fr4(2) unfolding mapped_page_def by (metis option.distinct(1))
  then have "pmem s4 q = pmem s q" if "mapped_page s q" "mapped_page s4 q" for q
    using that page_map_contents(1) [OF inv refs c s3(1) envid2env_self [OF c] pd] page_unmap_contents [OF s3(2) c3 s4(1)] by metis
  moreover have "look s4 pd' x = (if pd' = pd \<and> PGNUM x = PGNUM va then Some v
       else if pd' = pd \<and> PGNUM x = PGNUM PFTEMP then None else look s pd' x)" if "pd' \<in> pgdirs s" "x < UTOP" for pd' x
    using that s4(4) s3(4) fr(2) va(3) by auto
  moreover have "pgdirs s4 = pgdirs s" using fr(2) fr4(2) by simp
  ultimately show ?thesis using s3(1) s4(1,2) by blast
qed

lemma free_page_bound:
  assumes "k_inv s" "fl_inv fl s" "p \<in> set fl"
  shows "p < 0x100000" "\<not> mapped_page s p"
proof -
  obtain fl' where v: "vm_inv (pgdirs s) fl' (\<lambda>_. 0) s" using k_inv_ok [OF assms(1)] by (auto simp: vm_ok_def)
  then have "fl' = fl" using fl_inv_unique [OF _ assms(2)] by (simp add: vm_inv_def)
  then show "p < 0x100000" "\<not> mapped_page s p"
    using v assms(2,3) mapped_not_special [OF v] by (auto simp: vm_inv_def fl_inv_def)
qed

text \<open>The entry that the handler installs for its new page.\<close>

lemma new_entry:
  assumes "p < 0x100000" and z: "z = page2pa p OR (PTE_P OR PTE_U OR PTE_W) OR PTE_P"
  shows "PGNUM z = p" "z AND PTE_W \<noteq> 0" "bit z 1"
proof -
  show "PGNUM z = p" unfolding z using assms(1) entry_page [OF bad_perm_flags [OF perm_consts(1)], of "page2pa p"] by simp
  show w: "z AND PTE_W \<noteq> 0" unfolding z entry_flag by (simp add: jos_consts)
  show "bit z 1" unfolding z by (simp add: bit_or_iff) (simp add: jos_consts bit_numeral_rec)
qed

text \<open>The first half of the handler: a new page at \<open>PFTEMP\<close>, filled from the faulting page.\<close>

lemma pgfault_fill:
  assumes u: "in_user s c pd" and refs: "refs_room 2 s" and fl: "fl_inv fl s" "3 \<le> length fl"
    and va: "va < UTOP" "va mod PGSIZE = 0" "PGNUM va \<noteq> PGNUM PFTEMP" and w: "look s pd va = Some w"
  shows "\<exists>p z s1 s2. sys_page_alloc 0 PFTEMP (PTE_P OR PTE_U OR PTE_W) s = Inr (0, s1) \<and> copy_page PFTEMP va s1 = Inr ((), s2) \<and>
    p \<in> set fl \<and> z = page2pa p OR (PTE_P OR PTE_U OR PTE_W) OR PTE_P \<and>
    k_inv s2 \<and> refs_ok s2 \<and> caller s2 c \<and> env_pgdir (envs s2 c) = Some pd \<and> pgdirs s2 = pgdirs s \<and> page_free_list s2 \<noteq> None \<and>
    (\<forall>pd'\<in>pgdirs s. \<forall>x<UTOP. look s2 pd' x = (if pd' = pd \<and> PGNUM x = PGNUM PFTEMP then Some z else look s pd' x)) \<and>
    (\<forall>off<4096. byte_at s2 p off = byte_at s (PGNUM w) off) \<and> (\<forall>q off. mapped_page s q \<longrightarrow> byte_at s2 q off = byte_at s q off)"
proof -
  have inv: "k_inv s" and c: "caller s c" and pd: "env_pgdir (envs s c) = Some pd" and cr: "cr3 s = pd"
    using u by (simp_all add: in_user_def)
  have pds: "pd \<in> pgdirs s" by (rule caller_pgdir [OF c pd])
  note PF = PFTEMP_facts(1,2)
  obtain p s1 where s1: "sys_page_alloc 0 PFTEMP (PTE_P OR PTE_U OR PTE_W) s = Inr (0, s1)" "k_inv s1" "vm_frame s s1" "p \<in> set fl"
    "\<forall>pd'\<in>pgdirs s. \<forall>x<UTOP. look s1 pd' x = (if pd' = pd \<and> PGNUM x = PGNUM PFTEMP
       then Some (page2pa p OR (PTE_P OR PTE_U OR PTE_W) OR PTE_P) else look s pd' x)"
    "\<forall>q. mapped_page s q \<longrightarrow> pmem s1 q = pmem s q" "\<forall>k. bit (PTE_P OR PTE_U OR PTE_W) k \<longrightarrow> bit (pmem s1 pd (PDX PFTEMP)) k"
    "page_free_list s1 \<noteq> None"
    using page_alloc_contents [OF inv c PF perm_consts(1) envid2env_self [OF c] pd fl] by blast
  obtain z where z: "z = page2pa p OR (PTE_P OR PTE_U OR PTE_W) OR PTE_P" by simp
  note fr = frame_caller [OF s1(3)] and k = vm_frame_k [OF s1(3)] and fp = free_page_bound [OF inv fl(1) s1(4)]
  note ne = new_entry [OF fp(1) z]
  have lo: "look s1 pd va = Some w" "look s1 pd PFTEMP = Some z" using s1(5) pds va(1,3) PF(1) w z by auto
  have "bit (pmem s1 pd (PDX PFTEMP)) 1" using s1(7) by (simp add: bit_or_iff) (simp add: jos_consts bit_numeral_rec)
  then obtain s2 where s2: "copy_page PFTEMP va s1 = Inr ((), s2)" "user_write s1 s2"
    "\<forall>q off. byte_at s2 q off = (if q = p \<and> off < 4096 then byte_at s1 (PGNUM w) off else byte_at s1 q off)"
    using copy_page_step [OF s1(2), of va w z] lo va(2) ne k pds fr(2) cr by auto
  note uw = user_write_inv [OF s1(2) s2(2)] and us = user_write_simps [OF s2(2)]
  have c2: "caller s2 c" "env_pgdir (envs s2 c) = Some pd" and pg2: "pgdirs s2 = pgdirs s"
    using c pd fr k us by (simp_all add: frame_caller(1) [OF us(9)])
  have "refs_room (Suc 0) s1" using mappings_one_slot [OF s1(5) fr(2) finite_pgdirs [OF inv], of 1] refs by (simp add: numeral_2_eq_2)
  moreover have sv: "same_view (pgdirs s1) s1 s2" using s2(2) unfolding user_write_def by blast
  ultimately have refs2: "refs_ok s2" using refs_room_ok [of 0 s1] by (simp add: refs_ok_def us(2) same_view_mappings [OF sv])
  have lo2: "look s2 pd' x = look s1 pd' x" if "pd' \<in> pgdirs s" "x < UTOP" for pd' x using uw(3) that fr(2) by simp
  have "s2 = s1\<lparr>pmem := pmem s2\<rparr>" using s2(2) unfolding user_write_def by (rule conjunct1)
  from arg_cong [OF this, of page_free_list] have "page_free_list s2 = page_free_list s1" by simp
  then have free: "page_free_list s2 \<noteq> None" using s1(8) by simp
  have keep: "byte_at s1 q off = byte_at s q off" if "mapped_page s q" for q off by (simp add: byte_at_def s1(6) [rule_format, OF that])
  have b1: "\<forall>off<4096. byte_at s2 p off = byte_at s (PGNUM w) off"
    using s2(3) keep [OF mapped_pageI [OF pds va(1) w]] by simp
  have b2: "\<forall>q off. mapped_page s q \<longrightarrow> byte_at s2 q off = byte_at s q off"
  proof (intro allI impI)
    fix q off assume q: "mapped_page s q"
    then have "q \<noteq> p" using fp(2) by blast
    then show "byte_at s2 q off = byte_at s q off" using s2(3) [rule_format, of q off] keep [OF q, of off] by simp
  qed
  have b3: "\<forall>pd'\<in>pgdirs s. \<forall>x<UTOP. look s2 pd' x = (if pd' = pd \<and> PGNUM x = PGNUM PFTEMP then Some z else look s pd' x)"
  proof (intro ballI allI impI)
    fix pd' x assume x: "pd' \<in> pgdirs s" "x < UTOP"
    show "look s2 pd' x = (if pd' = pd \<and> PGNUM x = PGNUM PFTEMP then Some z else look s pd' x)"
      using s1(5) [rule_format, OF x] unfolding lo2 [OF x] z .
  qed
  show ?thesis
    by (intro exI [of _ p] exI [of _ z] exI [of _ s1] exI [of _ s2] conjI)
      (rule s1(1) s2(1) s1(4) z uw(1) refs2 c2 pg2 free b1 b2 b3)+
qed

text \<open>
  C7. Copy on write. When the handler of a write fault runs in an environment whose faulting page is
  mapped copy-on-write, and three pages are free, it succeeds: the faulting page is then backed by
  a page that was free, writable, and holds byte for byte what the shared page held; the temporary
  mapping is gone again; no other mapping of any environment changes; and every page that was mapped
  and still is keeps its contents, so the other sharers see nothing of it.
\<close>

theorem pgfault_copies:
  assumes u: "in_user s c pd" and refs: "refs_room 2 s" and fl: "fl_inv fl s" "3 \<le> length fl"
    and fault: "err AND FEC_WR \<noteq> 0" "addr < UTOP" "uvpt (PGNUM addr) s = Inr (w, s)" "bit w 0" "w AND PTE_COW \<noteq> 0"
    and temp: "PGNUM addr \<noteq> PGNUM PFTEMP" "look s pd PFTEMP = None"
  shows "\<exists>p s'. pgfault addr err s = Inr ((), s') \<and> k_inv s' \<and> p \<in> set fl \<and>
    (\<forall>pd'\<in>pgdirs s. \<forall>x<UTOP. look s' pd' x = (if pd' = pd \<and> PGNUM x = PGNUM addr
       then Some (page2pa p OR (PTE_P OR PTE_U OR PTE_W) OR PTE_P) else look s pd' x)) \<and>
    (\<forall>off<4096. byte_at s' p off = byte_at s (PGNUM w) off) \<and>
    (\<forall>q off. mapped_page s q \<and> mapped_page s' q \<longrightarrow> byte_at s' q off = byte_at s q off)"
proof -
  let ?va = "of_nat (PGNUM addr) * PGSIZE"
  have inv: "k_inv s" and c: "caller s c" and pd: "env_pgdir (envs s c) = Some pd" and cr: "cr3 s = pd" and sm: "self_map s pd"
    using u by (simp_all add: in_user_def)
  have pds: "pd \<in> pgdirs s" by (rule caller_pgdir [OF c pd])
  have pn: "PGNUM addr < PGNUM UTOP" using fault(2) by (simp add: PGNUM_div word_less_nat_alt jos_consts)
  note va = page_va [OF pn] and PF = PFTEMP_facts(1,2)
  have w: "look s pd ?va = Some w" by (rule uvpt_look [OF sm cr va(1) fault(3,4)])
  obtain p z s1 s2 where s2: "sys_page_alloc 0 PFTEMP (PTE_P OR PTE_U OR PTE_W) s = Inr (0, s1)" "copy_page PFTEMP ?va s1 = Inr ((), s2)"
    and p: "p \<in> set fl" "z = page2pa p OR (PTE_P OR PTE_U OR PTE_W) OR PTE_P"
    and k2: "k_inv s2" "refs_ok s2" "caller s2 c" "env_pgdir (envs s2 c) = Some pd" "pgdirs s2 = pgdirs s" "page_free_list s2 \<noteq> None"
    and lo: "\<forall>pd'\<in>pgdirs s. \<forall>x<UTOP. look s2 pd' x = (if pd' = pd \<and> PGNUM x = PGNUM PFTEMP then Some z else look s pd' x)"
    and b2: "\<forall>off<4096. byte_at s2 p off = byte_at s (PGNUM w) off" "\<forall>q off. mapped_page s q \<longrightarrow> byte_at s2 q off = byte_at s q off"
    using pgfault_fill [OF u refs fl va(2,3) _ w] temp(1) va(4) by (simp only: simp_thms) blast
  note ne = new_entry [OF free_page_bound(1) [OF inv fl(1) p(1)] p(2)]
  have z: "look s2 pd PFTEMP = Some z" using lo pds PF(1) by simp
  obtain s3 s' where s': "sys_page_map 0 PFTEMP 0 ?va (PTE_P OR PTE_U OR PTE_W) s2 = Inr (0, s3)" "sys_page_unmap 0 PFTEMP s3 = Inr (0, s')"
    "k_inv s'" "pgdirs s' = pgdirs s2"
    "\<forall>pd'\<in>pgdirs s2. \<forall>x<UTOP. look s' pd' x = (if pd' = pd \<and> PGNUM x = PGNUM ?va then Some z
       else if pd' = pd \<and> PGNUM x = PGNUM PFTEMP then None else look s2 pd' x)"
    "\<forall>q. mapped_page s2 q \<and> mapped_page s' q \<longrightarrow> pmem s' q = pmem s2 q"
    using pgfault_remap [OF k2(1-4,6) va(2,3) _ z ne(2), of z] ne(1) p(2) va(4) temp(1) by (simp only: simp_thms) blast
  have run: "pgfault addr err s = Inr ((), s')"
    using fault(1,3,5) s2 s'(1,2) by (simp add: pgfault_def rounddown_page)
  have lo': "look s' pd' x = (if pd' = pd \<and> PGNUM x = PGNUM addr then Some z else look s pd' x)" if "pd' \<in> pgdirs s" "x < UTOP" for pd' x
    using s'(5) lo that va(4) temp look_same_page [of x PFTEMP s pd] k2(5) by auto
  note m2 = mapped_keep [OF lo temp(2) k2(5)]
  have "mapped_page s2 p" "mapped_page s' p"
    using mapped_pageI [of pd s2 PFTEMP z] mapped_pageI [of pd s' ?va z] pds k2(5) PF(1) z s'(4) lo' va(2,4) ne(1) by auto
  then have "\<forall>off<4096. byte_at s' p off = byte_at s (PGNUM w) off" using s'(6) b2(1) by (simp add: byte_at_def)
  moreover have "byte_at s' q off = byte_at s q off" if "mapped_page s q" "mapped_page s' q" for q off
    using s'(6) m2 [OF that(1)] that b2(2) by (simp add: byte_at_def)
  ultimately show ?thesis using run s'(3) p lo' by (intro exI [of _ p] exI [of _ s']) simp
qed

section \<open>An environment with a page to share\<close>

text \<open>
  The machine with one page, as its environments see it: the directory of environment 0 maps itself
  at \<open>UVPT\<close>, and the entry of the page is \<open>w\<close>.
\<close>

definition fork_k :: "32 word \<Rightarrow> kstate" where
  "fork_k w = map_k\<lparr>pmem := (\<lambda>p k. if p = 4 \<and> k = 957 then 0x4005 else if p = 6 \<and> k = 0 then w else pmem map_k p k)\<rparr>"

lemma fork_k_fields:
  "envs (fork_k w) = envs map_k" "env_free_list (fork_k w) = env_free_list map_k" "curenv (fork_k w) = Some 0"
  "uninit (fork_k w) = 1" "cr3 (fork_k w) = 4" "npages (fork_k w) = 16" "page_free_list (fork_k w) = Some 15" "pages (fork_k w) = pages map_k"
  using map_k_fields by (simp_all add: fork_k_def curenv_def)

lemma fork_k_pgdirs: "pgdirs (fork_k w) = {4, 5}" "live (fork_k w) e \<longleftrightarrow> e = 0 \<or> e = 1"
  using map_k_pgdirs(1) map_k_pgdirs(2) [of e] by (simp_all add: pgdirs_def live_def fork_k_fields)

lemma fork_k_pt: "pd \<in> {4, 5} \<Longrightarrow> i < PDX UTOP \<Longrightarrow> pt_of (fork_k w) pd i = (if pd = 4 \<and> i = 2 then Some 6 else None)"
  using page_k_pt [of pd 2 0 i] by (auto simp: pt_of_def fork_k_def PDX_div jos_consts split: if_splits)

lemma fork_k_pg: "bit w 0 \<Longrightarrow> pd \<in> {4, 5} \<Longrightarrow> i < PDX UTOP \<Longrightarrow>
    pg_of (fork_k w) pd i j = (if pd = 4 \<and> i = 2 \<and> j = 0 then Some w else None)"
  unfolding pg_of_def by (simp add: fork_k_pt) (simp add: fork_k_def map_k_def)

lemma fork_k_mappings:
  assumes "bit w 0" "PGNUM w = 7"
  shows "mappings {4, 5} (fork_k w) p = (if p = 7 then {(4, 2, 0)} else {})"
proof -
  have "2 < PDX UTOP" by (simp add: PDX_div jos_consts)
  then show ?thesis using assms unfolding mappings_def by (auto simp: slots_def fork_k_pg jos_consts split: if_splits)
qed

lemma fork_k_tables: "page_tables {4, 5} (fork_k w) = {6}"
proof -
  have "2 < PDX UTOP" by (simp add: PDX_div jos_consts)
  then show ?thesis unfolding page_tables_def by (auto simp: fork_k_pt split: if_splits)
qed

lemma fork_k_free: "fl_inv [15, 14, 13, 12, 11, 10, 9, 8] (fork_k w)"
  unfolding fl_inv_def fork_k_fields by (simp add: map_k_def) arith

lemma fork_k_vm:
  assumes "bit w 0" "PGNUM w = 7"
  shows "vm_inv {4, 5} [15, 14, 13, 12, 11, 10, 9, 8] (\<lambda>_. 0) (fork_k w)"
proof -
  have "pd_inv {4, 5} [15, 14, 13, 12, 11, 10, 9, 8] (fork_k w)"
    by (simp add: pd_inv_def fork_k_fields) (simp add: map_k_def)
  moreover have "pt_inv {4, 5} [15, 14, 13, 12, 11, 10, 9, 8] (fork_k w)"
    unfolding pt_inv_def fork_k_fields by (auto simp: fork_k_pt split: if_splits) (simp add: map_k_def)
  moreover have "rc_inv {4, 5} [15, 14, 13, 12, 11, 10, 9, 8] (\<lambda>_. 0) (fork_k w)"
    unfolding rc_inv_def fork_k_mappings [OF assms] fork_k_tables fork_k_fields by (simp add: map_k_def)
  ultimately show ?thesis using fork_k_free by (simp add: vm_inv_def fork_k_fields)
qed

lemma fork_k_user:
  assumes "bit w 0" "PGNUM w = 7"
  shows "in_user (fork_k w) 0 4" "refs_room 2 (fork_k w)"
proof -
  have "same_envs duo_k (fork_k w)" by (simp add: same_envs_def same_env_def fork_k_fields map_k_fields)
  from same_envs_inv [OF this] have "envs_inv [2..<NENV] (fork_k w)" using duo_k_envs by simp
  then have "k_inv (fork_k w)"
    unfolding k_inv_def vm_ok_def fork_k_pgdirs using fork_k_vm [OF assms] by (auto simp: fork_k_fields)
  moreover have "caller (fork_k w) 0" by (simp add: caller_def fork_k_pgdirs fork_k_fields)
  moreover have "self_map (fork_k w) 4" by (simp add: self_map_def fork_k_def PDX_div page2pa_def jos_consts)
  moreover have "env_pgdir (envs (fork_k w) 0) = Some 4" by (simp add: fork_k_fields map_k_fields) (simp add: duo_k_def)
  ultimately show "in_user (fork_k w) 0 4" by (simp add: in_user_def fork_k_fields)
  show "refs_room 2 (fork_k w)" by (simp add: refs_room_def fork_k_pgdirs fork_k_mappings [OF assms])
qed

lemma fork_k_uvpt: "bit w 0 \<Longrightarrow> bit w 2 \<Longrightarrow> uvpt 0x800 (fork_k w) = Inr (w, fork_k w)"
  unfolding uvpt_def user_load_def Let_def fork_k_fields
  by (simp add: fork_k_def map_k_def PDX_div PTX_mod PGNUM_div jos_consts bit_numeral_rec)

lemma fork_k_child: "envid2env 0x1001 True (fork_k w) = Inr ((0, Some 1), fork_k w)"
  using envid2env_run [of "fork_k w" 0 "0x1001" True]
  by (simp add: fork_k_fields map_k_fields fork_k_pgdirs ENVX_def) (simp add: duo_k_def)

theorem duppage_cow_witness:
  "\<exists>s'. duppage 0x1001 0x800 (fork_k 0x7007) = Inr (0, s') \<and> k_inv s' \<and> look s' 5 0x800000 = Some 0x7805 \<and>
    (\<exists>v. look s' 4 0x800000 = Some v \<and> PGNUM v = 7 \<and> v AND PTE_W = 0)"
proof -
  have w: "bit (0x7007 :: 32 word) 0" "bit (0x7007 :: 32 word) 2" "PGNUM 0x7007 = 7" by (simp_all add: bit_numeral_rec PGNUM_div)
  have va: "of_nat 0x800 * PGSIZE = 0x800000" by (simp add: jos_consts)
  have "look (fork_k 0x7007) 5 0x800000 = None" using fork_k_pg [OF w(1), of 5 2 0] by (simp add: look_def PDX_div PTX_mod jos_consts)
  moreover have "env_pgdir (envs (fork_k 0x7007) 1) = Some 5" by (simp add: fork_k_fields map_k_fields) (simp add: duo_k_def)
  moreover have "0x800 < PGNUM UTOP" by (simp add: PGNUM_div jos_consts)
  moreover have "2 \<le> length [15, 14, 13, 12, 11, 10, 9, 8 :: nat]" by simp
  ultimately obtain s' where s': "duppage 0x1001 0x800 (fork_k 0x7007) = Inr (0, s')" "k_inv s'"
    "look s' 5 0x800000 = Some (page2pa (PGNUM 0x7007) OR dup_perm 0x7007 OR PTE_P)"
    "0x7007 AND PTE_SHARE = 0 \<longrightarrow> (\<exists>v. look s' 4 0x800000 = Some v \<and> PGNUM v = PGNUM 0x7007 \<and> v AND PTE_W = 0)"
    using duppage_cow [OF fork_k_user [OF w(1,3)] fork_k_free _ fork_k_child _ _ _ _ fork_k_uvpt [OF w(1,2)] w(1,2), of 5] va by auto
  moreover have "dup_perm 0x7007 = 0x805" "(0x7007 :: 32 word) AND PTE_SHARE = 0" by (simp_all add: dup_perm_def jos_consts)
  ultimately show ?thesis using w(3) by (simp add: page2pa_def jos_consts)
qed

theorem pgfault_copies_witness:
  "\<exists>p s'. pgfault 0x800123 2 (fork_k 0x7805) = Inr ((), s') \<and> k_inv s' \<and> p \<noteq> 7 \<and>
    look s' 4 0x800123 = Some (page2pa p OR 7) \<and> byte_at s' p 52 = 8"
proof -
  let ?fl = "[15, 14, 13, 12, 11, 10, 9, 8 :: nat]"
  have w: "bit (0x7805 :: 32 word) 0" "bit (0x7805 :: 32 word) 2" "PGNUM 0x7805 = 7" by (simp_all add: bit_numeral_rec PGNUM_div)
  have n: "PGNUM 0x800123 = 0x800" by (simp add: PGNUM_div)
  have uv: "uvpt (PGNUM 0x800123) (fork_k 0x7805) = Inr (0x7805, fork_k 0x7805)" unfolding n by (rule fork_k_uvpt [OF w(1,2)])
  have none: "look (fork_k 0x7805) 4 PFTEMP = None" using fork_k_pg [OF w(1), of 4 1 1023] by (simp add: look_def PDX_div PTX_mod jos_consts)
  have ok: "3 \<le> length ?fl" "(2 :: 32 word) AND FEC_WR \<noteq> 0" "(0x800123 :: 32 word) < UTOP" "(0x7805 :: 32 word) AND PTE_COW \<noteq> 0"
    "PGNUM 0x800123 \<noteq> PGNUM PFTEMP" by (simp_all add: n PFTEMP_facts(3)) (simp_all add: jos_consts)
  obtain p s' where s': "pgfault 0x800123 2 (fork_k 0x7805) = Inr ((), s')" "k_inv s'" "p \<in> set ?fl"
    and lo: "\<forall>pd'\<in>pgdirs (fork_k 0x7805). \<forall>x<UTOP. look s' pd' x = (if pd' = 4 \<and> PGNUM x = PGNUM 0x800123
       then Some (page2pa p OR (PTE_P OR PTE_U OR PTE_W) OR PTE_P) else look (fork_k 0x7805) pd' x)"
    and bytes: "\<forall>off<4096. byte_at s' p off = byte_at (fork_k 0x7805) (PGNUM 0x7805) off"
    using pgfault_copies [OF fork_k_user [OF w(1,3)] fork_k_free ok(1,2,3) uv w(1) ok(4,5) none] by blast
  have look: "look s' 4 0x800123 = Some (page2pa p OR (PTE_P OR PTE_U OR PTE_W) OR PTE_P)"
    using lo ok(3) by (simp add: fork_k_pgdirs)
  have "byte_at s' p 52 = byte_at (fork_k 0x7805) 7 52" using bytes [rule_format, of 52] w(3) by simp
  moreover have "byte_at (fork_k 0x7805) 7 52 = 8" by (simp add: byte_at_def fork_k_def map_k_def get_byte_def)
  moreover have "page2pa p OR (PTE_P OR PTE_U OR PTE_W) OR PTE_P = page2pa p OR 7" by (simp add: or.assoc) (simp add: jos_consts)
  moreover have "p \<noteq> 7" using s'(3) by auto
  ultimately show ?thesis using s' look by (intro exI [of _ p] exI [of _ s']) simp
qed

end
