(* ===== verification/Spinlock.thy ===== *)
theory Spinlock
  imports EnvProps
begin

text \<open>
  \<open>kern/spinlock.c\<close>: the lock word and its owner, with every access to shared memory a step of its
  own, so that the steps of the processors interleave freely. The call chain that the lock records
  for debugging is left out.
\<close>

record spinlock =
  locked :: "32 word"
  lk_cpu :: "nat option"

definition spin_initlock :: "spinlock \<Rightarrow> spinlock" where
  "spin_initlock lk = lk\<lparr>locked := 0, lk_cpu := None\<rparr>"

text \<open>
  The next access of a processor. \<open>holding\<close> is two reads, of \<open>locked\<close> and of \<open>cpu\<close>; the loop of
  \<open>spin_lock\<close> is an atomic exchange; then the owner is recorded. \<open>spin_unlock\<close> tests \<open>holding\<close>,
  clears the owner and exchanges the lock word.
\<close>

datatype pc = Outside | Lock_locked | Lock_cpu | Lock_xchg | Lock_record | Inside
  | Unlock_locked | Unlock_cpu | Unlock_clear | Unlock_xchg | Panicked

fun spin_step :: "nat \<Rightarrow> pc \<times> spinlock \<Rightarrow> pc \<times> spinlock" where
  "spin_step me (Outside, lk) = (Lock_locked, lk)"
| "spin_step me (Lock_locked, lk) = (if locked lk \<noteq> 0 then Lock_cpu else Lock_xchg, lk)"
| "spin_step me (Lock_cpu, lk) = (if lk_cpu lk = Some me then Panicked else Lock_xchg, lk)"
| "spin_step me (Lock_xchg, lk) = (if locked lk \<noteq> 0 then Lock_xchg else Lock_record, lk\<lparr>locked := 1\<rparr>)"
| "spin_step me (Lock_record, lk) = (Inside, lk\<lparr>lk_cpu := Some me\<rparr>)"
| "spin_step me (Inside, lk) = (Unlock_locked, lk)"
| "spin_step me (Unlock_locked, lk) = (if locked lk \<noteq> 0 then Unlock_cpu else Panicked, lk)"
| "spin_step me (Unlock_cpu, lk) = (if lk_cpu lk = Some me then Unlock_clear else Panicked, lk)"
| "spin_step me (Unlock_clear, lk) = (Unlock_xchg, lk\<lparr>lk_cpu := None\<rparr>)"
| "spin_step me (Unlock_xchg, lk) = (Outside, lk\<lparr>locked := 0\<rparr>)"
| "spin_step me (Panicked, lk) = (Panicked, lk)"

type_synonym spin_state = "spinlock \<times> (nat \<Rightarrow> pc)"

inductive spin_any :: "spin_state \<Rightarrow> spin_state \<Rightarrow> bool" where
  access: "spin_step i (ps i, lk) = (p', lk') \<Longrightarrow> spin_any (lk, ps) (lk', ps(i := p'))"

inductive_cases spin_anyE: "spin_any (lk, ps) t"

definition spin_start :: "spin_state \<Rightarrow> bool" where
  "spin_start st \<longleftrightarrow> (\<exists>lk. fst st = spin_initlock lk) \<and> (\<forall>i. snd st i = Outside)"

section \<open>Mutual exclusion\<close>

text \<open>Between the successful exchange and the releasing one; the part of it with the owner recorded.\<close>

definition owning :: "pc \<Rightarrow> bool" where
  "owning p \<longleftrightarrow> p \<in> {Lock_record, Inside, Unlock_locked, Unlock_cpu, Unlock_clear, Unlock_xchg}"

definition recorded :: "pc \<Rightarrow> bool" where
  "recorded p \<longleftrightarrow> p \<in> {Inside, Unlock_locked, Unlock_cpu, Unlock_clear}"

definition spin_inv :: "spin_state \<Rightarrow> bool" where
  "spin_inv st \<longleftrightarrow> (case st of (lk, ps) \<Rightarrow>
     (locked lk = 0 \<longleftrightarrow> (\<forall>i. \<not> owning (ps i))) \<and>
     (\<forall>i j. owning (ps i) \<longrightarrow> owning (ps j) \<longrightarrow> i = j) \<and>
     (\<forall>i. lk_cpu lk = Some i \<longleftrightarrow> recorded (ps i)) \<and>
     (\<forall>i. ps i \<noteq> Panicked))"

lemma owning_simps [simp]:
  "owning Lock_record" "owning Inside" "owning Unlock_locked" "owning Unlock_cpu" "owning Unlock_clear"
  "owning Unlock_xchg" "\<not> owning Outside" "\<not> owning Lock_locked" "\<not> owning Lock_cpu" "\<not> owning Lock_xchg"
  "\<not> owning Panicked"
  by (simp_all add: owning_def)

lemma recorded_simps [simp]:
  "recorded Inside" "recorded Unlock_locked" "recorded Unlock_cpu" "recorded Unlock_clear"
  "\<not> recorded Unlock_xchg" "\<not> recorded Outside" "\<not> recorded Lock_locked" "\<not> recorded Lock_cpu" "\<not> recorded Lock_xchg"
  "\<not> recorded Lock_record" "\<not> recorded Panicked"
  by (simp_all add: recorded_def)

lemma spin_inv_step:
  assumes "spin_inv (lk, ps)" and "spin_step i (ps i, lk) = (p', lk')"
  shows "spin_inv (lk', ps(i := p'))"
proof -
  have free: "locked lk = 0 \<longleftrightarrow> (\<forall>j. \<not> owning (ps j))" and
    one: "\<And>j k. owning (ps j) \<Longrightarrow> owning (ps k) \<Longrightarrow> j = k" and
    cpu: "\<And>j. lk_cpu lk = Some j \<longleftrightarrow> recorded (ps j)" and ok: "\<And>j. ps j \<noteq> Panicked"
    using assms(1) by (auto simp: spin_inv_def)
  have rec: "recorded (ps j) \<Longrightarrow> owning (ps j)" for j by (auto simp: owning_def recorded_def)
  show ?thesis
    using assms(2) free one cpu ok rec
    by (cases "ps i"; clarsimp simp: spin_inv_def split: if_splits) (metis option.sel owning_simps recorded_simps)+
qed

interpretation spin: trans_sys spin_start spin_any spin_inv
proof unfold_locales
  show "spin_inv s" if "spin_start s" for s
    using that by (cases s) (auto simp: spin_start_def spin_inv_def spin_initlock_def)
  show "spin_inv t" if "spin_inv s" "spin_any s t" for s t
    using that by (cases s) (auto elim!: spin_anyE intro: spin_inv_step)
qed

text \<open>A schedule names the processor that makes each access.\<close>

definition spin_sched :: "nat list \<Rightarrow> spin_state \<Rightarrow> spin_state" where
  "spin_sched is st = foldl (\<lambda>(lk, ps) i. case spin_step i (ps i, lk) of (p, lk') \<Rightarrow> (lk', ps(i := p))) st is"

lemma spin_sched_any: "spin_any\<^sup>*\<^sup>* st (spin_sched is st)"
proof (induction "is" arbitrary: st)
  case (Cons i "is")
  obtain lk ps where st: "st = (lk, ps)" by fastforce
  obtain p lk' where p: "spin_step i (ps i, lk) = (p, lk')" by fastforce
  from access [of i ps lk, OF p] Cons.IH [of "(lk', ps(i := p))"] show ?case
    by (simp add: st p spin_sched_def)
qed (simp add: spin_sched_def)

text \<open>
  C22. However the accesses of the processors interleave, starting from an initialised lock with every
  processor outside: two processors are never inside the critical section at once, no test of
  \<open>holding\<close> fails, the owner is recorded as long as a processor is inside, and as soon as no
  processor owns the lock the next exchange of any waiting processor acquires it.
\<close>

theorem spin_mutual_exclusion:
  assumes "spin_start st" and "spin_any\<^sup>*\<^sup>* st (lk, ps)"
  shows "(ps i = Inside \<and> ps j = Inside \<longrightarrow> i = j) \<and> ps i \<noteq> Panicked \<and>
    (ps i = Inside \<longrightarrow> locked lk \<noteq> 0 \<and> lk_cpu lk = Some i) \<and>
    ((\<forall>j. \<not> owning (ps j)) \<and> ps i = Lock_xchg \<longrightarrow> fst (spin_step i (ps i, lk)) = Lock_record)"
proof -
  have inv: "spin_inv (lk, ps)" by (rule spin.inv_reachable [OF assms(2,1)])
  then have "ps i = Inside \<Longrightarrow> lk_cpu lk = Some i" "ps i = Inside \<Longrightarrow> locked lk \<noteq> 0"
    unfolding spin_inv_def by (metis (mono_tags, lifting) case_prod_conv owning_simps(2) recorded_simps(1))+
  then show ?thesis using inv by (auto simp: spin_inv_def)
qed

theorem spin_mutual_exclusion_witness:
  "let (lk, ps) = spin_sched [0, 0, 1, 1, 0, 0] (\<lparr>locked = 0, lk_cpu = None\<rparr>, \<lambda>_. Outside)
   in ps 0 = Inside \<and> ps 1 = Lock_xchg \<and> lk_cpu lk = Some 0 \<and> locked lk \<noteq> 0"
proof -
  let ?st = "(\<lparr>locked = 0, lk_cpu = None\<rparr>, \<lambda>_. Outside) :: spin_state"
  have st: "spin_start ?st" by (auto simp: spin_start_def spin_initlock_def)
  obtain lk ps where r: "spin_sched [0, 0, 1, 1, 0, 0] ?st = (lk, ps)" by fastforce
  then have "ps 0 = Inside" "ps 1 = Lock_xchg" by (auto simp: spin_sched_def)
  with spin_mutual_exclusion [OF st, of lk ps 0] spin_sched_any [of ?st "[0, 0, 1, 1, 0, 0]"] r
  show ?thesis by auto
qed

section \<open>The lock of the kernel model\<close>

text \<open>
  The model of the kernel takes and releases the lock in one step. \<open>lock_rel\<close> relates the lock word
  and the recorded owner to the holder in that model.
\<close>

definition lock_rel :: "spinlock \<Rightarrow> nat option \<Rightarrow> bool" where
  "lock_rel lk h \<longleftrightarrow> (locked lk \<noteq> 0 \<longleftrightarrow> h \<noteq> None) \<and> lk_cpu lk = h"

lemma spin_forever:
  assumes "locked lk \<noteq> 0" and "lk_cpu lk \<noteq> Some me"
  shows "fst ((spin_step me ^^ n) (Lock_locked, lk)) \<in> {Lock_locked, Lock_cpu, Lock_xchg}"
proof -
  have "fst ((spin_step me ^^ n) (Lock_locked, lk)) \<in> {Lock_locked, Lock_cpu, Lock_xchg} \<and>
      locked (snd ((spin_step me ^^ n) (Lock_locked, lk))) \<noteq> 0 \<and> lk_cpu (snd ((spin_step me ^^ n) (Lock_locked, lk))) = lk_cpu lk"
  proof (induction n)
    case (Suc n)
    then show ?case by (cases "(spin_step me ^^ n) (Lock_locked, lk)") (use assms in auto)
  qed (use assms in simp)
  then show ?thesis by blast
qed

text \<open>
  C25. The one-step lock of the kernel model is refined by the accesses of \<open>spin_lock\<close> and
  \<open>spin_unlock\<close>: where the model takes the lock, the code gets inside after finitely many of its own
  accesses and leaves a related lock; where the model panics the code panics; where the model waits
  the code spins for ever as long as no other processor moves; and likewise for the release.
\<close>

theorem lock_kernel_refined:
  assumes rel: "lock_rel lk (kernel_lock s)"
  shows "(\<forall>s'. lock_kernel s = Inr ((), s') \<longrightarrow>
      (\<exists>n lk'. (spin_step (cpunum s) ^^ n) (Lock_locked, lk) = (Inside, lk') \<and> lock_rel lk' (kernel_lock s'))) \<and>
    (\<forall>s'. lock_kernel s = Inl (Panic, s') \<longrightarrow> (\<exists>n. (spin_step (cpunum s) ^^ n) (Lock_locked, lk) = (Panicked, lk))) \<and>
    (\<forall>s'. lock_kernel s = Inl (Spinning, s') \<longrightarrow>
      (\<forall>n. fst ((spin_step (cpunum s) ^^ n) (Lock_locked, lk)) \<in> {Lock_locked, Lock_cpu, Lock_xchg})) \<and>
    (\<forall>s'. unlock_kernel s = Inr ((), s') \<longrightarrow>
      (\<exists>n lk'. (spin_step (cpunum s) ^^ n) (Unlock_locked, lk) = (Outside, lk') \<and> lock_rel lk' (kernel_lock s'))) \<and>
    (\<forall>s'. unlock_kernel s = Inl (Panic, s') \<longrightarrow> (\<exists>n. (spin_step (cpunum s) ^^ n) (Unlock_locked, lk) = (Panicked, lk)))"
proof (intro conjI allI impI)
  fix s'
  let ?f = "spin_step (cpunum s)"
  show "\<exists>n lk'. (?f ^^ n) (Lock_locked, lk) = (Inside, lk') \<and> lock_rel lk' (kernel_lock s')" if "lock_kernel s = Inr ((), s')"
    using that rel by (intro exI [of _ 3]) (auto simp: lock_kernel_def lock_rel_def eval_nat_numeral split: if_splits)
  show "\<exists>n. (?f ^^ n) (Lock_locked, lk) = (Panicked, lk)" if "lock_kernel s = Inl (Panic, s')"
    using that rel by (intro exI [of _ 2]) (auto simp: lock_kernel_def lock_rel_def eval_nat_numeral split: if_splits)
  show "fst ((?f ^^ n) (Lock_locked, lk)) \<in> {Lock_locked, Lock_cpu, Lock_xchg}" if "lock_kernel s = Inl (Spinning, s')" for n
    using that rel by (intro spin_forever) (auto simp: lock_kernel_def lock_rel_def split: if_splits)
  show "\<exists>n lk'. (?f ^^ n) (Unlock_locked, lk) = (Outside, lk') \<and> lock_rel lk' (kernel_lock s')" if "unlock_kernel s = Inr ((), s')"
    using that rel by (intro exI [of _ 4]) (auto simp: unlock_kernel_def lock_rel_def eval_nat_numeral split: if_splits)
  show "\<exists>n. (?f ^^ n) (Unlock_locked, lk) = (Panicked, lk)" if "unlock_kernel s = Inl (Panic, s')"
  proof (cases "kernel_lock s")
    case None
    then show ?thesis using rel by (intro exI [of _ 1]) (auto simp: lock_rel_def)
  next
    case (Some i)
    then show ?thesis using that rel
      by (intro exI [of _ 2]) (auto simp: unlock_kernel_def lock_rel_def eval_nat_numeral split: if_splits)
  qed
qed

theorem lock_kernel_refined_witness:
  "\<exists>n lk'. (spin_step 2 ^^ n) (Lock_locked, \<lparr>locked = 0, lk_cpu = None\<rparr>) = (Inside, lk') \<and> lock_rel lk' (Some 2)"
proof -
  let ?s = "boot_k\<lparr>kernel_lock := None, cpunum := 2\<rparr> :: kstate"
  have "lock_rel \<lparr>locked = 0, lk_cpu = None\<rparr> (kernel_lock ?s)" by (simp add: lock_rel_def)
  from lock_kernel_refined [OF this] show ?thesis by (simp add: lock_kernel_def)
qed

end
