(* ===== verification/Ring.thy ===== *)
theory Ring
  imports Prelude
begin

text \<open>
  Circular buffers. The input buffer of the console and the buffer of a pipe keep a window of a
  circular array; the locale states what their clients may rely on, a bounded queue.
\<close>

section \<open>Windows of a circular array\<close>

definition window :: "(nat \<Rightarrow> 'a) \<Rightarrow> nat \<Rightarrow> nat \<Rightarrow> nat \<Rightarrow> 'a list" where
  "window buf N r n = map (\<lambda>k. buf ((r + k) mod N)) [0..<n]"

lemma length_window [simp]: "length (window buf N r n) = n"
  by (simp add: window_def)

lemma window_0 [simp]: "window buf N r 0 = []"
  by (simp add: window_def)

lemma window_nth [simp]: "k < n \<Longrightarrow> window buf N r n ! k = buf ((r + k) mod N)"
  by (simp add: window_def)

lemma window_mod: "window buf N (r mod N) n = window buf N r n"
  by (simp add: window_def mod_add_left_eq)

lemma window_get: "window buf N r (Suc n) = buf (r mod N) # window buf N (Suc r) n"
  by (simp add: window_def upt_conv_Cons map_Suc_upt [symmetric] del: upt_Suc)

lemma window_other:
  fixes r k n N :: nat
  assumes "k < n" "n < N"
  shows "(r + k) mod N \<noteq> (r + n) mod N"
proof
  assume "(r + k) mod N = (r + n) mod N"
  then have "N dvd (r + n) - (r + k)" using assms(1) mod_eq_dvd_iff_nat [of "r + k" "r + n" N] by simp
  then show False using assms by (auto dest: dvd_imp_le)
qed

lemma window_put:
  assumes "n < N"
  shows "window (buf((r + n) mod N := c)) N r (Suc n) = window buf N r n @ [c]"
  using window_other [OF _ assms] by (auto simp: window_def)

lemma window_keep:
  assumes "n < N"
  shows "window (buf((r + n) mod N := c)) N r n = window buf N r n"
  using window_other [OF _ assms] by (auto simp: window_def)

text \<open>The number of elements between two positions.\<close>

lemma ring_count:
  fixes r w N :: nat
  assumes "r < N" "w < N"
  shows "(w + N - r) mod N = (if r \<le> w then w - r else w + N - r)"
proof (cases "r \<le> w")
  case True
  then have "w + N - r = (w - r) + N" by simp
  then have "(w + N - r) mod N = (w - r) mod N" by (metis mod_add_self2)
  then show ?thesis using True assms by simp
qed (use assms in simp)

lemma Suc_mod_less: "n < N \<Longrightarrow> Suc n mod N = (if Suc n = N then 0 else Suc n)"
  by simp

section \<open>Bounded queues\<close>

fun take_out :: "('s \<Rightarrow> 'a \<times> 's) \<Rightarrow> nat \<Rightarrow> 's \<Rightarrow> 'a list \<times> 's" where
  "take_out get 0 s = ([], s)"
| "take_out get (Suc n) s = (let (c, s1) = get s; (cs, s2) = take_out get n s1 in (c # cs, s2))"

locale fifo =
  fixes queue :: "'s \<Rightarrow> 'a list" and put :: "'a \<Rightarrow> 's \<Rightarrow> 's" and get :: "'s \<Rightarrow> 'a \<times> 's"
    and cap :: nat and ok :: "'s \<Rightarrow> bool" and item :: "'a \<Rightarrow> bool"
  assumes put: "ok s \<Longrightarrow> item c \<Longrightarrow> length (queue s) < cap \<Longrightarrow> ok (put c s) \<and> queue (put c s) = queue s @ [c]"
    and get: "ok s \<Longrightarrow> queue s = c # q \<Longrightarrow> fst (get s) = c \<and> ok (snd (get s)) \<and> queue (snd (get s)) = q"
begin

lemma puts:
  assumes "ok s" and "\<forall>c\<in>set cs. item c" and "length (queue s) + length cs \<le> cap"
  shows "ok (fold put cs s) \<and> queue (fold put cs s) = queue s @ cs"
  using assms
proof (induction cs arbitrary: s)
  case (Cons c cs)
  from Cons.prems put [of s c] have "ok (put c s)" "queue (put c s) = queue s @ [c]" by auto
  with Cons.IH [of "put c s"] Cons.prems show ?case by simp
qed simp

lemma gets:
  assumes "ok s" and "queue s = cs @ q"
  shows "fst (take_out get (length cs) s) = cs \<and> queue (snd (take_out get (length cs) s)) = q"
  using assms
proof (induction cs arbitrary: s)
  case (Cons c cs)
  from Cons.prems get [of s c "cs @ q"] obtain s1 where s1: "get s = (c, s1)" "ok s1" "queue s1 = cs @ q"
    by (cases "get s") auto
  from Cons.IH [OF s1(2,3)] s1(1) show ?case by (auto simp: Let_def split: prod.splits)
qed simp

lemma round_trip:
  assumes "ok s" and "queue s = []" and "\<forall>c\<in>set cs. item c" and "length cs \<le> cap"
  shows "fst (take_out get (length cs) (fold put cs s)) = cs"
  using puts [OF assms(1,3)] gets [of "fold put cs s" cs "[]"] assms(2,4) by simp

end

end
