(* ===== verification/ConsProps.thy ===== *)
theory ConsProps
  imports Drivers Ring
begin

text \<open>
  The console: its input buffer is a bounded queue of the characters that the devices deliver, and
  the display never leaves its memory.
\<close>

section \<open>Input\<close>

definition cons_count :: "kstate \<Rightarrow> nat" where
  "cons_count s = (unat (cons_wpos s) + 512 - unat (cons_rpos s)) mod 512"

definition cons_queue :: "kstate \<Rightarrow> 8 word list" where
  "cons_queue s = window (cons_buf s) 512 (unat (cons_rpos s)) (cons_count s)"

definition cons_ok :: "kstate \<Rightarrow> bool" where
  "cons_ok s \<longleftrightarrow> unat (cons_rpos s) < 512 \<and> unat (cons_wpos s) < 512"

lemma wrap_512:
  assumes "unat (p :: 32 word) < 512"
  shows "unat (if p + 1 = CONSBUFSIZE then 0 else p + 1) = Suc (unat p) mod 512"
proof -
  have u: "unat (p + 1) = Suc (unat p)" using assms by (simp add: unat_word_ariths)
  have "p + 1 = CONSBUFSIZE \<longleftrightarrow> unat (p + 1) = 512" by (simp add: word_unat_eq_iff CONSBUFSIZE_def)
  then show ?thesis using u assms by auto
qed

lemma cons_count_eq:
  "cons_ok s \<Longrightarrow> cons_count s = (if unat (cons_rpos s) \<le> unat (cons_wpos s) then unat (cons_wpos s) - unat (cons_rpos s)
     else unat (cons_wpos s) + 512 - unat (cons_rpos s))"
  by (simp add: cons_ok_def cons_count_def ring_count)

lemma cons_count_pos: "cons_ok s \<Longrightarrow> (unat (cons_rpos s) + cons_count s) mod 512 = unat (cons_wpos s)"
  by (auto simp: cons_count_eq cons_ok_def)

lemma cons_count_0: "cons_ok s \<Longrightarrow> cons_count s = 0 \<longleftrightarrow> cons_rpos s = cons_wpos s"
  by (auto simp: cons_count_eq cons_ok_def word_unat_eq_iff split: if_splits)

text \<open>The part of \<open>cons_getc\<close> after the devices were polled.\<close>

definition cons_take :: "kstate \<Rightarrow> 8 word \<times> kstate" where
  "cons_take s =
     (if cons_rpos s \<noteq> cons_wpos s then
        (cons_buf s (unat (cons_rpos s)), s\<lparr>cons_rpos := if cons_rpos s + 1 = CONSBUFSIZE then 0 else cons_rpos s + 1\<rparr>)
      else (0, s))"

lemma cons_getc_take: "cons_getc s = cons_take (kbd_intr (serial_intr s))"
  by (simp add: cons_getc_def cons_take_def Let_def)

lemma cons_put1_ring:
  assumes "cons_ok s" "c \<noteq> 0" "length (cons_queue s) < 511"
  shows "cons_ok (cons_put1 c s) \<and> cons_queue (cons_put1 c s) = cons_queue s @ [c]"
proof -
  let ?r = "unat (cons_rpos s)" and ?w = "unat (cons_wpos s)" and ?n = "cons_count s"
  have n: "?n < 511" using assms(3) by (simp add: cons_queue_def)
  have w: "(?r + ?n) mod 512 = ?w" by (rule cons_count_pos [OF assms(1)])
  have put: "cons_put1 c s = s\<lparr>cons_buf := (cons_buf s)(?w := c),
      cons_wpos := if cons_wpos s + 1 = CONSBUFSIZE then 0 else cons_wpos s + 1\<rparr>"
    using assms(2) by (simp add: cons_put1_def Let_def)
  have w': "unat (cons_wpos (cons_put1 c s)) = Suc ?w mod 512"
    using wrap_512 [of "cons_wpos s"] assms(1) by (simp add: put cons_ok_def)
  have r': "cons_rpos (cons_put1 c s) = cons_rpos s" "cons_buf (cons_put1 c s) = (cons_buf s)(?w := c)"
    by (simp_all add: put)
  have ok: "cons_ok (cons_put1 c s)" using assms(1) by (simp add: cons_ok_def w' r')
  have "cons_count (cons_put1 c s) = Suc ?n"
    using n assms(1) unfolding cons_count_eq [OF ok] cons_count_eq [OF assms(1)] w' r'
    by (auto simp: cons_ok_def Suc_mod_less split: if_splits)
  then have "cons_queue (cons_put1 c s) = cons_queue s @ [c]"
    using window_put [of ?n 512 "cons_buf s" ?r c] n by (simp add: cons_queue_def r' w)
  then show ?thesis using ok by simp
qed

lemma cons_take_ring:
  assumes "cons_ok s" "cons_queue s = c # q"
  shows "fst (cons_take s) = c \<and> cons_ok (snd (cons_take s)) \<and> cons_queue (snd (cons_take s)) = q"
proof -
  let ?r = "unat (cons_rpos s)"
  obtain n where n: "cons_count s = Suc n" using assms(2) by (cases "cons_count s") (auto simp: cons_queue_def)
  then have "cons_rpos s \<noteq> cons_wpos s" using cons_count_0 [OF assms(1)] by simp
  then have take: "cons_take s = (cons_buf s ?r,
      s\<lparr>cons_rpos := if cons_rpos s + 1 = CONSBUFSIZE then 0 else cons_rpos s + 1\<rparr>)"
    by (simp add: cons_take_def)
  let ?s = "snd (cons_take s)"
  have r': "unat (cons_rpos ?s) = Suc ?r mod 512" "cons_wpos ?s = cons_wpos s" "cons_buf ?s = cons_buf s"
    using wrap_512 [of "cons_rpos s"] assms(1) by (simp_all add: take cons_ok_def)
  have ok: "cons_ok ?s" using assms(1) by (simp add: cons_ok_def r')
  have "cons_count ?s = n"
    using n assms(1) unfolding cons_count_eq [OF ok] cons_count_eq [OF assms(1)] r'
    by (auto simp: cons_ok_def Suc_mod_less split: if_splits)
  then have "cons_queue s = cons_buf s ?r # cons_queue ?s"
    using assms(1) by (simp add: cons_queue_def n window_get r' window_mod cons_ok_def)
  with assms(2) ok show ?thesis by (simp add: take)
qed

interpretation cons: fifo cons_queue cons_put1 cons_take 511 cons_ok "\<lambda>c. c \<noteq> 0"
  using cons_put1_ring cons_take_ring by unfold_locales

lemma cons_intr_fold: "cons_intr cs s = fold cons_put1 (filter (\<lambda>c. c \<noteq> 0) cs) s"
  unfolding cons_intr_def by (induction cs arbitrary: s) (auto simp: cons_put1_def)

lemma cons_intr_other:
  "serial_in (cons_intr cs s) = serial_in s" "kbd_in (cons_intr cs s) = kbd_in s" "kbd_shift (cons_intr cs s) = kbd_shift s"
proof -
  have "serial_in (cons_intr cs s) = serial_in s \<and> kbd_in (cons_intr cs s) = kbd_in s \<and> kbd_shift (cons_intr cs s) = kbd_shift s"
    unfolding cons_intr_def by (induction cs arbitrary: s) (auto simp: cons_put1_def Let_def)
  then show "serial_in (cons_intr cs s) = serial_in s" "kbd_in (cons_intr cs s) = kbd_in s" "kbd_shift (cons_intr cs s) = kbd_shift s"
    by simp_all
qed

lemma cons_queue_other [simp]:
  "cons_queue (s\<lparr>serial_in := v\<rparr>) = cons_queue s" "cons_queue (s\<lparr>kbd_in := v\<rparr>) = cons_queue s"
  "cons_queue (s\<lparr>kbd_shift := w\<rparr>) = cons_queue s"
  "cons_ok (s\<lparr>serial_in := v\<rparr>) = cons_ok s" "cons_ok (s\<lparr>kbd_in := v\<rparr>) = cons_ok s" "cons_ok (s\<lparr>kbd_shift := w\<rparr>) = cons_ok s"
  by (simp_all add: cons_queue_def cons_ok_def cons_count_def)

text \<open>The characters that wait at the devices, in the order in which they are polled.\<close>

definition cons_pending :: "kstate \<Rightarrow> 8 word list" where
  "cons_pending s = filter (\<lambda>c. c \<noteq> 0) (serial_in s) @ filter (\<lambda>c. c \<noteq> 0) (fst (kbd_decode (kbd_shift s) (kbd_in s)))"

lemma cons_poll:
  assumes "cons_ok s" "length (cons_queue s) + length (cons_pending s) \<le> 511"
  shows "cons_ok (kbd_intr (serial_intr s)) \<and> cons_queue (kbd_intr (serial_intr s)) = cons_queue s @ cons_pending s"
proof -
  let ?a = "filter (\<lambda>c. c \<noteq> 0) (serial_in s)" and ?d = "kbd_decode (kbd_shift s) (kbd_in s)"
  let ?b = "filter (\<lambda>c. c \<noteq> 0) (fst ?d)"
  have len: "length (cons_queue s) + length ?a \<le> 511" "length (cons_queue s @ ?a) + length ?b \<le> 511"
    using assms(2) by (simp_all add: cons_pending_def)
  have 1: "cons_ok (serial_intr s)" "cons_queue (serial_intr s) = cons_queue s @ ?a"
    using cons.puts [OF assms(1) _ len(1)] by (simp_all add: serial_intr_def cons_intr_fold)
  have k: "kbd_decode (kbd_shift (serial_intr s)) (kbd_in (serial_intr s)) = ?d"
    by (simp add: serial_intr_def cons_intr_other)
  have 2: "cons_ok (fold cons_put1 ?b (serial_intr s)) \<and>
      cons_queue (fold cons_put1 ?b (serial_intr s)) = cons_queue (serial_intr s) @ ?b"
    using cons.puts [OF 1(1), of ?b] len(2) 1(2) by simp
  obtain cs sh where d: "?d = (cs, sh)" by fastforce
  then show ?thesis using 1 2
    unfolding kbd_intr_def k by (simp add: cons_intr_fold cons_pending_def)
qed

text \<open>
  C27. The console implements a queue: \<open>cons_getc\<close> appends the characters that wait at the devices,
  serial line first, to those in the buffer, and returns and removes the oldest one, or returns 0 if
  there is none. This holds as long as at most 511 characters are waiting altogether.
\<close>

theorem cons_getc_refines:
  assumes "cons_ok s" and "length (cons_queue s) + length (cons_pending s) \<le> 511"
  shows "cons_ok (snd (cons_getc s)) \<and>
    (case cons_queue s @ cons_pending s of
      [] \<Rightarrow> fst (cons_getc s) = 0 \<and> cons_queue (snd (cons_getc s)) = []
    | c # q \<Rightarrow> fst (cons_getc s) = c \<and> cons_queue (snd (cons_getc s)) = q)"
proof -
  let ?s = "kbd_intr (serial_intr s)"
  have poll: "cons_ok ?s" "cons_queue ?s = cons_queue s @ cons_pending s" using cons_poll [OF assms] by simp_all
  show ?thesis
  proof (cases "cons_queue ?s")
    case Nil
    then have "cons_count ?s = 0" by (simp add: cons_queue_def flip: length_0_conv)
    then have "cons_take ?s = (0, ?s)" using cons_count_0 [OF poll(1)] by (simp add: cons_take_def)
    then show ?thesis using Nil poll by (simp add: cons_getc_take)
  next
    case (Cons c q)
    then show ?thesis using cons.get [OF poll(1) Cons] poll(2) by (simp add: cons_getc_take)
  qed
qed

theorem cons_getc_refines_witness:
  "let s = boot_k\<lparr>cons_rpos := 511, cons_wpos := 511, serial_in := [0x61, 0x62], kbd_in := [0x23], kbd_shift := 0\<rparr>
   in fst (cons_getc s) = 0x61 \<and> cons_queue (snd (cons_getc s)) = [0x62, 0x68]"
proof -
  let ?s = "boot_k\<lparr>cons_rpos := 511, cons_wpos := 511, serial_in := [0x61, 0x62], kbd_in := [0x23], kbd_shift := 0\<rparr> :: kstate"
  have ok: "cons_ok ?s" and q: "cons_queue ?s = []" by (simp_all add: cons_ok_def cons_queue_def cons_count_def)
  have p: "cons_pending ?s = [0x61, 0x62, 0x68]"
    by (simp add: cons_pending_def kbd_proc_data_def jos_consts shiftcode_def togglecode_def charcode_def normalmap_def
        table_def keypad_def chars_of_def extended_def Let_def of_char_def)
  show ?thesis using cons_getc_refines [OF ok] by (simp add: q p del: cons_queue_other)
qed

section \<open>Display\<close>

definition crt_ok :: "crt \<Rightarrow> crt \<Rightarrow> bool" where
  "crt_ok d d' \<longleftrightarrow> unat (crt_pos d') < CRT_SIZE \<and> (\<forall>i\<ge>CRT_SIZE. crt_buf d' i = crt_buf d i)"

lemma cga_char_pos:
  assumes "unat (crt_pos d) < CRT_SIZE"
  shows "unat (crt_pos (cga_char c d)) < CRT_SIZE + CRT_COLS" "\<forall>i\<ge>CRT_SIZE. crt_buf (cga_char c d) i = crt_buf d i"
proof -
  let ?p = "crt_pos d"
  have p: "unat ?p < 2000" using assms by (simp add: jos_consts)
  have bs: "unat (?p - 1) < 2000" if "?p > 0" using that p by (simp add: unat_minus_one word_less_nat_alt unat_gt_0)
  have next_line: "unat (?p + 80) = unat ?p + 80" using p by (simp add: unat_word_ariths)
  have sub: "unat (q - q mod 80) \<le> unat q" for q :: "16 word"
    using unat_sub [of "q mod 80" q] by (simp add: word_le_nat_alt unat_mod_distrib)
  have "unat (?p + 1) = unat ?p + 1" using p by (simp add: unat_word_ariths)
  then show "unat (crt_pos (cga_char c d)) < CRT_SIZE + CRT_COLS"
    using p bs next_line sub [of "?p + 80"] sub [of ?p]
    by (auto simp: cga_char_def Let_def jos_consts)
  show "\<forall>i\<ge>CRT_SIZE. crt_buf (cga_char c d) i = crt_buf d i"
    using p bs by (auto simp: cga_char_def Let_def jos_consts)
qed

lemma cga_scroll_ok:
  assumes "unat (crt_pos d) < CRT_SIZE + CRT_COLS"
  shows "crt_ok d (cga_scroll d)"
proof (cases "CRT_SIZE \<le> unat (crt_pos d)")
  case True
  then have "unat (crt_pos d - 80) = unat (crt_pos d) - 80"
    using unat_sub [of 80 "crt_pos d"] by (simp add: word_le_nat_alt jos_consts)
  then show ?thesis using assms True by (simp add: cga_scroll_def crt_ok_def CRT_COLS_def) (simp add: CRT_SIZE_def CRT_COLS_def)
next
  case False
  then show ?thesis by (simp add: cga_scroll_def crt_ok_def)
qed

lemma cga_char_scroll: "unat (crt_pos d) < CRT_SIZE \<Longrightarrow> crt_ok d (cga_scroll (cga_char c d))"
  using cga_scroll_ok [OF cga_char_pos(1)] cga_char_pos(2) [of d c] by (simp add: crt_ok_def)

text \<open>
  C28. Whatever character is printed, the cursor stays on the display and no memory behind the
  display is written: the default case stores at the cursor before the scrolling test, and a
  line feed may move the cursor one line beyond the last, but scrolling always brings it back.
\<close>

theorem cga_putc_bounds:
  assumes "unat (crt_pos d) < CRT_SIZE"
  shows "unat (crt_pos (cga_putc c d)) < CRT_SIZE \<and> (\<forall>i\<ge>CRT_SIZE. crt_buf (cga_putc c d) i = crt_buf d i)"
proof -
  have space: "crt_ok d ((cga_space ^^ n) d)" for n
  proof (induction n)
    case (Suc n)
    then have "crt_ok ((cga_space ^^ n) d) ((cga_space ^^ Suc n) d)"
      using cga_char_scroll [of "(cga_space ^^ n) d"] unfolding cga_space_def [of "(cga_space ^^ n) d"] funpow.simps o_apply
      by (simp add: crt_ok_def)
    with Suc show ?case by (simp add: crt_ok_def)
  qed (use assms in \<open>simp add: crt_ok_def\<close>)
  have "crt_ok ((cga_space ^^ 5) d) (cga_scroll ((cga_space ^^ 5) d))"
    using space [of 5] by (intro cga_scroll_ok) (simp add: crt_ok_def)
  then have "crt_ok d (cga_putc c d)"
    using space [of 5] cga_char_scroll [OF assms] by (simp add: cga_putc_def Let_def crt_ok_def)
  then show ?thesis by (simp add: crt_ok_def)
qed

theorem cga_putc_bounds_witness:
  "unat (crt_pos (cga_putc 0x0A \<lparr>crt_buf = (\<lambda>_. 0), crt_pos = 1999\<rparr>)) < CRT_SIZE"
  using cga_putc_bounds [of "\<lparr>crt_buf = (\<lambda>_. 0), crt_pos = 1999\<rparr>"] by (simp add: jos_consts)

end
