(* ===== verification/Pipe.thy ===== *)
theory Pipe
  imports Ring
begin

text \<open>
  \<open>lib/pipe.c\<close>: a buffer in a page that two environments share. Reader and writer run without a
  lock, so every access to the shared page is a step of its own and the steps of the two interleave
  freely. The positions are 32-bit integers, signed in the index computation and unsigned in the
  comparison. Whether the other end is closed, which the code finds from reference counts, is an
  input of the step.
\<close>

definition PIPEBUFSIZ :: int where [jos_consts]: "PIPEBUFSIZ = 32"

record Pipe =
  p_rpos :: "32 word"
  p_wpos :: "32 word"
  p_buf :: "nat \<Rightarrow> 8 word"

text \<open>\<open>pos % PIPEBUFSIZ\<close> on a signed integer: the sign is that of the position.\<close>

definition pipe_slot :: "32 word \<Rightarrow> int" where
  "pipe_slot pos = cmod (sint pos) PIPEBUFSIZ"

definition pipe_empty :: "Pipe \<Rightarrow> bool" where
  "pipe_empty p \<longleftrightarrow> p_rpos p = p_wpos p"

definition pipe_full :: "Pipe \<Rightarrow> bool" where
  "pipe_full p \<longleftrightarrow> p_wpos p \<ge> p_rpos p + word_of_int PIPEBUFSIZ"

section \<open>Reading\<close>

text \<open>
  A call of \<open>devpipe_read\<close> for \<open>n\<close> bytes. \<open>RIncr\<close> is between taking a byte and the increment of the
  position; \<open>RWild\<close> is an access in front of the buffer.
\<close>

datatype rpc = RLoop | RTest | RLoad | RIncr | RDone int | RWild

record reader =
  r_pc :: rpc
  r_n :: nat
  r_buf :: "8 word list"

fun read_step :: "bool \<Rightarrow> Pipe \<Rightarrow> reader \<Rightarrow> Pipe \<times> reader" where
  "read_step closed p r = (case r_pc r of
     RLoop \<Rightarrow> (p, r\<lparr>r_pc := if length (r_buf r) < r_n r then RTest else RDone (int (length (r_buf r)))\<rparr>)
   | RTest \<Rightarrow>
       (p, if pipe_empty p then
             if length (r_buf r) > 0 then r\<lparr>r_pc := RDone (int (length (r_buf r)))\<rparr>
             else if closed then r\<lparr>r_pc := RDone 0\<rparr> else r
           else r\<lparr>r_pc := RLoad\<rparr>)
   | RLoad \<Rightarrow>
       (p, if pipe_slot (p_rpos p) \<ge> 0 then r\<lparr>r_buf := r_buf r @ [p_buf p (nat (pipe_slot (p_rpos p)))], r_pc := RIncr\<rparr>
           else r\<lparr>r_pc := RWild\<rparr>)
   | RIncr \<Rightarrow> (p\<lparr>p_rpos := p_rpos p + 1\<rparr>, r\<lparr>r_pc := RLoop\<rparr>)
   | _ \<Rightarrow> (p, r))"

section \<open>Writing\<close>

datatype wpc = WLoop | WTest | WStore | WIncr | WDone int | WWild

record writer =
  w_pc :: wpc
  w_buf :: "8 word list"
  w_i :: nat

fun write_step :: "bool \<Rightarrow> Pipe \<Rightarrow> writer \<Rightarrow> Pipe \<times> writer" where
  "write_step closed p w = (case w_pc w of
     WLoop \<Rightarrow> (p, w\<lparr>w_pc := if w_i w < length (w_buf w) then WTest else WDone (int (w_i w))\<rparr>)
   | WTest \<Rightarrow> (p, if pipe_full p then if closed then w\<lparr>w_pc := WDone 0\<rparr> else w else w\<lparr>w_pc := WStore\<rparr>)
   | WStore \<Rightarrow>
       if pipe_slot (p_wpos p) \<ge> 0
       then (p\<lparr>p_buf := (p_buf p)(nat (pipe_slot (p_wpos p)) := w_buf w ! w_i w)\<rparr>, w\<lparr>w_pc := WIncr\<rparr>)
       else (p, w\<lparr>w_pc := WWild\<rparr>)
   | WIncr \<Rightarrow> (p\<lparr>p_wpos := p_wpos p + 1\<rparr>, w\<lparr>w_pc := WLoop, w_i := w_i w + 1\<rparr>)
   | _ \<Rightarrow> (p, w))"

definition devpipe_stat_size :: "Pipe \<Rightarrow> int" where
  "devpipe_stat_size p = sint (p_wpos p - p_rpos p)"

section \<open>One reader and one writer\<close>

text \<open>
  The ghost components \<open>sent\<close> and \<open>got\<close> record the bytes whose transfer is complete. A client calls
  again when the previous call has returned.
\<close>

record pipe_state =
  pipe :: Pipe
  rd :: reader
  wr :: writer
  sent :: "8 word list"
  got :: "8 word list"

inductive pipe_any :: "pipe_state \<Rightarrow> pipe_state \<Rightarrow> bool" where
  reading: "read_step closed (pipe s) (rd s) = (p, r) \<Longrightarrow>
    pipe_any s (s\<lparr>pipe := p, rd := r, got := got s @ (if r_pc (rd s) = RIncr then [last (r_buf r)] else [])\<rparr>)"
| writing: "write_step closed (pipe s) (wr s) = (p, w) \<Longrightarrow>
    pipe_any s (s\<lparr>pipe := p, wr := w, sent := sent s @ (if w_pc (wr s) = WIncr then [w_buf w ! w_i (wr s)] else [])\<rparr>)"
| read_call: "r_pc (rd s) = RDone v \<Longrightarrow> pipe_any s (s\<lparr>rd := \<lparr>r_pc = RLoop, r_n = n, r_buf = []\<rparr>\<rparr>)"
| write_call: "w_pc (wr s) = WDone v \<Longrightarrow> pipe_any s (s\<lparr>wr := \<lparr>w_pc = WLoop, w_buf = bs, w_i = 0\<rparr>\<rparr>)"

inductive_cases pipe_anyE: "pipe_any s t"

text \<open>A new pipe: the page is zero, nobody has called yet.\<close>

definition pipe_start :: "pipe_state \<Rightarrow> bool" where
  "pipe_start s \<longleftrightarrow> p_rpos (pipe s) = 0 \<and> p_wpos (pipe s) = 0 \<and> sent s = [] \<and> got s = [] \<and>
     r_pc (rd s) = RDone 0 \<and> w_pc (wr s) = WDone 0"

section \<open>The invariant\<close>

text \<open>
  Up to 2 GiB of traffic: the bytes sent are those received followed by the window of the buffer,
  and what each side knows from its last test still holds.
\<close>

definition pipe_core :: "Pipe \<Rightarrow> 8 word list \<Rightarrow> nat \<Rightarrow> 8 word list \<Rightarrow> bool" where
  "pipe_core p xs n ys \<longleftrightarrow> n \<le> 32 \<and> p_rpos p = of_nat (length xs) \<and> p_wpos p = of_nat (length xs + n) \<and>
     ys = xs @ window (p_buf p) 32 (length xs) n"

definition reader_ok :: "Pipe \<Rightarrow> nat \<Rightarrow> nat \<Rightarrow> reader \<Rightarrow> bool" where
  "reader_ok p k n r \<longleftrightarrow> (case r_pc r of RLoad \<Rightarrow> 0 < n | RWild \<Rightarrow> False
     | RIncr \<Rightarrow> 0 < n \<and> r_buf r \<noteq> [] \<and> last (r_buf r) = p_buf p (k mod 32) | _ \<Rightarrow> True)"

definition writer_ok :: "Pipe \<Rightarrow> nat \<Rightarrow> nat \<Rightarrow> writer \<Rightarrow> bool" where
  "writer_ok p k n w \<longleftrightarrow> (case w_pc w of WStore \<Rightarrow> n < 32 | WWild \<Rightarrow> False
     | WIncr \<Rightarrow> n < 32 \<and> p_buf p ((k + n) mod 32) = w_buf w ! w_i w | _ \<Rightarrow> True)"

definition pipe_inv :: "pipe_state \<Rightarrow> bool" where
  "pipe_inv s \<longleftrightarrow> (length (sent s) < 2 ^ 31 - 32 \<longrightarrow>
     (\<exists>n. pipe_core (pipe s) (got s) n (sent s) \<and> reader_ok (pipe s) (length (got s)) n (rd s) \<and>
        writer_ok (pipe s) (length (got s)) n (wr s)))"

lemma pipe_slot_nat:
  assumes "k < 2 ^ 31"
  shows "pipe_slot (of_nat k) = int (k mod 32)"
proof -
  have "sint (of_nat k :: 32 word) = int k"
    using assms by (simp add: sint_uint signed_take_bit_int_eq_self_iff uint_nat unat_of_nat take_bit_nat_eq_self)
  then show ?thesis using cmod_nat [of k 32] by (simp add: pipe_slot_def jos_consts)
qed

lemma unat32: "k < 2 ^ 32 \<Longrightarrow> unat (of_nat k :: 32 word) = k"
  by (simp add: unat_of_nat)

lemma pipe_core_empty:
  assumes "pipe_core p xs n ys" and "length ys < 2 ^ 31 - 32"
  shows "pipe_empty p \<longleftrightarrow> n = 0"
proof -
  have "length xs < 2 ^ 32" "length xs + n < 2 ^ 32" using assms by (simp_all add: pipe_core_def)
  then have "unat (of_nat (length xs) :: 32 word) = length xs" "unat (of_nat (length xs + n) :: 32 word) = length xs + n"
    by (simp_all only: unat32)
  then show ?thesis using assms(1) unfolding pipe_core_def pipe_empty_def word_unat_eq_iff by (simp del: of_nat_add)
qed

lemma pipe_core_full:
  assumes "pipe_core p xs n ys" and "length ys < 2 ^ 31 - 32"
  shows "pipe_full p \<longleftrightarrow> n = 32"
proof -
  have l: "length xs + n + 32 < 2 ^ 32" using assms by (simp add: pipe_core_def)
  have "unat (of_nat (length xs) + 32 :: 32 word) = length xs + 32"
    using unat32 [of "length xs + 32"] l by simp
  moreover have "unat (of_nat (length xs + n) :: 32 word) = length xs + n"
    using l by (intro unat32) simp
  ultimately have "pipe_full p \<longleftrightarrow> length xs + 32 \<le> length xs + n"
    using assms(1) by (simp add: pipe_core_def pipe_full_def word_le_nat_alt jos_consts del: of_nat_add)
  then show ?thesis using assms(1) by (auto simp: pipe_core_def)
qed

lemma reader_keeps:
  assumes core: "pipe_core p xs n ys" and len: "length ys < 2 ^ 31 - 32" and ok: "reader_ok p (length xs) n r"
    and st: "read_step closed p r = (p', r')"
  defines "xs' \<equiv> xs @ (if r_pc r = RIncr then [last (r_buf r')] else [])"
  shows "\<exists>m. pipe_core p' xs' m ys \<and> reader_ok p' (length xs') m r' \<and> length xs' + m = length xs + n \<and> m \<le> n \<and> p_buf p' = p_buf p"
proof (cases "r_pc r = RIncr")
  case True
  then have r': "r' = r\<lparr>r_pc := RLoop\<rparr>" "p' = p\<lparr>p_rpos := p_rpos p + 1\<rparr>" using st by simp_all
  from ok True obtain m where m: "n = Suc m" "last (r_buf r) = p_buf p (length xs mod 32)"
    by (cases n) (auto simp: reader_ok_def)
  then have "xs' = xs @ [p_buf p (length xs mod 32)]" by (simp add: xs'_def True r')
  then have "pipe_core p' xs' m ys"
    using core by (simp add: pipe_core_def m r' window_get)
  then show ?thesis using m by (intro exI [of _ m]) (simp add: reader_ok_def r' xs'_def True)
next
  case False
  have slot: "pipe_slot (p_rpos p) = int (length xs mod 32)"
    using core len by (simp add: pipe_core_def pipe_slot_nat)
  have "reader_ok p (length xs) n r'" "p' = p"
    using False ok st pipe_core_empty [OF core len]
    by (auto simp: reader_ok_def slot split: rpc.splits if_splits)
  then show ?thesis using core False by (intro exI [of _ n]) (simp add: xs'_def)
qed

lemma writer_keeps:
  assumes core: "pipe_core p xs n ys" and len: "length ys < 2 ^ 31 - 32" and ok: "writer_ok p (length xs) n w"
    and st: "write_step closed p w = (p', w')"
  defines "ys' \<equiv> ys @ (if w_pc w = WIncr then [w_buf w' ! w_i w] else [])"
  shows "\<exists>m. pipe_core p' xs m ys' \<and> writer_ok p' (length xs) m w' \<and> n \<le> m \<and>
    (0 < n \<longrightarrow> p_buf p' (length xs mod 32) = p_buf p (length xs mod 32))"
proof -
  have slot: "pipe_slot (p_wpos p) = int ((length xs + n) mod 32)"
    using core len by (simp add: pipe_core_def pipe_slot_nat del: of_nat_add)
  consider "w_pc w = WIncr" | "w_pc w = WStore" | "w_pc w \<noteq> WIncr" "w_pc w \<noteq> WStore" by blast
  then show ?thesis
  proof cases
    case 1
    then have w': "w' = w\<lparr>w_pc := WLoop, w_i := w_i w + 1\<rparr>" "p' = p\<lparr>p_wpos := p_wpos p + 1\<rparr>" using st by simp_all
    from ok 1 have n: "n < 32" "p_buf p ((length xs + n) mod 32) = w_buf w ! w_i w" by (auto simp: writer_ok_def)
    have "window (p_buf p) 32 (length xs) (Suc n) = window (p_buf p) 32 (length xs) n @ [w_buf w ! w_i w]"
      using n(2) by (simp add: window_def)
    then have "pipe_core p' xs (Suc n) ys'"
      using core n(1) by (simp add: pipe_core_def w' ys'_def 1 add.commute)
    then show ?thesis by (intro exI [of _ "Suc n"]) (simp add: writer_ok_def w')
  next
    case 2
    then have w': "w' = w\<lparr>w_pc := WIncr\<rparr>" "p' = p\<lparr>p_buf := (p_buf p)((length xs + n) mod 32 := w_buf w ! w_i w)\<rparr>"
      using st by (simp_all add: slot)
    from ok 2 have n: "n < 32" by (simp add: writer_ok_def)
    have "pipe_core p' xs n ys'" using core by (simp add: pipe_core_def w' ys'_def 2 window_keep [OF n])
    moreover have "0 < n \<Longrightarrow> length xs mod 32 \<noteq> (length xs + n) mod 32" using window_other [of 0 n 32 "length xs"] n by simp
    ultimately show ?thesis using n by (intro exI [of _ n]) (simp add: writer_ok_def w')
  next
    case 3
    have "writer_ok p (length xs) n w'" "p' = p"
      using 3 ok st pipe_core_full [OF core len] core
      by (auto simp: writer_ok_def pipe_core_def split: wpc.splits if_splits)
    then show ?thesis using core 3 by (intro exI [of _ n]) (simp add: ys'_def)
  qed
qed

lemma pipe_inv_start: "pipe_start s \<Longrightarrow> pipe_inv s"
  by (auto simp: pipe_start_def pipe_inv_def pipe_core_def reader_ok_def writer_ok_def)

lemma pipe_inv_step:
  assumes "pipe_inv s" and "pipe_any s t"
  shows "pipe_inv t"
  unfolding pipe_inv_def
proof
  assume len: "length (sent t) < 2 ^ 31 - 32"
  have mono: "length (sent s) \<le> length (sent t)" using assms(2) by (auto elim!: pipe_anyE)
  with assms(1) len obtain n where n: "pipe_core (pipe s) (got s) n (sent s)"
    "reader_ok (pipe s) (length (got s)) n (rd s)" "writer_ok (pipe s) (length (got s)) n (wr s)"
    by (auto simp: pipe_inv_def)
  have len: "length (sent s) < 2 ^ 31 - 32" using len mono by simp
  from assms(2) show "\<exists>n. pipe_core (pipe t) (got t) n (sent t) \<and> reader_ok (pipe t) (length (got t)) n (rd t) \<and>
        writer_ok (pipe t) (length (got t)) n (wr t)"
  proof cases
    case (reading closed p r)
    from reader_keeps [OF n(1) len n(2) reading(2)] obtain m where m:
      "pipe_core p (got t) m (sent s)" "reader_ok p (length (got t)) m r" "length (got t) + m = length (got s) + n"
      "m \<le> n" "p_buf p = p_buf (pipe s)"
      by (auto simp: reading(1))
    from n(3) m(3-5) have "writer_ok p (length (got t)) m (wr s)" by (auto simp: writer_ok_def split: wpc.splits)
    with m show ?thesis by (auto simp: reading(1))
  next
    case (writing closed p w)
    from writer_keeps [OF n(1) len n(3) writing(2)] obtain m where m:
      "pipe_core p (got s) m (sent t)" "writer_ok p (length (got s)) m w" "n \<le> m"
      "0 < n \<longrightarrow> p_buf p (length (got s) mod 32) = p_buf (pipe s) (length (got s) mod 32)"
      by (auto simp: writing(1))
    from n(2) m(3,4) have "reader_ok p (length (got s)) m (rd s)" by (auto simp: reader_ok_def split: rpc.splits)
    with m show ?thesis by (auto simp: writing(1))
  next
    case (read_call v k)
    then show ?thesis using n by (intro exI [of _ n]) (simp add: reader_ok_def)
  next
    case (write_call v bs)
    then show ?thesis using n by (intro exI [of _ n]) (simp add: writer_ok_def)
  qed
qed

interpretation pip: trans_sys pipe_start pipe_any pipe_inv
  using pipe_inv_start pipe_inv_step by unfold_locales

text \<open>A schedule of reader (\<open>True\<close>) and writer (\<open>False\<close>) accesses while both ends are open.\<close>

definition pipe_move :: "bool \<Rightarrow> pipe_state \<Rightarrow> pipe_state" where
  "pipe_move b s =
     (if b then case read_step False (pipe s) (rd s) of (p, r) \<Rightarrow>
          s\<lparr>pipe := p, rd := r, got := got s @ (if r_pc (rd s) = RIncr then [last (r_buf r)] else [])\<rparr>
      else case write_step False (pipe s) (wr s) of (p, w) \<Rightarrow>
          s\<lparr>pipe := p, wr := w, sent := sent s @ (if w_pc (wr s) = WIncr then [w_buf w ! w_i (wr s)] else [])\<rparr>)"

lemma pipe_move_any: "pipe_any s (pipe_move b s)"
  using reading [of False s] writing [of False s] by (cases b) (auto simp: pipe_move_def split: prod.splits)

lemma pipe_moves_any: "pipe_any\<^sup>*\<^sup>* s (fold pipe_move bs s)"
proof (induction bs arbitrary: s)
  case (Cons b bs)
  show ?case using converse_rtranclp_into_rtranclp [of pipe_any, OF pipe_move_any Cons.IH] by simp
qed simp

text \<open>
  C26. However the accesses of reader and writer interleave, as long as less than 2 GiB (minus 32)
  have gone through the pipe: the bytes received are exactly the first of the bytes sent, in order
  and without loss or duplication; at most 32 bytes are in transit, they are the window of the
  buffer between the two positions; and no access leaves the buffer.
\<close>

theorem pipe_fifo:
  assumes "pipe_start s" and "pipe_any\<^sup>*\<^sup>* s t" and "length (sent t) < 2 ^ 31 - 32"
  shows "\<exists>n\<le>32. sent t = got t @ window (p_buf (pipe t)) 32 (length (got t)) n \<and>
    devpipe_stat_size (pipe t) = int n \<and> r_pc (rd t) \<noteq> RWild \<and> w_pc (wr t) \<noteq> WWild"
proof -
  from pip.inv_reachable [OF assms(2,1)] assms(3) obtain n where n: "pipe_core (pipe t) (got t) n (sent t)"
    "reader_ok (pipe t) (length (got t)) n (rd t)" "writer_ok (pipe t) (length (got t)) n (wr t)"
    by (auto simp: pipe_inv_def)
  then have "devpipe_stat_size (pipe t) = int n"
    by (simp add: devpipe_stat_size_def pipe_core_def sint_uint signed_take_bit_int_eq_self_iff uint_nat unat_of_nat)
  then show ?thesis using n by (intro exI [of _ n]) (auto simp: pipe_core_def reader_ok_def writer_ok_def)
qed

theorem pipe_fifo_witness:
  "\<exists>t. pipe_any\<^sup>*\<^sup>* \<lparr>pipe = \<lparr>p_rpos = 0, p_wpos = 0, p_buf = (\<lambda>_. 0)\<rparr>, rd = \<lparr>r_pc = RDone 0, r_n = 0, r_buf = []\<rparr>,
       wr = \<lparr>w_pc = WDone 0, w_buf = [], w_i = 0\<rparr>, sent = [], got = []\<rparr> t \<and>
     sent t = [0x68, 0x69] \<and> got t = [0x68] \<and> (\<exists>n. window (p_buf (pipe t)) 32 1 n = [0x69])"
proof -
  let ?r = "\<lparr>r_pc = RDone 0, r_n = 0, r_buf = []\<rparr>" and ?w = "\<lparr>w_pc = WDone 0, w_buf = [], w_i = 0\<rparr>"
  let ?p = "\<lparr>p_rpos = 0, p_wpos = 0, p_buf = (\<lambda>_. 0)\<rparr>"
  let ?s0 = "\<lparr>pipe = ?p, rd = ?r, wr = ?w, sent = [], got = []\<rparr>"
  let ?s1 = "?s0\<lparr>wr := \<lparr>w_pc = WLoop, w_buf = [0x68, 0x69], w_i = 0\<rparr>\<rparr>"
  let ?s2 = "?s1\<lparr>rd := \<lparr>r_pc = RLoop, r_n = 2, r_buf = []\<rparr>\<rparr>"
  let ?t = "fold pipe_move [True, False, True, False, False, False, False, True, False, True, False, True, False] ?s2"
  have st: "pipe_start ?s0" by (simp add: pipe_start_def)
  have 1: "pipe_any ?s0 ?s1" by (rule write_call) simp
  have 2: "pipe_any ?s1 ?s2" by (rule read_call) simp
  have r: "pipe_any\<^sup>*\<^sup>* ?s0 ?t"
    by (rule converse_rtranclp_into_rtranclp [of pipe_any, OF 1 converse_rtranclp_into_rtranclp [of pipe_any, OF 2 pipe_moves_any]])
  have t: "sent ?t = [0x68, 0x69]" "got ?t = [0x68]"
    by code_simp+
  obtain t where t: "pipe_any\<^sup>*\<^sup>* ?s0 t" "sent t = [0x68, 0x69]" "got t = [0x68]" using r t by blast
  with pipe_fifo [OF st t(1)] obtain n where "[0x68, 0x69] = [0x68] @ window (p_buf (pipe t)) 32 1 n" by auto
  then show ?thesis using t by (intro exI [of _ t]) auto
qed

text \<open>
  Beyond that the index becomes negative: after $2^{31}$ bytes and one more the next byte is read in
  front of the buffer, where the positions themselves are stored.
\<close>

lemma pipe_wraps:
  "pipe_slot 0x80000001 = - 31"
  "r_pc r = RLoad \<Longrightarrow> p_rpos p = 0x80000001 \<Longrightarrow> r_pc (snd (read_step closed p r)) = RWild"
  by (simp_all add: pipe_slot_def cmod_def jos_consts)

end
