(* ===== verification/Bc.thy ===== *)
theory Bc
  imports Pmap Bytes
begin

text \<open>
  \<open>fs/bc.c\<close>: the block cache of the file server. The disk is mapped at \<open>DISKMAP\<close>; a block is read in
  by the page fault handler when it is first touched and written back by \<open>flush_block\<close> when its page
  is dirty. Addresses are offsets from \<open>DISKMAP\<close> in 32-bit words, 1024 to a block.
\<close>

definition DISKSIZE :: nat where [jos_consts]: "DISKSIZE = 0xC0000000"
definition BLKSIZE :: nat where [jos_consts]: "BLKSIZE = 4096"
definition NBLOCKS_MAX :: nat where [jos_consts]: "NBLOCKS_MAX = DISKSIZE div BLKSIZE"

text \<open>
  The state of the cache: the words in memory, which blocks have a page and whether it is dirty, and
  the words on disk. For the blocks in \<open>io_fails\<close> there is no page, or the disk reports an error.
\<close>

record fsd =
  bc_mem :: "nat \<Rightarrow> 32 word"
  bc_mapped :: "nat \<Rightarrow> bool"
  bc_dirty :: "nat \<Rightarrow> bool"
  disk :: "nat \<Rightarrow> 32 word"
  io_fails :: "nat \<Rightarrow> bool"

text \<open>What the server sees at an address once the block has been read in.\<close>

definition view :: "'a fsd_scheme \<Rightarrow> nat \<Rightarrow> 32 word" where
  "view s w = (if bc_mapped s (w div 1024) then bc_mem s w else disk s w)"

text \<open>\<open>super->s_nblocks\<close> and \<open>bitmap[i]\<close>; the super block is block 1, the bitmap starts at block 2.\<close>

definition nblocks :: "(nat \<Rightarrow> 32 word) \<Rightarrow> nat" where
  "nblocks m = unat (m 1025)"

definition bitmap_word :: "nat \<Rightarrow> nat" where
  "bitmap_word b = 2048 + b div 32"

definition block_is_free :: "nat \<Rightarrow> (nat \<Rightarrow> 32 word) \<Rightarrow> bool" where
  "block_is_free b m \<longleftrightarrow> b < nblocks m \<and> m (bitmap_word b) AND push_bit (b mod 32) 1 \<noteq> 0"

section \<open>The page fault handler\<close>

text \<open>
  Reading in a block. The tests of the handler look at the super block and the bitmap, whose own
  faults only read them in; they see the contents of the cache with the block in place.
\<close>

definition fetch :: "nat \<Rightarrow> 'a fsd_scheme \<Rightarrow> 'a fsd_scheme" where
  "fetch b s = s\<lparr>bc_mem := (\<lambda>w. if w div 1024 = b then disk s w else bc_mem s w),
     bc_mapped := (bc_mapped s)(b := True), bc_dirty := (bc_dirty s)(b := False)\<rparr>"

definition bc_pgfault :: "nat \<Rightarrow> 'a fsd_scheme \<Rightarrow> ('a fsd_scheme, unit) res" where
  "bc_pgfault b s =
     (if b \<ge> NBLOCKS_MAX then Inl (Panic, s)
      else if b \<ge> nblocks (view s) then Inl (Panic, s)
      else if io_fails s b then Inl (Panic, s)
      else
        let s1 = fetch b s
        in if block_is_free b (view s1) then Inl (Panic, s1) else Inr ((), s1))"

text \<open>Loads and stores, and the same for single bytes.\<close>

definition touch :: "nat \<Rightarrow> 'a fsd_scheme \<Rightarrow> ('a fsd_scheme, unit) res" where
  "touch b s = (if bc_mapped s b then Inr ((), s) else bc_pgfault b s)"

definition ld :: "nat \<Rightarrow> 'a fsd_scheme \<Rightarrow> ('a fsd_scheme, 32 word) res" where
  "ld w s = bindS (touch (w div 1024) s) (\<lambda>_ s. Inr (bc_mem s w, s))"

definition st :: "nat \<Rightarrow> 32 word \<Rightarrow> 'a fsd_scheme \<Rightarrow> ('a fsd_scheme, unit) res" where
  "st w v s = bindS (touch (w div 1024) s) (\<lambda>_ s.
     Inr ((), s\<lparr>bc_mem := (bc_mem s)(w := v), bc_dirty := (bc_dirty s)(w div 1024 := True)\<rparr>))"

definition ld8 :: "nat \<Rightarrow> 'a fsd_scheme \<Rightarrow> ('a fsd_scheme, 8 word) res" where
  "ld8 a s = bindS (ld (a div 4) s) (\<lambda>v s. Inr (get_byte (a mod 4) v, s))"

definition st8 :: "nat \<Rightarrow> 8 word \<Rightarrow> 'a fsd_scheme \<Rightarrow> ('a fsd_scheme, unit) res" where
  "st8 a b s = bindS (ld (a div 4) s) (\<lambda>v s. st (a div 4) (set_byte (a mod 4) b v) s)"

section \<open>Writing back\<close>

definition write_back :: "nat \<Rightarrow> 'a fsd_scheme \<Rightarrow> 'a fsd_scheme" where
  "write_back b s = s\<lparr>disk := (\<lambda>w. if w div 1024 = b then bc_mem s w else disk s w), bc_dirty := (bc_dirty s)(b := False)\<rparr>"

definition flush_block :: "nat \<Rightarrow> 'a fsd_scheme \<Rightarrow> ('a fsd_scheme, unit) res" where
  "flush_block w s =
     (let b = w div 1024
      in if b \<ge> NBLOCKS_MAX then Inl (Panic, s)
         else if bc_mapped s b \<and> bc_dirty s b then
           if io_fails s b then Inl (Panic, s) else Inr ((), write_back b s)
         else Inr ((), s))"

definition diskaddr :: "32 word \<Rightarrow> 'a fsd_scheme \<Rightarrow> ('a fsd_scheme, nat) res" where
  "diskaddr blockno s =
     (if blockno = 0 then Inl (Panic, s)
      else bindS (ld 1025 s) (\<lambda>n s. if blockno \<ge> n then Inl (Panic, s) else Inr (1024 * unat blockno, s)))"

section \<open>Transparency\<close>

text \<open>
  A block that is in use can be touched. \<open>fs_good\<close> holds of a checked file system on a working disk:
  the super block and the bitmap are in use.
\<close>

definition used :: "(nat \<Rightarrow> 32 word) \<Rightarrow> nat \<Rightarrow> bool" where
  "used m b \<longleftrightarrow> b < nblocks m \<and> \<not> block_is_free b m"

definition fs_good :: "'a fsd_scheme \<Rightarrow> bool" where
  "fs_good s \<longleftrightarrow> nblocks (view s) \<le> NBLOCKS_MAX \<and> (\<forall>b<nblocks (view s). \<not> io_fails s b) \<and>
     used (view s) 1 \<and> (\<forall>b<nblocks (view s). used (view s) (bitmap_word b div 1024))"

definition pull :: "nat \<Rightarrow> 'a fsd_scheme \<Rightarrow> 'a fsd_scheme" where
  "pull b s = (if bc_mapped s b then s else fetch b s)"

definition poke :: "nat \<Rightarrow> 32 word \<Rightarrow> 'a fsd_scheme \<Rightarrow> 'a fsd_scheme" where
  "poke w v s = (pull (w div 1024) s)\<lparr>bc_mem := (bc_mem (pull (w div 1024) s))(w := v),
     bc_dirty := (bc_dirty (pull (w div 1024) s))(w div 1024 := True)\<rparr>"

lemma view_fetch: "\<not> bc_mapped s b \<Longrightarrow> view (fetch b s) = view s"
  by (auto simp: fun_eq_iff view_def fetch_def)

lemma pull_simps [simp]:
  "view (pull b s) = view s" "io_fails (pull b s) = io_fails s" "disk (pull b s) = disk s" "bc_mapped (pull b s) b"
  by (auto simp: pull_def view_fetch) (simp_all add: fetch_def)

lemma poke_simps [simp]:
  "view (poke w v s) = (view s)(w := v)" "io_fails (poke w v s) = io_fails s" "disk (poke w v s) = disk s"
  by (auto simp: poke_def fun_eq_iff view_def pull_def fetch_def)

lemma touch_used:
  assumes "fs_good s" "used (view s) b"
  shows "touch b s = Inr ((), pull b s)"
  using assms by (auto simp: touch_def bc_pgfault_def pull_def fs_good_def used_def view_fetch Let_def)

lemma bc_mem_pull: "bc_mem (pull (w div 1024) s) w = view s w"
  by (simp add: pull_def view_def fetch_def)

lemma ld_used: "fs_good s \<Longrightarrow> used (view s) (w div 1024) \<Longrightarrow> ld w s = Inr (view s w, pull (w div 1024) s)"
  by (simp add: ld_def touch_used bc_mem_pull)

lemma st_used: "fs_good s \<Longrightarrow> used (view s) (w div 1024) \<Longrightarrow> st w v s = Inr ((), poke w v s)"
  by (simp add: st_def touch_used poke_def)

lemma fs_good_pull [simp]: "fs_good (pull b s) \<longleftrightarrow> fs_good s"
  by (simp add: fs_good_def)

lemma diskaddr_used:
  assumes "fs_good s" "blockno \<noteq> 0" "unat blockno < nblocks (view s)"
  shows "diskaddr blockno s = Inr (1024 * unat blockno, pull 1 s)"
proof -
  have "ld 1025 s = Inr (view s 1025, pull 1 s)" using ld_used [OF assms(1), of 1025] assms(1) by (simp add: fs_good_def)
  then show ?thesis using assms(2,3) by (simp add: diskaddr_def nblocks_def word_le_nat_alt)
qed

lemma diskaddr_bad:
  assumes "fs_good s" "blockno = 0 \<or> nblocks (view s) \<le> unat blockno"
  shows "\<exists>s'. diskaddr blockno s = Inl (Panic, s')"
proof -
  have "ld 1025 s = Inr (view s 1025, pull 1 s)" using ld_used [OF assms(1), of 1025] assms(1) by (simp add: fs_good_def)
  then show ?thesis using assms(2) by (auto simp: diskaddr_def nblocks_def word_le_nat_alt)
qed

section \<open>Clean blocks agree with the disk\<close>

definition bc_inv :: "'a fsd_scheme \<Rightarrow> bool" where
  "bc_inv s \<longleftrightarrow> (\<forall>w. bc_mapped s (w div 1024) \<longrightarrow> \<not> bc_dirty s (w div 1024) \<longrightarrow> bc_mem s w = disk s w)"

lemma bc_inv_pull: "bc_inv s \<Longrightarrow> bc_inv (pull b s)"
  by (auto simp: bc_inv_def pull_def fetch_def)

lemma bc_inv_poke: "bc_inv s \<Longrightarrow> bc_inv (poke w v s)"
  using bc_inv_pull [of s "w div 1024"] by (auto simp: bc_inv_def poke_def)

lemma write_back_simps [simp]:
  "bc_mapped s b \<Longrightarrow> view (write_back b s) = view s" "io_fails (write_back b s) = io_fails s"
  "bc_mapped (write_back b s) = bc_mapped s" "bc_mem (write_back b s) = bc_mem s"
  by (auto simp: write_back_def view_def fun_eq_iff)

text \<open>
  What \<open>flush_block\<close> does to a block that exists: nothing changes for the server, the block on disk
  is what the server sees, and other blocks on disk stay.
\<close>

lemma flush_block_spec:
  assumes "fs_good s" "bc_inv s" "w div 1024 < nblocks (view s)"
  shows "\<exists>s'. flush_block w s = Inr ((), s') \<and> view s' = view s \<and> io_fails s' = io_fails s \<and> bc_inv s' \<and>
    (\<forall>x. disk s' x = (if x div 1024 = w div 1024 then view s x else disk s x))"
proof (cases "bc_mapped s (w div 1024) \<and> bc_dirty s (w div 1024)")
  case True
  then have "flush_block w s = Inr ((), write_back (w div 1024) s)"
    using assms by (auto simp: flush_block_def fs_good_def Let_def)
  moreover have "bc_inv (write_back (w div 1024) s)" using assms(2) by (auto simp: bc_inv_def write_back_def)
  moreover have "disk (write_back (w div 1024) s) x = (if x div 1024 = w div 1024 then view s x else disk s x)" for x
    using True by (simp add: write_back_def view_def)
  ultimately show ?thesis using True by auto
next
  case False
  then have "flush_block w s = Inr ((), s)" using assms by (auto simp: flush_block_def fs_good_def Let_def)
  moreover have "disk s x = view s x" if "x div 1024 = w div 1024" for x
    using False that assms(2) by (auto simp: bc_inv_def view_def)
  ultimately show ?thesis using assms(2) by auto
qed

end
