(* ===== verification/Fs.thy ===== *)
theory Fs
  imports Bc
begin

text \<open>
  \<open>fs/fs.c\<close> on the block cache: the bitmap of free blocks, the blocks of a file, directories, path
  names, reading, writing and truncating. A file is the address of its \<open>struct File\<close>, of 64 words.
\<close>

definition E_NO_DISK :: int where [jos_consts]: "E_NO_DISK = 9"
definition E_MAX_OPEN :: int where [jos_consts]: "E_MAX_OPEN = 10"
definition E_NOT_FOUND :: int where [jos_consts]: "E_NOT_FOUND = 11"
definition E_BAD_PATH :: int where [jos_consts]: "E_BAD_PATH = 12"
definition E_FILE_EXISTS :: int where [jos_consts]: "E_FILE_EXISTS = 13"

definition BLKBITSIZE :: nat where [jos_consts]: "BLKBITSIZE = BLKSIZE * 8"
definition MAXNAMELEN :: nat where [jos_consts]: "MAXNAMELEN = 128"
definition NDIRECT :: nat where [jos_consts]: "NDIRECT = 10"
definition NINDIRECT :: nat where [jos_consts]: "NINDIRECT = BLKSIZE div 4"
definition BLKFILES :: nat where [jos_consts]: "BLKFILES = BLKSIZE div 256"
definition FTYPE_DIR :: "32 word" where [jos_consts]: "FTYPE_DIR = 1"
definition FS_MAGIC :: "32 word" where [jos_consts]: "FS_MAGIC = 0x4A0530AE"

text \<open>The fields of \<open>struct File\<close>; the name is the first 128 bytes. \<open>&super->s_root\<close> is in block 1.\<close>

definition f_name :: "nat \<Rightarrow> nat" where "f_name f = 4 * f"
definition f_size :: "nat \<Rightarrow> nat" where "f_size f = f + 32"
definition f_type :: "nat \<Rightarrow> nat" where "f_type f = f + 33"
definition f_direct :: "nat \<Rightarrow> nat \<Rightarrow> nat" where "f_direct f i = f + 34 + i"
definition f_indirect :: "nat \<Rightarrow> nat" where "f_indirect f = f + 44"
definition s_root :: nat where "s_root = 1026"

section \<open>Super block and bitmap\<close>

definition check_super :: "'a fsd_scheme \<Rightarrow> ('a fsd_scheme, unit) res" where
  "check_super s =
     bindS (ld 1024 s) (\<lambda>magic s.
       if magic \<noteq> FS_MAGIC then Inl (Panic, s)
       else bindS (ld 1025 s) (\<lambda>n s. if unat n > DISKSIZE div BLKSIZE then Inl (Panic, s) else Inr ((), s)))"

definition free_block :: "32 word \<Rightarrow> 'a fsd_scheme \<Rightarrow> ('a fsd_scheme, unit) res" where
  "free_block blockno s =
     (if blockno = 0 then Inl (Panic, s)
      else let w = bitmap_word (unat blockno)
           in bindS (ld w s) (\<lambda>v s. st w (v OR push_bit (unat blockno mod 32) 1) s))"

text \<open>The search loop of \<open>alloc_block\<close>.\<close>

function alloc_loop :: "nat \<Rightarrow> 'a fsd_scheme \<Rightarrow> ('a fsd_scheme, int) res" where
  "alloc_loop blockno s =
     bindS (ld 1025 s) (\<lambda>n s.
       if blockno < unat n then
         let w = bitmap_word blockno
         in bindS (ld w s) (\<lambda>v s.
              if v = 0 then alloc_loop (blockno + 32) s
              else if v AND push_bit (blockno mod 32) 1 \<noteq> 0 then
                bindS (st w (v AND NOT (push_bit (blockno mod 32) 1)) s) (\<lambda>_ s.
                bindS (flush_block w s) (\<lambda>_ s. Inr (int blockno, s)))
              else alloc_loop (blockno + 1) s)
       else Inr (- E_NO_DISK, s))"
  by pat_completeness auto
termination
proof (relation "measure (\<lambda>(b, s). 2 ^ 32 - b)", goal_cases)
  case (2 b s n s1 w v s2)
  from less_trans [OF 2(2) unsigned_less] have "b < 2 ^ LENGTH(32)" .
  then show ?case by simp
next
  case (3 b s n s1 w v s2)
  from less_trans [OF 3(2) unsigned_less] have "b < 2 ^ LENGTH(32)" .
  then show ?case by simp
qed simp

declare alloc_loop.simps [simp del]

definition alloc_block :: "'a fsd_scheme \<Rightarrow> ('a fsd_scheme, int) res" where
  "alloc_block s = alloc_loop 0 s"

definition check_bitmap :: "'a fsd_scheme \<Rightarrow> ('a fsd_scheme, unit) res" where
  "check_bitmap s =
     (if list_ex (\<lambda>i. block_is_free (2 + i) (view s)) [0..<(nblocks (view s) + BLKBITSIZE - 1) div BLKBITSIZE] \<or>
         block_is_free 0 (view s) \<or> block_is_free 1 (view s)
      then Inl (Panic, s) else Inr ((), s))"

section \<open>The blocks of a file\<close>

text \<open>
  The result is an error code or the address of the slot. The code keeps the result of \<open>alloc_block\<close>
  in an unsigned variable, so that its test for an error never succeeds.
\<close>

definition file_block_walk :: "nat \<Rightarrow> 32 word \<Rightarrow> bool \<Rightarrow> 'a fsd_scheme \<Rightarrow> ('a fsd_scheme, int + nat) res" where
  "file_block_walk f filebno alloc s =
     (if unat filebno \<ge> NDIRECT + NINDIRECT then Inr (Inl (- E_INVAL), s)
      else if unat filebno < NDIRECT then Inr (Inr (f_direct f (unat filebno)), s)
      else
        let slot = (\<lambda>ind s. bindS (diskaddr ind s) (\<lambda>a s. Inr (Inr (a + (unat filebno - NDIRECT)), s)))
        in bindS (ld (f_indirect f) s) (\<lambda>ind s.
             if ind \<noteq> 0 then slot ind s
             else if alloc then
               bindS (alloc_block s) (\<lambda>ret s.
               bindS (st (f_indirect f) (word_of_int ret) s) (\<lambda>_ s. slot (word_of_int ret) s))
             else Inr (Inl (- E_NOT_FOUND), s)))"

definition file_get_block :: "nat \<Rightarrow> 32 word \<Rightarrow> 'a fsd_scheme \<Rightarrow> ('a fsd_scheme, int + nat) res" where
  "file_get_block f filebno s =
     (if unat filebno \<ge> NDIRECT + NINDIRECT then Inr (Inl (- E_INVAL), s)
      else
        bindS (file_block_walk f filebno True s) (\<lambda>r s.
          case r of
            Inl _ \<Rightarrow> Inl (NullDeref, s)
          | Inr block \<Rightarrow>
              bindS (ld block s) (\<lambda>v s.
                if v \<noteq> 0 then bindS (diskaddr v s) (\<lambda>a s. Inr (Inr a, s))
                else
                  bindS (alloc_block s) (\<lambda>ret s.
                  bindS (st block (word_of_int ret) s) (\<lambda>_ s.
                  bindS (diskaddr (word_of_int ret) s) (\<lambda>a s. Inr (Inr a, s)))))))"

definition file_free_block :: "nat \<Rightarrow> 32 word \<Rightarrow> 'a fsd_scheme \<Rightarrow> ('a fsd_scheme, int) res" where
  "file_free_block f filebno s =
     bindS (file_block_walk f filebno False s) (\<lambda>r s.
       case r of
         Inl e \<Rightarrow> Inr (e, s)
       | Inr ptr \<Rightarrow>
           bindS (ld ptr s) (\<lambda>v s.
             if v \<noteq> 0 then bindS (free_block v s) (\<lambda>_ s. bindS (st ptr 0 s) (\<lambda>_ s. Inr (0, s)))
             else Inr (0, s)))"

section \<open>Truncation and size\<close>

definition blocks_of :: "32 word \<Rightarrow> 32 word" where
  "blocks_of sz = word_of_int (cdiv (sint (sz + 4096 - 1)) 4096)"

definition file_truncate_blocks :: "nat \<Rightarrow> 32 word \<Rightarrow> 'a fsd_scheme \<Rightarrow> ('a fsd_scheme, unit) res" where
  "file_truncate_blocks f newsize s =
     bindS (ld (f_size f) s) (\<lambda>size s.
       let old_nblocks = blocks_of size; new_nblocks = blocks_of newsize
       in bindS (for_each (\<lambda>bno s. bindS (file_free_block f (of_nat bno) s) (\<lambda>_ s. Inr ((), s)))
            [unat new_nblocks..<unat old_nblocks] s) (\<lambda>_ s.
          if unat new_nblocks \<le> NDIRECT then
            bindS (ld (f_indirect f) s) (\<lambda>ind s.
              if ind \<noteq> 0 then bindS (free_block ind s) (\<lambda>_ s. st (f_indirect f) 0 s) else Inr ((), s))
          else Inr ((), s)))"

definition file_set_size :: "nat \<Rightarrow> 32 word \<Rightarrow> 'a fsd_scheme \<Rightarrow> ('a fsd_scheme, int) res" where
  "file_set_size f newsize s =
     bindS (ld (f_size f) s) (\<lambda>size s.
     bindS (if sint size > sint newsize then file_truncate_blocks f newsize s else Inr ((), s)) (\<lambda>_ s.
     bindS (st (f_size f) newsize s) (\<lambda>_ s.
     bindS (flush_block f s) (\<lambda>_ s. Inr (0, s)))))"

section \<open>Flushing\<close>

definition flush_slot :: "nat \<Rightarrow> nat \<Rightarrow> 'a fsd_scheme \<Rightarrow> ('a fsd_scheme, unit) res" where
  "flush_slot f i s =
     bindS (file_block_walk f (of_nat i) False s) (\<lambda>r s.
       case r of
         Inl _ \<Rightarrow> Inr ((), s)
       | Inr p \<Rightarrow>
           bindS (ld p s) (\<lambda>v s. if v = 0 then Inr ((), s) else bindS (diskaddr v s) (\<lambda>a s. flush_block a s)))"

definition file_flush :: "nat \<Rightarrow> 'a fsd_scheme \<Rightarrow> ('a fsd_scheme, unit) res" where
  "file_flush f s =
     bindS (ld (f_size f) s) (\<lambda>size s.
     bindS (for_each (flush_slot f) [0..<nat (cdiv (sint (size + 4096 - 1)) 4096)] s) (\<lambda>_ s.
     bindS (flush_block f s) (\<lambda>_ s.
     bindS (ld (f_indirect f) s) (\<lambda>ind s.
       if ind \<noteq> 0 then bindS (diskaddr ind s) (\<lambda>a s. flush_block a s) else Inr ((), s)))))"

definition fs_sync :: "'a fsd_scheme \<Rightarrow> ('a fsd_scheme, unit) res" where
  "fs_sync s =
     bindS (ld 1025 s) (\<lambda>n s.
       for_each (\<lambda>i s. bindS (diskaddr (of_nat i) s) (\<lambda>a s. flush_block a s)) [1..<unat n] s)"

section \<open>Directories and path names\<close>

text \<open>\<open>strcmp(p, name) == 0\<close> for a name without zero bytes, byte by byte.\<close>

fun name_eq :: "nat \<Rightarrow> 8 word list \<Rightarrow> 'a fsd_scheme \<Rightarrow> ('a fsd_scheme, bool) res" where
  "name_eq p [] s = bindS (ld8 p s) (\<lambda>c s. Inr (c = 0, s))"
| "name_eq p (x # xs) s = bindS (ld8 p s) (\<lambda>c s. if c = x then name_eq (p + 1) xs s else Inr (False, s))"

fun find_in_block :: "(nat \<Rightarrow> 'a fsd_scheme \<Rightarrow> ('a fsd_scheme, bool) res) \<Rightarrow> nat list \<Rightarrow> 'a fsd_scheme \<Rightarrow>
    ('a fsd_scheme, nat option) res" where
  "find_in_block P [] s = Inr (None, s)"
| "find_in_block P (f # fs) s = bindS (P f s) (\<lambda>b s. if b then Inr (Some f, s) else find_in_block P fs s)"

fun find_in_dir :: "(nat \<Rightarrow> 'a fsd_scheme \<Rightarrow> ('a fsd_scheme, bool) res) \<Rightarrow> nat \<Rightarrow> nat list \<Rightarrow> 'a fsd_scheme \<Rightarrow>
    ('a fsd_scheme, int + nat option) res" where
  "find_in_dir P dir [] s = Inr (Inr None, s)"
| "find_in_dir P dir (i # is) s =
     bindS (file_get_block dir (of_nat i) s) (\<lambda>r s.
       case r of
         Inl e \<Rightarrow> Inr (Inl e, s)
       | Inr blk \<Rightarrow>
           bindS (find_in_block P (map (\<lambda>j. blk + 64 * j) [0..<BLKFILES]) s) (\<lambda>fo s.
             case fo of Some f \<Rightarrow> Inr (Inr (Some f), s) | None \<Rightarrow> find_in_dir P dir is s))"

definition dir_lookup :: "nat \<Rightarrow> 8 word list \<Rightarrow> 'a fsd_scheme \<Rightarrow> ('a fsd_scheme, int + nat) res" where
  "dir_lookup dir name s =
     bindS (ld (f_size dir) s) (\<lambda>size s.
       if cmod (sint size) 4096 \<noteq> 0 then Inl (Panic, s)
       else
         bindS (find_in_dir (\<lambda>f. name_eq (f_name f) name) dir [0..<unat (word_of_int (cdiv (sint size) 4096) :: 32 word)] s)
           (\<lambda>r s. Inr (case r of Inl e \<Rightarrow> Inl e | Inr None \<Rightarrow> Inl (- E_NOT_FOUND) | Inr (Some f) \<Rightarrow> Inr f, s)))"

definition dir_alloc_file :: "nat \<Rightarrow> 'a fsd_scheme \<Rightarrow> ('a fsd_scheme, int + nat) res" where
  "dir_alloc_file dir s =
     bindS (ld (f_size dir) s) (\<lambda>size s.
       if cmod (sint size) 4096 \<noteq> 0 then Inl (Panic, s)
       else
         let nblock = word_of_int (cdiv (sint size) 4096) :: 32 word
         in bindS (find_in_dir (\<lambda>f s. bindS (ld8 (f_name f) s) (\<lambda>c s. Inr (c = 0, s))) dir [0..<unat nblock] s)
           (\<lambda>r s. case r of
              Inl e \<Rightarrow> Inr (Inl e, s)
            | Inr (Some f) \<Rightarrow> Inr (Inr f, s)
            | Inr None \<Rightarrow>
                bindS (ld (f_size dir) s) (\<lambda>size s.
                bindS (st (f_size dir) (size + 4096) s) (\<lambda>_ s. file_get_block dir nblock s))))"

definition SLASH :: "8 word" where [jos_consts]: "SLASH = 0x2F"

definition skip_slash :: "8 word list \<Rightarrow> 8 word list" where
  "skip_slash p = dropWhile (\<lambda>c. c = SLASH) p"

text \<open>
  The loop of \<open>walk_path\<close>, at the remaining path, the directory of the last component and the file
  found so far. The result is the return value with \<open>*pdir\<close>, \<open>*pf\<close> and \<open>lastelem\<close>.
\<close>

type_synonym walk_res = "int \<times> nat option \<times> nat option \<times> 8 word list"

function walk_loop :: "8 word list \<Rightarrow> nat option \<Rightarrow> nat \<Rightarrow> 'a fsd_scheme \<Rightarrow> ('a fsd_scheme, walk_res) res" where
  "walk_loop [] dir f s = Inr ((0, dir, Some f, []), s)"
| "walk_loop (c # cs) dir f s =
     (let name = takeWhile (\<lambda>x. x \<noteq> SLASH) (c # cs); path = skip_slash (dropWhile (\<lambda>x. x \<noteq> SLASH) (c # cs))
      in if length name \<ge> MAXNAMELEN then Inr ((- E_BAD_PATH, None, None, []), s)
         else
           bindS (ld (f_type f) s) (\<lambda>ty s.
             if ty \<noteq> FTYPE_DIR then Inr ((- E_NOT_FOUND, None, None, []), s)
             else
               bindS (dir_lookup f name s) (\<lambda>r s.
                 case r of
                   Inl e \<Rightarrow>
                     Inr (if e = - E_NOT_FOUND \<and> path = [] then (e, Some f, None, name) else (e, None, None, []), s)
                 | Inr f' \<Rightarrow> walk_loop path (Some f) f' s)))"
  by pat_completeness auto
termination
proof (relation "measure (\<lambda>(p, _). length p)", goal_cases)
  case (2 c cs f s name path ty s1 r s2 f')
  have "length (skip_slash (dropWhile (\<lambda>x. x \<noteq> SLASH) (c # cs))) \<le> length cs"
    using length_dropWhile_le [of "\<lambda>x. x = SLASH"] length_dropWhile_le [of "\<lambda>x. x \<noteq> SLASH" cs]
    by (auto simp: skip_slash_def intro: order_trans)
  then show ?case using 2(2) by simp
qed simp

text \<open>\<open>path\<close> is the string without its terminating zero byte.\<close>

definition walk_path :: "8 word list \<Rightarrow> 'a fsd_scheme \<Rightarrow> ('a fsd_scheme, walk_res) res" where
  "walk_path path s = walk_loop (skip_slash path) None s_root s"

fun st_bytes :: "nat \<Rightarrow> 8 word list \<Rightarrow> 'a fsd_scheme \<Rightarrow> ('a fsd_scheme, unit) res" where
  "st_bytes a [] s = Inr ((), s)"
| "st_bytes a (b # bs) s = bindS (st8 a b s) (\<lambda>_ s. st_bytes (a + 1) bs s)"

fun ld_bytes :: "nat \<Rightarrow> nat \<Rightarrow> 'a fsd_scheme \<Rightarrow> ('a fsd_scheme, 8 word list) res" where
  "ld_bytes a 0 s = Inr ([], s)"
| "ld_bytes a (Suc n) s = bindS (ld8 a s) (\<lambda>b s. bindS (ld_bytes (a + 1) n s) (\<lambda>bs s. Inr (b # bs, s)))"

definition file_create :: "8 word list \<Rightarrow> 'a fsd_scheme \<Rightarrow> ('a fsd_scheme, int + nat) res" where
  "file_create path s =
     bindS (walk_path path s) (\<lambda>(r, dir, _, name) s.
       if r = 0 then Inr (Inl (- E_FILE_EXISTS), s)
       else if r \<noteq> - E_NOT_FOUND then Inr (Inl r, s)
       else case dir of
         None \<Rightarrow> Inr (Inl r, s)
       | Some d \<Rightarrow>
           bindS (dir_alloc_file d s) (\<lambda>fr s.
             case fr of
               Inl e \<Rightarrow> Inr (Inl e, s)
             | Inr f \<Rightarrow>
                 bindS (st_bytes (f_name f) (name @ [0]) s) (\<lambda>_ s.
                 bindS (file_flush d s) (\<lambda>_ s. Inr (Inr f, s)))))"

definition file_open :: "8 word list \<Rightarrow> 'a fsd_scheme \<Rightarrow> ('a fsd_scheme, int + nat) res" where
  "file_open path s =
     bindS (walk_path path s) (\<lambda>(r, _, pf, _) s.
       Inr (case pf of Some f \<Rightarrow> (if r = 0 then Inr f else Inl r) | None \<Rightarrow> Inl r, s))"

section \<open>Reading and writing\<close>

text \<open>
  One chunk: it ends at the end of the block or of the request. \<open>pos % BLKSIZE\<close> is signed, the
  comparison of \<open>MIN\<close> is unsigned.
\<close>

definition chunk :: "32 word \<Rightarrow> 32 word \<Rightarrow> 32 word" where
  "chunk pos fin =
     (let a = word_of_int (4096 - cmod (sint pos) 4096) in if a \<le> fin - pos then a else fin - pos)"

definition byte_addr :: "nat \<Rightarrow> 32 word \<Rightarrow> nat" where
  "byte_addr blk pos = nat (int (4 * blk) + cmod (sint pos) 4096)"

lemma chunk_bounds:
  assumes "pos < fin"
  shows "0 < chunk pos fin" "chunk pos fin \<le> fin - pos"
proof -
  have m: "\<bar>cmod x 4096\<bar> < 4096" for x
    unfolding cmod_def abs_mult by (cases "x = 0") (simp_all add: abs_sgn_eq)
  then have "0 < 4096 - cmod (sint pos) 4096" "4096 - cmod (sint pos) 4096 < 4294967296" using m [of "sint pos"] by linarith+
  then have "uint (word_of_int (4096 - cmod (sint pos) 4096) :: 32 word) = 4096 - cmod (sint pos) 4096"
    unfolding uint_word_of_int_eq by (simp add: take_bit_int_eq_self_iff del: of_int_diff)
  then have "0 < (word_of_int (4096 - cmod (sint pos) 4096) :: 32 word)"
    using \<open>0 < 4096 - cmod (sint pos) 4096\<close> unfolding word_less_def by (simp del: of_int_diff)
  moreover have "0 < fin - pos" using assms by (simp add: word_gt_0)
  ultimately show "0 < chunk pos fin" by (simp add: chunk_def Let_def)
  show "chunk pos fin \<le> fin - pos" by (simp add: chunk_def Let_def)
qed

lemma chunk_progress:
  assumes "pos < fin"
  shows "unat (fin - (pos + chunk pos fin)) < unat (fin - pos)"
proof -
  have eq: "fin - (pos + chunk pos fin) = (fin - pos) - chunk pos fin" by simp
  show ?thesis unfolding eq using chunk_bounds [OF assms] unat_sub [of "chunk pos fin" "fin - pos"]
    by (simp add: word_less_nat_alt word_le_nat_alt)
qed

function read_loop :: "nat \<Rightarrow> 32 word \<Rightarrow> 32 word \<Rightarrow> 'a fsd_scheme \<Rightarrow> ('a fsd_scheme, int option \<times> 8 word list) res" where
  "read_loop f pos fin s =
     (if pos < fin then
        bindS (file_get_block f (word_of_int (cdiv (sint pos) 4096)) s) (\<lambda>r s.
          case r of
            Inl e \<Rightarrow> Inr ((Some e, []), s)
          | Inr blk \<Rightarrow>
              bindS (ld_bytes (byte_addr blk pos) (unat (chunk pos fin)) s) (\<lambda>bs s.
              bindS (read_loop f (pos + chunk pos fin) fin s) (\<lambda>(r, bs') s. Inr ((r, bs @ bs'), s))))
      else Inr ((None, []), s))"
  by pat_completeness auto
termination
  by (relation "measure (\<lambda>(f, pos, fin, s). unat (fin - pos))") (auto intro: chunk_progress)

declare read_loop.simps [simp del]

text \<open>The result is the return value and the bytes stored in the buffer.\<close>

definition file_read :: "nat \<Rightarrow> 32 word \<Rightarrow> 32 word \<Rightarrow> 'a fsd_scheme \<Rightarrow> ('a fsd_scheme, int \<times> 8 word list) res" where
  "file_read f count offset s =
     bindS (ld (f_size f) s) (\<lambda>size s.
       if sint offset \<ge> sint size then Inr ((0, []), s)
       else
         let count = (if count \<le> size - offset then count else size - offset)
         in bindS (read_loop f offset (offset + count) s) (\<lambda>(r, bs) s.
              Inr ((case r of Some e \<Rightarrow> e | None \<Rightarrow> sint count, bs), s)))"

function write_loop :: "nat \<Rightarrow> 8 word list \<Rightarrow> 32 word \<Rightarrow> 32 word \<Rightarrow> 'a fsd_scheme \<Rightarrow> ('a fsd_scheme, int option) res" where
  "write_loop f buf pos fin s =
     (if pos < fin then
        bindS (file_get_block f (word_of_int (cdiv (sint pos) 4096)) s) (\<lambda>r s.
          case r of
            Inl e \<Rightarrow> Inr (Some e, s)
          | Inr blk \<Rightarrow>
              bindS (st_bytes (byte_addr blk pos) (take (unat (chunk pos fin)) buf) s) (\<lambda>_ s.
                write_loop f (drop (unat (chunk pos fin)) buf) (pos + chunk pos fin) fin s))
      else Inr (None, s))"
  by pat_completeness auto
termination
  by (relation "measure (\<lambda>(f, buf, pos, fin, s). unat (fin - pos))") (auto intro: chunk_progress)

declare write_loop.simps [simp del]

text \<open>\<open>buf\<close> are the \<open>count\<close> bytes of the caller's buffer.\<close>

definition file_write :: "nat \<Rightarrow> 8 word list \<Rightarrow> 32 word \<Rightarrow> 'a fsd_scheme \<Rightarrow> ('a fsd_scheme, int) res" where
  "file_write f buf offset s =
     (let count = of_nat (length buf)
      in bindS (ld (f_size f) s) (\<lambda>size s.
         bindS (if offset + count > size then file_set_size f (offset + count) s else Inr (0, s)) (\<lambda>r s.
           if r < 0 then Inr (r, s)
           else bindS (write_loop f buf offset (offset + count) s) (\<lambda>r s.
             Inr (case r of Some e \<Rightarrow> e | None \<Rightarrow> sint count, s)))))"

end
