(* ===== verification/FsAlloc.thy ===== *)
theory FsAlloc
  imports Fs
begin

text \<open>
  The allocation of disk blocks: \<open>alloc_block\<close> finds the first free block, although it skips words of
  the bitmap, and makes the changed bitmap block durable.
\<close>

lemma bitmap_word_ge [simp]: "2048 \<le> bitmap_word b"
  by (simp add: bitmap_word_def)

lemma bitmap_word_1025 [simp]: "bitmap_word b \<noteq> 1025"
  by (simp add: bitmap_word_def)

lemma bitmap_bit: "m AND push_bit k 1 \<noteq> 0 \<longleftrightarrow> bit m k" if "k < 32" for m :: "32 word"
proof -
  have "m AND push_bit k 1 = (if bit m k then push_bit k 1 else 0)"
    by (rule bit_word_eqI) (auto simp: bit_simps that)
  moreover have "(push_bit k 1 :: 32 word) \<noteq> 0" using that by (simp add: push_bit_eq_0_iff)
  ultimately show ?thesis by simp
qed

lemma block_is_free_bit: "block_is_free b m \<longleftrightarrow> b < nblocks m \<and> bit (m (bitmap_word b)) (b mod 32)"
  unfolding block_is_free_def using bitmap_bit [of "b mod 32"] by simp

text \<open>Marking a block used.\<close>

definition take_block :: "nat \<Rightarrow> (nat \<Rightarrow> 32 word) \<Rightarrow> nat \<Rightarrow> 32 word" where
  "take_block b m = m(bitmap_word b := m (bitmap_word b) AND NOT (push_bit (b mod 32) 1))"

lemma nblocks_take [simp]: "nblocks (take_block b m) = nblocks m"
  by (simp add: nblocks_def take_block_def)

lemma same_word: "bitmap_word c = bitmap_word b \<longleftrightarrow> c div 32 = b div 32"
  by (simp add: bitmap_word_def)

lemma free_take: "block_is_free c (take_block b m) \<longleftrightarrow> block_is_free c m \<and> c \<noteq> b"
proof (cases "c div 32 = b div 32")
  case True
  then have "c \<noteq> b \<longleftrightarrow> c mod 32 \<noteq> b mod 32" by (metis div_mult_mod_eq)
  moreover have "bitmap_word c = bitmap_word b" using True by (simp add: same_word)
  ultimately show ?thesis by (auto simp: block_is_free_bit take_block_def bit_simps nblocks_def)
next
  case False
  then show ?thesis by (auto simp: block_is_free_bit take_block_def same_word nblocks_def)
qed

lemma used_take: "used (take_block b m) c \<longleftrightarrow> used m c \<or> (c = b \<and> b < nblocks m)"
  by (auto simp: used_def free_take)

text \<open>States that differ only in residence and in what is on disk.\<close>

lemma fs_good_view: "view s' = m \<Longrightarrow> io_fails s' = io_fails s \<Longrightarrow> fs_good s \<Longrightarrow> nblocks m = nblocks (view s) \<Longrightarrow>
    (\<And>b. used (view s) b \<Longrightarrow> used m b) \<Longrightarrow> fs_good s'"
  by (auto simp: fs_good_def)

lemma bitmap_used: "fs_good s \<Longrightarrow> b < nblocks (view s) \<Longrightarrow> used (view s) (bitmap_word b div 1024)"
  by (simp add: fs_good_def)

lemma super_used: "fs_good s \<Longrightarrow> used (view s) (1025 div 1024)"
  by (simp add: fs_good_def)

text \<open>What the server relies on after an operation of the lower layer.\<close>

definition fs_ok :: "'a fsd_scheme \<Rightarrow> bool" where
  "fs_ok s \<longleftrightarrow> fs_good s \<and> bc_inv s"

lemma fs_ok_pull [simp]: "fs_ok s \<Longrightarrow> fs_ok (pull b s)"
  by (simp add: fs_ok_def bc_inv_pull)

lemma ld_ok: "fs_ok s \<Longrightarrow> used (view s) (w div 1024) \<Longrightarrow> ld w s = Inr (view s w, pull (w div 1024) s)"
  by (simp add: fs_ok_def ld_used)

lemma st_ok: "fs_ok s \<Longrightarrow> used (view s) (w div 1024) \<Longrightarrow> st w v s = Inr ((), poke w v s)"
  by (simp add: fs_ok_def st_used)

lemma ld_nblocks: "fs_ok s \<Longrightarrow> ld 1025 s = Inr (view s 1025, pull 1 s)"
  using ld_ok [of s 1025] super_used [of s] by (simp add: fs_ok_def)

lemma fs_ok_poke:
  assumes "fs_ok s" "nblocks ((view s)(w := v)) = nblocks (view s)" "\<And>b. used (view s) b \<Longrightarrow> used ((view s)(w := v)) b"
  shows "fs_ok (poke w v s)"
  using assms fs_good_view [of "poke w v s" "(view s)(w := v)" s] by (simp add: fs_ok_def bc_inv_poke)

definition alloc_post :: "'a fsd_scheme \<Rightarrow> nat \<Rightarrow> 'a fsd_scheme \<Rightarrow> bool" where
  "alloc_post s b s' \<longleftrightarrow> view s' = take_block b (view s) \<and> fs_ok s' \<and> io_fails s' = io_fails s \<and>
     (\<forall>w. disk s' w = (if w div 1024 = bitmap_word b div 1024 then view s' w else disk s w))"

lemma alloc_found:
  assumes ok: "fs_ok s" and free: "block_is_free b (view s)"
  defines "w \<equiv> bitmap_word b"
  shows "\<exists>s'. bindS (st w (view s w AND NOT (push_bit (b mod 32) 1)) s) (\<lambda>_ s. bindS (flush_block w s) (\<lambda>_ s. Inr (int b, s)))
      = Inr (int b, s') \<and> alloc_post s b s'"
proof -
  let ?v = "view s w AND NOT (push_bit (b mod 32) 1)" and ?s = "poke w (view s w AND NOT (push_bit (b mod 32) 1)) s"
  have b: "b < nblocks (view s)" using free by (simp add: block_is_free_def)
  have v': "(view s)(w := ?v) = take_block b (view s)" by (simp add: take_block_def w_def)
  then have v: "view ?s = take_block b (view s)" by simp
  have u: "used (view s) (w div 1024)" using ok b by (simp add: w_def fs_ok_def bitmap_used)
  have good: "fs_ok ?s"
    by (rule fs_ok_poke [OF ok]) (simp_all only: v' nblocks_take used_take simp_thms)
  have "w div 1024 < nblocks (view ?s)" using u unfolding v nblocks_take used_def by blast
  with flush_block_spec [of ?s w] good obtain s' where s': "flush_block w ?s = Inr ((), s')" "view s' = view ?s"
    "io_fails s' = io_fails ?s" "bc_inv s'" "\<forall>x. disk s' x = (if x div 1024 = w div 1024 then view ?s x else disk ?s x)"
    by (auto simp: fs_ok_def)
  have "fs_ok s'" using s' good fs_good_view [of s' "view ?s" ?s] by (simp add: fs_ok_def)
  then show ?thesis using s' st_ok [OF ok u] v by (intro exI [of _ s']) (simp add: alloc_post_def w_def)
qed

lemma alloc_post_pull [simp]: "alloc_post (pull c s) b s' \<longleftrightarrow> alloc_post s b s'"
  by (simp add: alloc_post_def)

text \<open>The search: everything below \<open>b\<close> is in use, and \<open>b\<close> is aligned unless its word has a free block.\<close>

lemma zero_word: "m (bitmap_word b) = 0 \<Longrightarrow> c div 32 = b div 32 \<Longrightarrow> \<not> block_is_free c m"
  using same_word [of c b] by (auto simp: block_is_free_bit)

lemma alloc_loop_spec:
  assumes "fs_ok s" and "\<forall>c<b. \<not> block_is_free c (view s)" and "b mod 32 \<noteq> 0 \<longrightarrow> view s (bitmap_word b) \<noteq> 0"
  shows "if \<exists>c. block_is_free c (view s)
    then \<exists>s'. alloc_loop b s = Inr (int (LEAST c. block_is_free c (view s)), s') \<and>
      alloc_post s (LEAST c. block_is_free c (view s)) s'
    else \<exists>s'. alloc_loop b s = Inr (- E_NO_DISK, s') \<and> view s' = view s \<and> fs_ok s' \<and> disk s' = disk s \<and> io_fails s' = io_fails s"
  using assms
proof (induction b s rule: alloc_loop.induct)
  case (1 b s)
  let ?n = "view s 1025" and ?s1 = "pull 1 s" and ?w = "bitmap_word b" and ?m = "view s"
  note ok = "1.prems"(1)
  have ld1: "ld 1025 s = Inr (?n, ?s1)" by (rule ld_nblocks [OF ok])
  show ?case
  proof (cases "b < unat ?n")
    case False
    then have "\<not> (\<exists>c. block_is_free c ?m)" using "1.prems"(2) by (auto simp: block_is_free_def nblocks_def)
    moreover have "alloc_loop b s = Inr (- E_NO_DISK, ?s1)" using False by (simp add: alloc_loop.simps [of b s] ld1)
    ultimately show ?thesis using ok by simp
  next
    case True
    then have bn: "b < nblocks ?m" by (simp add: nblocks_def)
    let ?s2 = "pull (?w div 1024) ?s1"
    have ld2: "ld ?w ?s1 = Inr (?m ?w, ?s2)" using ld_ok [of ?s1 ?w] bitmap_used [of s b] ok bn by (simp add: fs_ok_def bc_inv_pull)
    have ok2: "fs_ok ?s2" using ok by simp
    note IH = "1.IH" [OF ld1 True refl ld2]
    note body = alloc_loop.simps [of b s, unfolded ld1 bindS_Inr Let_def, unfolded if_P [OF True] ld2 bindS_Inr]
    consider "?m ?w = 0" | "?m ?w \<noteq> 0" "block_is_free b ?m" | "?m ?w \<noteq> 0" "\<not> block_is_free b ?m" by blast
    then show ?thesis
    proof cases
      case 1
      have al: "b mod 32 = 0" using "1.prems"(3) 1 by blast
      have "\<not> block_is_free c ?m" if "c < b + 32" for c
      proof (cases "c < b")
        case False
        then have "c div 32 = b div 32" using that al by (auto simp: div_nat_eqI)
        then show ?thesis by (rule zero_word [of ?m b, OF 1])
      qed (use "1.prems"(2) in blast)
      then have p1: "\<forall>c<b + 32. \<not> block_is_free c (view ?s2)" by simp
      have p2: "(b + 32) mod 32 \<noteq> 0 \<longrightarrow> view ?s2 (bitmap_word (b + 32)) \<noteq> 0" using al by simp
      have "alloc_loop b s = alloc_loop (b + 32) ?s2" using 1 by (simp only: body if_True simp_thms)
      then show ?thesis using IH(1) [OF 1 ok2 p1 p2] by (simp only: pull_simps alloc_post_pull)
    next
      case 2
      have "(LEAST c. block_is_free c ?m) = b"
        using 2(2) "1.prems"(2) by (intro Least_equality) (auto simp: not_less [symmetric])
      moreover have "?m ?w AND push_bit (b mod 32) 1 \<noteq> 0" using 2(2) unfolding block_is_free_def by blast
      ultimately show ?thesis using alloc_found [OF ok2, of b] 2 unfolding body pull_simps alloc_post_pull by auto
    next
      case 3
      have z: "\<not> ?m ?w AND push_bit (b mod 32) 1 \<noteq> 0" using 3(2) bn unfolding block_is_free_def by blast
      have p1: "\<forall>c<b + 1. \<not> block_is_free c (view ?s2)" using 3(2) "1.prems"(2) by (auto simp: less_Suc_eq)
      have "(b + 1) mod 32 \<noteq> 0 \<Longrightarrow> (b + 1) div 32 = b div 32" by (simp add: div_Suc)
      then have p2: "(b + 1) mod 32 \<noteq> 0 \<longrightarrow> view ?s2 (bitmap_word (b + 1)) \<noteq> 0"
        using 3(1) same_word [of "b + 1" b] by (metis pull_simps(1))
      have "alloc_loop b s = alloc_loop (b + 1) ?s2" using 3(1) z by (simp only: body if_False simp_thms)
      then show ?thesis using IH(2) [OF 3(1) z ok2 p1 p2] by (simp only: pull_simps alloc_post_pull)
    qed
  qed
qed

text \<open>
  C13. On a checked file system \<open>alloc_block\<close> returns the lowest free block, marks exactly that block
  used and writes the bitmap block to disk, changing nothing else; it returns \<open>-E_NO_DISK\<close> and
  changes nothing if and only if no block is free. The file system stays good.
\<close>

theorem alloc_block_correct:
  assumes "fs_good s" and "bc_inv s"
  shows "if \<exists>b. block_is_free b (view s)
    then \<exists>b s'. alloc_block s = Inr (int b, s') \<and> block_is_free b (view s) \<and> (\<forall>c<b. \<not> block_is_free c (view s)) \<and>
      (\<forall>c. block_is_free c (view s') \<longleftrightarrow> block_is_free c (view s) \<and> c \<noteq> b) \<and>
      (\<forall>w. w \<noteq> bitmap_word b \<longrightarrow> view s' w = view s w) \<and> disk s' (bitmap_word b) = view s' (bitmap_word b) \<and>
      fs_good s' \<and> bc_inv s'
    else \<exists>s'. alloc_block s = Inr (- E_NO_DISK, s') \<and> view s' = view s \<and> fs_good s' \<and> bc_inv s'"
proof (cases "\<exists>b. block_is_free b (view s)")
  case True
  define b where "b = (LEAST c. block_is_free c (view s))"
  have b: "block_is_free b (view s)" "\<forall>c<b. \<not> block_is_free c (view s)"
    using LeastI_ex [OF True] not_less_Least by (auto simp: b_def)
  from alloc_loop_spec [of s 0] True assms obtain s' where "alloc_block s = Inr (int b, s')" "alloc_post s b s'"
    by (auto simp: fs_ok_def b_def alloc_block_def)
  with b True show ?thesis
    by (intro if_P [THEN iffD2, OF True] exI [of _ b] exI [of _ s'])
       (auto simp: alloc_post_def fs_ok_def free_take, auto simp: take_block_def)
next
  case False
  then show ?thesis using alloc_loop_spec [of s 0] assms by (auto simp: fs_ok_def alloc_block_def)
qed

text \<open>A small disk of 64 blocks: super block, bitmap, a root directory with one block, one empty file in it.\<close>

definition demo_disk :: "nat \<Rightarrow> 32 word" where
  "demo_disk = (\<lambda>_. 0)(1024 := FS_MAGIC, 1025 := 64, f_size s_root := 4096, f_type s_root := FTYPE_DIR,
     f_direct s_root 0 := 3, 2048 := 0xFFFFFFF0, 2049 := 0xFFFFFFFF, 3072 := 0x61)"

definition demo_fs :: fsd where
  "demo_fs = \<lparr>bc_mem = (\<lambda>_. 0), bc_mapped = (\<lambda>_. False), bc_dirty = (\<lambda>_. False), disk = demo_disk, io_fails = (\<lambda>_. False)\<rparr>"

lemma view_demo [simp]: "view demo_fs = demo_disk"
  by (simp add: fun_eq_iff view_def demo_fs_def)

lemma demo_nblocks [simp]: "nblocks demo_disk = 64"
  by (simp add: nblocks_def demo_disk_def f_size_def f_type_def f_direct_def s_root_def)

lemma demo_word: "demo_disk 2048 = 0xFFFFFFF0"
  by (simp add: demo_disk_def s_root_def f_size_def f_type_def f_direct_def)

lemma demo_used: "b < 4 \<Longrightarrow> used demo_disk b"
proof -
  assume "b < 4"
  then consider "b = 0" | "b = 1" | "b = 2" | "b = 3" by linarith
  then show ?thesis by cases (simp_all add: used_def block_is_free_bit bitmap_word_def demo_word bit_numeral_rec)
qed

lemma demo_ok: "fs_good demo_fs" "bc_inv demo_fs"
proof -
  have "bitmap_word b div 1024 = 2" if "b < 64" for b using that by (simp add: bitmap_word_def)
  then show "fs_good demo_fs" by (simp add: fs_good_def demo_used jos_consts) (simp add: demo_fs_def)
  show "bc_inv demo_fs" by (simp add: bc_inv_def demo_fs_def)
qed

theorem alloc_block_correct_witness:
  "\<exists>s'. alloc_block demo_fs = Inr (4, s') \<and> \<not> block_is_free 4 (view s') \<and> block_is_free 5 (view s')"
proof -
  have free: "block_is_free 4 demo_disk" "block_is_free 5 demo_disk"
    by (simp_all add: block_is_free_bit bitmap_word_def demo_word bit_numeral_rec)
  then have "\<exists>b. block_is_free b (view demo_fs)" by auto
  with alloc_block_correct [OF demo_ok] obtain b s' where b: "alloc_block demo_fs = Inr (int b, s')"
    "block_is_free b demo_disk" "\<forall>c<b. \<not> block_is_free c demo_disk"
    "\<forall>c. block_is_free c (view s') \<longleftrightarrow> block_is_free c demo_disk \<and> c \<noteq> b"
    by auto
  have "\<not> b < 4" using b(2) demo_used [of b] by (auto simp: used_def)
  then have "b = 4" using b(3) free(1) by (meson linorder_neqE_nat)
  then show ?thesis using b free(2) by (intro exI [of _ s']) simp
qed

end
