(* ===== verification/FsFile.thy ===== *)
theory FsFile
  imports FsAlloc
begin

text \<open>
  The blocks of one file: the invariant that its blocks are in use and do not overlap with each
  other or with metadata, and what \<open>file_get_block\<close> does under it.
\<close>

section \<open>The invariant of a file\<close>

definition slot :: "(nat \<Rightarrow> 32 word) \<Rightarrow> nat \<Rightarrow> nat \<Rightarrow> nat" where
  "slot m f i = (if i < 10 then f + 34 + i else 1024 * unat (m (f + 44)) + (i - 10))"

definition fblock :: "(nat \<Rightarrow> 32 word) \<Rightarrow> nat \<Rightarrow> nat \<Rightarrow> nat" where
  "fblock m f i = unat (m (slot m f i))"

text \<open>The blocks that hold metadata of the first \<open>N\<close> blocks of the file, or of the file system.\<close>

definition bitmap_block :: "(nat \<Rightarrow> 32 word) \<Rightarrow> nat \<Rightarrow> bool" where
  "bitmap_block m b \<longleftrightarrow> (\<exists>c<nblocks m. b = bitmap_word c div 1024)"

definition meta_block :: "(nat \<Rightarrow> 32 word) \<Rightarrow> nat \<Rightarrow> nat \<Rightarrow> nat \<Rightarrow> bool" where
  "meta_block m f N b \<longleftrightarrow> b = 1 \<or> bitmap_block m b \<or> b = f div 1024 \<or> (10 < N \<and> b = unat (m (f + 44)))"

definition file_inv :: "(nat \<Rightarrow> 32 word) \<Rightarrow> nat \<Rightarrow> nat \<Rightarrow> bool" where
  "file_inv m f N \<longleftrightarrow> N \<le> 1034 \<and> f mod 1024 \<le> 960 \<and> used m (f div 1024) \<and> \<not> bitmap_block m (f div 1024) \<and>
     \<not> block_is_free 0 m \<and>
     (10 < N \<longrightarrow> m (f + 44) \<noteq> 0 \<and> used m (unat (m (f + 44))) \<and> unat (m (f + 44)) \<noteq> 1 \<and>
       \<not> bitmap_block m (unat (m (f + 44))) \<and> unat (m (f + 44)) \<noteq> f div 1024) \<and>
     (\<forall>i<N. fblock m f i \<noteq> 0 \<longrightarrow> used m (fblock m f i) \<and> \<not> meta_block m f N (fblock m f i)) \<and>
     (\<forall>i<N. \<forall>j<N. fblock m f i \<noteq> 0 \<longrightarrow> fblock m f i = fblock m f j \<longrightarrow> i = j)"

lemma file_invD:
  assumes "file_inv m f N"
  shows "N \<le> 1034" "used m (f div 1024)" "\<not> block_is_free 0 m" "\<not> bitmap_block m (f div 1024)"
    "10 < N \<Longrightarrow> m (f + 44) \<noteq> 0" "10 < N \<Longrightarrow> used m (unat (m (f + 44)))"
    "10 < N \<Longrightarrow> \<not> bitmap_block m (unat (m (f + 44)))" "10 < N \<Longrightarrow> unat (m (f + 44)) \<noteq> f div 1024" "10 < N \<Longrightarrow> unat (m (f + 44)) \<noteq> 1"
    "i < N \<Longrightarrow> fblock m f i \<noteq> 0 \<Longrightarrow> used m (fblock m f i)"
    "i < N \<Longrightarrow> fblock m f i \<noteq> 0 \<Longrightarrow> \<not> meta_block m f N (fblock m f i)"
    "i < N \<Longrightarrow> j < N \<Longrightarrow> fblock m f i \<noteq> 0 \<Longrightarrow> fblock m f i = fblock m f j \<Longrightarrow> i = j"
  using assms by (auto simp: file_inv_def)

lemma in_struct:
  assumes "file_inv m f N" "k < 64"
  shows "(f + k) div 1024 = f div 1024"
proof -
  have "f mod 1024 + k < 1024" using assms by (simp add: file_inv_def)
  then show ?thesis by (metis add.assoc add.right_neutral div_less div_mult_mod_eq div_mult_self3 mult.commute zero_neq_numeral)
qed

lemma slot_block:
  assumes "file_inv m f N" "i < N"
  shows "slot m f i div 1024 = (if i < 10 then f div 1024 else unat (m (f + 44)))"
    and "meta_block m f N (slot m f i div 1024)" and "used m (slot m f i div 1024)"
proof -
  show b: "slot m f i div 1024 = (if i < 10 then f div 1024 else unat (m (f + 44)))"
  proof (cases "i < 10")
    case True
    then show ?thesis using in_struct [OF assms(1), of "34 + i"] by (simp add: slot_def add.assoc)
  next
    case False
    then have "i - 10 < 1024" using assms file_invD(1) by fastforce
    then show ?thesis using False by (simp add: slot_def)
  qed
  show "meta_block m f N (slot m f i div 1024)" "used m (slot m f i div 1024)"
    using assms file_invD(2,6) [OF assms(1)] unfolding b meta_block_def by auto
qed

lemma slot_inj: "file_inv m f N \<Longrightarrow> i < N \<Longrightarrow> j < N \<Longrightarrow> slot m f i = slot m f j \<Longrightarrow> i = j"
proof -
  assume inv: "file_inv m f N" "i < N" "j < N" and eq: "slot m f i = slot m f j"
  then have "(i < 10) = (j < 10)"
    using slot_block(1) [OF inv(1,2)] slot_block(1) [OF inv(1,3)] file_invD(8) [OF inv(1)] by (auto split: if_splits)
  with eq show "i = j" by (auto simp: slot_def split: if_splits)
qed

lemma slot_not_ind: "file_inv m f N \<Longrightarrow> i < N \<Longrightarrow> slot m f i \<noteq> f + 44"
  using slot_block(1) [of m f N i] in_struct [of m f N 44] file_invD(8) [of m f N]
  by (cases "i < 10") (auto simp: slot_def)

text \<open>Changes outside the metadata change neither the invariant nor where the blocks are.\<close>

lemma meta_same:
  assumes inv: "file_inv m f N" and ch: "\<forall>w. m' w \<noteq> m w \<longrightarrow> \<not> meta_block m f N (w div 1024)"
  shows "nblocks m' = nblocks m" "block_is_free c m' = block_is_free c m" "used m' c = used m c"
    "k < 64 \<Longrightarrow> m' (f + k) = m (f + k)" "slot m' f i = slot m f i" "i < N \<Longrightarrow> fblock m' f i = fblock m f i"
    "meta_block m' f N = meta_block m f N" "file_inv m' f N"
proof -
  have at: "meta_block m f N (w div 1024) \<Longrightarrow> m' w = m w" for w using ch by blast
  have n: "m' 1025 = m 1025" by (rule at) (simp add: meta_block_def)
  then show nb: "nblocks m' = nblocks m" by (simp add: nblocks_def)
  have bw: "c < nblocks m \<Longrightarrow> m' (bitmap_word c) = m (bitmap_word c)" for c
    by (rule at) (auto simp: meta_block_def bitmap_block_def)
  then have fr: "block_is_free c m' = block_is_free c m" for c
    by (cases "c < nblocks m") (simp_all add: block_is_free_def nb)
  show "block_is_free c m' = block_is_free c m" by (rule fr)
  have us: "used m' c = used m c" for c by (simp add: used_def nb fr)
  show "used m' c = used m c" by (rule us)
  show st: "k < 64 \<Longrightarrow> m' (f + k) = m (f + k)" for k
    by (rule at) (simp add: meta_block_def in_struct [OF inv])
  then have sl: "slot m' f i = slot m f i" for i by (simp add: slot_def)
  show "slot m' f i = slot m f i" by (rule sl)
  have fb: "i < N \<Longrightarrow> fblock m' f i = fblock m f i" for i
    unfolding fblock_def sl by (simp add: at slot_block(2) [OF inv])
  show "i < N \<Longrightarrow> fblock m' f i = fblock m f i" by (rule fb)
  show mb: "meta_block m' f N = meta_block m f N"
    using st [of 44] by (auto simp: fun_eq_iff meta_block_def bitmap_block_def nb)
  have "bitmap_block m' = bitmap_block m" by (auto simp: fun_eq_iff bitmap_block_def nb)
  then show "file_inv m' f N" using inv st [of 44] by (auto simp: file_inv_def us fr fb mb)
qed

section \<open>A new block for a file\<close>

definition fill_slot :: "nat \<Rightarrow> nat \<Rightarrow> nat \<Rightarrow> (nat \<Rightarrow> 32 word) \<Rightarrow> nat \<Rightarrow> 32 word" where
  "fill_slot f i b m = (take_block b m)(slot m f i := of_nat b)"

lemma slot_super: "file_inv m f N \<Longrightarrow> i < N \<Longrightarrow> slot m f i \<noteq> 1025"
proof
  assume inv: "file_inv m f N" "i < N" and s: "slot m f i = 1025"
  have d: "slot m f i div 1024 = 1" by (simp add: s)
  show False
  proof (cases "i < 10")
    case True
    then have "f div 1024 = 1" using d slot_block(1) [OF inv] by simp
    then have "1024 \<le> f" by (cases "f < 1024") auto
    with True s show False by (simp add: slot_def)
  next
    case False
    then show False using d slot_block(1) [OF inv] file_invD(9) [OF inv(1)] inv(2) by simp
  qed
qed

lemma fill_slot_facts:
  assumes inv: "file_inv m f N" and i: "i < N" "fblock m f i = 0" and b: "block_is_free b m"
    and meta: "\<forall>c. meta_block m f N c \<longrightarrow> used m c"
  defines "m' \<equiv> fill_slot f i b m"
  shows "nblocks m' = nblocks m" "block_is_free c m' \<longleftrightarrow> block_is_free c m \<and> c \<noteq> b" "used m' c \<longleftrightarrow> used m c \<or> c = b"
    "j < N \<Longrightarrow> fblock m' f j = (if j = i then b else fblock m f j)" "slot m' f = slot m f" "file_inv m' f N"
    "m' w \<noteq> m w \<Longrightarrow> meta_block m f N (w div 1024)" "meta_block m' f N = meta_block m f N" "m' (f + 32) = m (f + 32)"
proof -
  have bn: "b < nblocks m" using b by (simp add: block_is_free_def)
  have bb: "bitmap_block m (bitmap_word c div 1024)" if "c < nblocks m" for c using that by (auto simp: bitmap_block_def)
  have sb: "\<not> bitmap_block m (slot m f i div 1024)"
    using slot_block(1) [OF inv i(1)] file_invD(4,7) [OF inv] i(1) by auto
  then have sw: "slot m f i \<noteq> bitmap_word c" if "c < nblocks m" for c using bb [OF that] by auto
  have m'_at: "m' w = (if w = slot m f i then of_nat b else take_block b m w)" for w by (simp add: m'_def fill_slot_def)
  show nb: "nblocks m' = nblocks m"
    using slot_super [OF inv i(1)] nblocks_take [of b m] by (simp add: nblocks_def m'_at)
  have "block_is_free c m' = block_is_free c (take_block b m)" for c
  proof (cases "c < nblocks m")
    case True
    then show ?thesis using sw [OF True] by (simp add: block_is_free_def m'_at nb)
  qed (simp add: block_is_free_def nb)
  then show fr: "block_is_free c m' \<longleftrightarrow> block_is_free c m \<and> c \<noteq> b" for c by (simp add: free_take)
  show us: "used m' c \<longleftrightarrow> used m c \<or> c = b" for c using bn by (auto simp: used_def nb fr)
  have fresh: "\<not> used m b" using b by (simp add: used_def)
  have st: "m' (f + k) = m (f + k)" if "k < 64" "f + k \<noteq> slot m f i" for k
    using that in_struct [OF inv that(1)] file_invD(4) [OF inv] bb [OF bn] by (auto simp: m'_at take_block_def)
  have ind: "m' (f + 44) = m (f + 44)" by (rule st) (use slot_not_ind [OF inv i(1)] in auto)
  have "slot m f i \<noteq> f + 32"
    using slot_block(1) [OF inv i(1)] in_struct [OF inv, of 32] file_invD(8) [OF inv] i(1)
    by (cases "i < 10") (auto simp: slot_def)
  then show "m' (f + 32) = m (f + 32)" by (intro st) auto
  show sl: "slot m' f = slot m f" by (simp add: fun_eq_iff slot_def ind)
  have ub: "unat (of_nat b :: 32 word) = b"
    using less_trans [OF bn [unfolded nblocks_def] unsigned_less] by (simp add: unat_of_nat)
  have fb: "fblock m' f j = (if j = i then b else fblock m f j)" if "j < N" for j
  proof (cases "j = i")
    case True
    then show ?thesis by (simp add: fblock_def sl m'_at ub)
  next
    case False
    then have "slot m f j \<noteq> slot m f i" using slot_inj [OF inv that i(1)] by blast
    moreover have "slot m f j \<noteq> bitmap_word b"
      using slot_block(1) [OF inv that] file_invD(4,7) [OF inv] that bb [OF bn] by (auto split: if_splits)
    ultimately show ?thesis using False by (simp add: fblock_def sl m'_at take_block_def)
  qed
  then show "j < N \<Longrightarrow> fblock m' f j = (if j = i then b else fblock m f j)" .
  show "m' w \<noteq> m w \<Longrightarrow> meta_block m f N (w div 1024)"
    using slot_block(2) [OF inv i(1)] bb [OF bn] by (auto simp: m'_at take_block_def meta_block_def split: if_splits)
  have bbk: "bitmap_block m' = bitmap_block m" by (auto simp: fun_eq_iff bitmap_block_def nb)
  show mb: "meta_block m' f N = meta_block m f N" by (auto simp: fun_eq_iff meta_block_def bbk ind)
  have nmb: "\<not> meta_block m f N b" using meta fresh by blast
  have "\<forall>j<N. fblock m f j \<noteq> b"
    using fresh file_invD(10) [OF inv] file_invD(3) [OF inv] b by metis
  then show "file_inv m' f N"
    using inv nmb unfolding file_inv_def ind bbk mb us fr by (auto simp: fb)
qed

section \<open>Finding the block of a file\<close>

lemma unat_small: "i < 2 ^ 32 \<Longrightarrow> unat (of_nat i :: 32 word) = i"
  by (simp add: unat_of_nat)

lemma meta_used: "fs_ok s \<Longrightarrow> file_inv (view s) f N \<Longrightarrow> \<forall>b. meta_block (view s) f N b \<longrightarrow> used (view s) b"
  by (auto simp: meta_block_def bitmap_block_def fs_ok_def fs_good_def dest: file_invD)

lemma diskaddr_ok:
  assumes "fs_ok s" "used (view s) (unat v)" "v \<noteq> 0"
  shows "diskaddr v s = Inr (1024 * unat v, pull 1 s)"
  using assms by (intro diskaddr_used) (simp_all add: fs_ok_def used_def)

lemma walk_spec:
  assumes ok: "fs_ok s" and inv: "file_inv (view s) f N" and i: "i < N"
  shows "\<exists>s'. file_block_walk f (of_nat i) al s = Inr (Inr (slot (view s) f i), s') \<and> view s' = view s \<and> fs_ok s'"
proof -
  have u: "unat (of_nat i :: 32 word) = i" and le: "i < 1034"
    using i file_invD(1) [OF inv] by (simp_all add: unat_small)
  show ?thesis
  proof (cases "i < 10")
    case True
    then show ?thesis using ok u by (simp add: file_block_walk_def slot_def f_direct_def jos_consts)
  next
    case False
    let ?ind = "view s (f + 44)" and ?s = "pull (f div 1024) s"
    have N: "10 < N" using False i by simp
    have "ld (f + 44) s = Inr (?ind, ?s)"
      using ld_ok [OF ok, of "f + 44"] in_struct [OF inv, of 44] file_invD(2) [OF inv] by simp
    moreover have "diskaddr ?ind ?s = Inr (1024 * unat ?ind, pull 1 ?s)"
      using ok file_invD(5,6) [OF inv N] by (intro diskaddr_ok) simp_all
    ultimately show ?thesis using False u le ok file_invD(5) [OF inv N]
      by (simp add: file_block_walk_def slot_def f_indirect_def jos_consts Let_def)
  qed
qed

lemma get_block_body:
  assumes ok: "fs_ok s" and inv: "file_inv (view s) f N" and i: "i < N"
  obtains s1 where "view s1 = view s" "fs_ok s1"
    "file_get_block f (of_nat i) s =
       (if fblock (view s) f i \<noteq> 0 then Inr (Inr (1024 * fblock (view s) f i), pull 1 s1)
        else bindS (alloc_block s1) (\<lambda>ret s. bindS (st (slot (view s1) f i) (word_of_int ret) s) (\<lambda>_ s.
          bindS (diskaddr (word_of_int ret) s) (\<lambda>a s. Inr (Inr a, s)))))"
proof -
  let ?m = "view s"
  obtain s0 where s0: "file_block_walk f (of_nat i) True s = Inr (Inr (slot ?m f i), s0)" "view s0 = ?m" "fs_ok s0"
    using walk_spec [OF assms] by blast
  let ?s1 = "pull (slot ?m f i div 1024) s0"
  have ld: "ld (slot ?m f i) s0 = Inr (?m (slot ?m f i), ?s1)"
    using ld_ok [OF s0(3), of "slot ?m f i"] slot_block(3) [OF inv i] s0(2) by simp
  have u: "unat (of_nat i :: 32 word) = i" "i < 1034" using i file_invD(1) [OF inv] by (simp_all add: unat_small)
  have da: "diskaddr (?m (slot ?m f i)) ?s1 = Inr (1024 * fblock ?m f i, pull 1 ?s1)" if "fblock ?m f i \<noteq> 0"
    using that file_invD(10) [OF inv i that] s0 unfolding fblock_def by (intro diskaddr_ok) auto
  have "file_get_block f (of_nat i) s = (if fblock ?m f i \<noteq> 0 then Inr (Inr (1024 * fblock ?m f i), pull 1 ?s1)
      else bindS (alloc_block ?s1) (\<lambda>ret s. bindS (st (slot (view ?s1) f i) (word_of_int ret) s) (\<lambda>_ s.
        bindS (diskaddr (word_of_int ret) s) (\<lambda>a s. Inr (Inr a, s)))))"
    using u s0 ld da by (auto simp: file_get_block_def jos_consts fblock_def unat_eq_0)
  then show thesis using that [of ?s1] s0 by simp
qed

lemma slot_poke:
  assumes "fs_ok s" "file_inv (view s) f N" "i < N"
  shows "nblocks ((view s)(slot (view s) f i := v)) = nblocks (view s)" "fs_ok (poke (slot (view s) f i) v s)"
proof -
  let ?m = "view s" and ?w = "slot (view s) f i"
  show nb: "nblocks (?m(?w := v)) = nblocks ?m" using slot_super [OF assms(2,3)] by (simp add: nblocks_def)
  have "bitmap_word c \<noteq> ?w" if "c < nblocks ?m" for c
    using slot_block(1) [OF assms(2,3)] file_invD(4,7) [OF assms(2)] assms(3) that by (auto simp: bitmap_block_def split: if_splits)
  then have "block_is_free c (?m(?w := v)) \<longleftrightarrow> block_is_free c ?m" for c
    using nb by (cases "c < nblocks ?m") (auto simp: block_is_free_def)
  then show "fs_ok (poke ?w v s)" using nb by (intro fs_ok_poke [OF assms(1)]) (simp_all add: used_def)
qed

lemma get_block_present:
  assumes "fs_ok s" "file_inv (view s) f N" "i < N" "fblock (view s) f i \<noteq> 0"
  shows "\<exists>s'. file_get_block f (of_nat i) s = Inr (Inr (1024 * fblock (view s) f i), s') \<and> view s' = view s \<and> fs_ok s'"
proof -
  obtain s1 where "view s1 = view s" "fs_ok s1" "file_get_block f (of_nat i) s = Inr (Inr (1024 * fblock (view s) f i), pull 1 s1)"
    using get_block_body [OF assms(1-3)] assms(4) by auto
  then show ?thesis by auto
qed

lemma get_block_empty:
  assumes "fs_ok s" "file_inv (view s) f N" "i < N" "fblock (view s) f i = 0"
  obtains s1 where "view s1 = view s" "fs_ok s1"
    "file_get_block f (of_nat i) s = bindS (alloc_block s1) (\<lambda>ret t. bindS (st (slot (view s) f i) (word_of_int ret) t) (\<lambda>_ s.
       bindS (diskaddr (word_of_int ret) s) (\<lambda>a s. Inr (Inr a, s))))"
proof (rule get_block_body [OF assms(1-3)], goal_cases)
  case (1 s1)
  show thesis using 1(4) unfolding 1(2) if_not_P [OF iffD2 [OF not_not assms(4)]] by (rule 1(1) [OF 1(2,3)])
qed

lemma alloc_block_least:
  assumes "fs_ok s" "\<exists>b. block_is_free b (view s)"
  shows "\<exists>b s'. alloc_block s = Inr (int b, s') \<and> block_is_free b (view s) \<and> alloc_post s b s'"
  using alloc_loop_spec [OF assms(1), of 0] assms(2) LeastI_ex [OF assms(2)] unfolding alloc_block_def by auto

lemma alloc_block_none:
  assumes "fs_ok s" "\<nexists>b. block_is_free b (view s)"
  shows "\<exists>s'. alloc_block s = Inr (- E_NO_DISK, s') \<and> view s' = view s \<and> fs_ok s'"
  using alloc_loop_spec [OF assms(1), of 0] assms(2) unfolding alloc_block_def by auto

lemma get_block_alloc:
  assumes ok: "fs_ok s" and inv: "file_inv (view s) f N" and i: "i < N" "fblock (view s) f i = 0"
    and free: "\<exists>b. block_is_free b (view s)"
  shows "\<exists>b s'. block_is_free b (view s) \<and> file_get_block f (of_nat i) s = Inr (Inr (1024 * b), s') \<and>
    view s' = fill_slot f i b (view s) \<and> fs_ok s'"
proof -
  let ?m = "view s"
  obtain s1 where s1: "view s1 = ?m" "fs_ok s1"
    "file_get_block f (of_nat i) s = bindS (alloc_block s1) (\<lambda>ret s. bindS (st (slot ?m f i) (word_of_int ret) s) (\<lambda>_ s.
       bindS (diskaddr (word_of_int ret) s) (\<lambda>a s. Inr (Inr a, s))))"
    using get_block_empty [OF ok inv i] by blast
  obtain b s2 where s2: "alloc_block s1 = Inr (int b, s2)" "block_is_free b ?m" "alloc_post s1 b s2"
    using alloc_block_least [OF s1(2)] free s1(1) by auto
  have v2: "view s2 = take_block b ?m" "fs_ok s2" using s2(3) s1(1) by (simp_all add: alloc_post_def)
  let ?w = "slot ?m f i" and ?s3 = "poke (slot ?m f i) (of_nat b) s2"
  note facts = fill_slot_facts [OF inv i s2(2) meta_used [OF ok inv]]
  have v3: "view ?s3 = fill_slot f i b ?m" by (simp add: v2 fill_slot_def)
  have "used (view s2) (?w div 1024)" using slot_block(3) [OF inv i(1)] by (simp add: v2 used_take)
  then have st: "st ?w (of_nat b) s2 = Inr ((), ?s3)" by (rule st_ok [OF v2(2)])
  have ok3: "fs_ok ?s3"
  proof (rule fs_ok_poke [OF v2(2)])
    have e: "(take_block b ?m)(?w := of_nat b) = fill_slot f i b ?m" by (simp add: fill_slot_def)
    show "nblocks ((view s2)(?w := of_nat b)) = nblocks (view s2)" unfolding v2(1) e nblocks_take by (rule facts(1))
    show "used ((view s2)(?w := of_nat b)) c" if "used (view s2) c" for c
      using that unfolding v2(1) e facts(3) used_take by blast
  qed
  have b: "b < nblocks ?m" using s2(2) by (simp add: block_is_free_def)
  have b0: "b \<noteq> 0" using s2(2) file_invD(3) [OF inv] by metis
  have ub: "unat (of_nat b :: 32 word) = b"
    using less_trans [OF b [unfolded nblocks_def] unsigned_less] by (simp add: unat_of_nat)
  then have "(of_nat b :: 32 word) \<noteq> 0" using b0 by auto
  then have "diskaddr (of_nat b) ?s3 = Inr (1024 * b, pull 1 ?s3)"
    using diskaddr_ok [OF ok3, of "of_nat b"] by (simp add: ub v3 facts(3) del: poke_simps)
  then show ?thesis using s1(3) s2(1,2) st ok3 v3 by (intro exI [of _ b] exI [of _ "pull 1 ?s3"]) simp
qed

text \<open>
  The unsigned test: when the disk is full the negative error code becomes a block number.
\<close>

lemma get_block_full:
  assumes ok: "fs_ok s" and inv: "file_inv (view s) f N" and i: "i < N" "fblock (view s) f i = 0"
    and full: "\<nexists>b. block_is_free b (view s)"
  shows "\<exists>s'. file_get_block f (of_nat i) s = Inl (Panic, s')"
proof -
  let ?m = "view s" and ?v = "word_of_int (- E_NO_DISK) :: 32 word"
  obtain s1 where s1: "view s1 = ?m" "fs_ok s1"
    "file_get_block f (of_nat i) s = bindS (alloc_block s1) (\<lambda>ret s. bindS (st (slot ?m f i) (word_of_int ret) s) (\<lambda>_ s.
       bindS (diskaddr (word_of_int ret) s) (\<lambda>a s. Inr (Inr a, s))))"
    using get_block_empty [OF ok inv i] by blast
  obtain s2 where s2: "alloc_block s1 = Inr (- E_NO_DISK, s2)" "view s2 = ?m" "fs_ok s2"
    using alloc_block_none [OF s1(2)] full s1(1) by auto
  have st: "st (slot ?m f i) ?v s2 = Inr ((), poke (slot ?m f i) ?v s2)"
    using slot_block(3) [OF inv i(1)] s2 by (intro st_ok) simp_all
  have "nblocks ?m \<le> unat ?v" using ok by (simp add: fs_ok_def fs_good_def jos_consts)
  moreover note slot_poke [OF s2(3), unfolded s2(2), OF inv i(1), of ?v]
  ultimately obtain s3 where "diskaddr ?v (poke (slot ?m f i) ?v s2) = Inl (Panic, s3)"
    using diskaddr_bad [of "poke (slot ?m f i) ?v s2" ?v] by (auto simp: fs_ok_def s2(2))
  then show ?thesis using s1(3) s2(1) st by simp
qed

end
