(* ===== verification/FsData.thy ===== *)
theory FsData
  imports FsFile
begin

text \<open>
  The contents of a file: what \<open>file_write\<close> stores, \<open>file_read\<close> returns, also when blocks have to be
  allocated and when the range crosses block boundaries.
\<close>

section \<open>Bytes of one block\<close>

lemma ld8_ok: "fs_ok s \<Longrightarrow> used (view s) (a div 4096) \<Longrightarrow> ld8 a s = Inr (get8 (view s) a, pull (a div 4096) s)"
proof -
  have "a div 4 div 1024 = a div 4096" by (simp add: div_mult2_eq [symmetric])
  then show "fs_ok s \<Longrightarrow> used (view s) (a div 4096) \<Longrightarrow> ld8 a s = Inr (get8 (view s) a, pull (a div 4096) s)"
    using ld_ok [of s "a div 4"] by (simp add: ld8_def get8_def)
qed

lemma ld_bytes_ok:
  assumes "fs_ok s" "used (view s) b" "4096 * b \<le> a" "a + n \<le> 4096 * b + 4096"
  shows "\<exists>s'. ld_bytes a n s = Inr (map (get8 (view s)) [a..<a + n], s') \<and> view s' = view s \<and> fs_ok s'"
  using assms
proof (induction n arbitrary: a s)
  case (Suc n)
  have d: "a div 4096 = b" using Suc.prems(3,4) by (intro div_nat_eqI) simp_all
  let ?s = "pull b s"
  from Suc.IH [of ?s "a + 1"] Suc.prems obtain s' where
    "ld_bytes (a + 1) n ?s = Inr (map (get8 (view s)) [a + 1..<a + 1 + n], s')" "view s' = view s" "fs_ok s'" by auto
  then show ?case using ld8_ok [of s a] Suc.prems(1,2) d by (simp add: upt_conv_Cons del: upt_Suc)
qed simp

text \<open>A store to a block that is neither the super block nor part of the bitmap.\<close>

lemma data_poke:
  assumes ok: "fs_ok s" and u: "used (view s) (w div 1024)" and nb: "w div 1024 \<noteq> 1" "\<not> bitmap_block (view s) (w div 1024)"
  shows "fs_ok (poke w v s)" "nblocks ((view s)(w := v)) = nblocks (view s)" "used ((view s)(w := v)) c = used (view s) c"
proof -
  let ?m = "(view s)(w := v)"
  have w: "w \<noteq> 1025" using nb(1) by auto
  then show n: "nblocks ?m = nblocks (view s)" by (simp add: nblocks_def)
  have "w \<noteq> bitmap_word c" if "c < nblocks (view s)" for c using nb(2) that by (auto simp: bitmap_block_def)
  then have "block_is_free c ?m = block_is_free c (view s)" for c
    by (cases "c < nblocks (view s)") (auto simp: block_is_free_def n)
  then have "used ?m c = used (view s) c" for c by (simp add: used_def n)
  then show "fs_ok (poke w v s)" "used ?m c = used (view s) c" using n by (auto intro!: fs_ok_poke [OF ok])
qed

lemma st8_ok:
  assumes "fs_ok s" "used (view s) (a div 4096)" "a div 4096 \<noteq> 1" "\<not> bitmap_block (view s) (a div 4096)"
  shows "\<exists>s'. st8 a b s = Inr ((), s') \<and> view s' = put8 a b (view s) \<and> fs_ok s'"
proof -
  have d: "a div 4 div 1024 = a div 4096" by (simp add: div_mult2_eq [symmetric])
  let ?s = "pull (a div 4096) s" and ?v = "set_byte (a mod 4) b (view s (a div 4))"
  have "st8 a b s = Inr ((), poke (a div 4) ?v ?s)"
    using ld_ok [of s "a div 4"] st_ok [of ?s "a div 4" ?v] assms d by (simp add: st8_def)
  moreover have "fs_ok (poke (a div 4) ?v ?s)" using assms d by (intro data_poke(1)) simp_all
  ultimately show ?thesis by (simp add: put8_def)
qed

lemma st_bytes_ok:
  assumes "fs_ok s" "used (view s) b" "b \<noteq> 1" "\<not> bitmap_block (view s) b" "4096 * b \<le> a" "a + length bs \<le> 4096 * b + 4096"
  shows "\<exists>s'. st_bytes a bs s = Inr ((), s') \<and> view s' = put_bytes a bs (view s) \<and> fs_ok s'"
  using assms
proof (induction bs arbitrary: a s)
  case (Cons x xs)
  have d: "a div 4096 = b" using Cons.prems(5,6) by (intro div_nat_eqI) simp_all
  obtain s1 where s1: "st8 a x s = Inr ((), s1)" "view s1 = put8 a x (view s)" "fs_ok s1"
    using st8_ok [of s a x] Cons.prems(1-4) d by auto
  have e: "a div 4 div 1024 = b" using d by (simp add: div_mult2_eq [symmetric])
  note dp = data_poke [OF Cons.prems(1), of "a div 4", unfolded e, OF Cons.prems(2-4), of "set_byte (a mod 4) x (view s (a div 4))"]
  have "used (view s1) b" "\<not> bitmap_block (view s1) b"
    using Cons.prems(2,4) dp(2,3) by (simp_all add: s1(2) put8_def bitmap_block_def)
  with Cons.IH [of s1 "a + 1"] Cons.prems s1 show ?case by auto
qed simp

section \<open>Positions as natural numbers\<close>

lemma sint_small: "p < 2 ^ 31 \<Longrightarrow> sint (of_nat p :: 32 word) = int p"
  by (simp add: sint_uint signed_take_bit_int_eq_self_iff uint_nat unat_of_nat)

lemma unat32_small: "p < 2 ^ 31 \<Longrightarrow> unat (of_nat p :: 32 word) = p"
  by (simp add: unat_of_nat)

lemma pos_block: "p < 2 ^ 31 \<Longrightarrow> (word_of_int (cdiv (sint (of_nat p :: 32 word)) 4096) :: 32 word) = of_nat (p div 4096)"
  using cdiv_nat [of p 4096] by (simp add: sint_small)

lemma pos_mod: "p < 2 ^ 31 \<Longrightarrow> cmod (sint (of_nat p :: 32 word)) 4096 = int (p mod 4096)"
  using cmod_nat [of p 4096] by (simp add: sint_small)

lemma byte_addr_nat: "p < 2 ^ 31 \<Longrightarrow> byte_addr blk (of_nat p) = 4 * blk + p mod 4096"
  by (simp add: byte_addr_def pos_mod nat_add_distrib)

definition chunk_len :: "nat \<Rightarrow> nat \<Rightarrow> nat" where
  "chunk_len p q = min (4096 - p mod 4096) (q - p)"

lemma chunk_nat:
  assumes "p < q" "q < 2 ^ 31"
  shows "chunk (of_nat p) (of_nat q) = of_nat (chunk_len p q)"
proof -
  have d: "(of_nat q - of_nat p :: 32 word) = of_nat (q - p)" using assms(1) by simp
  have l: "p mod 4096 \<le> 4096" by (simp add: less_imp_le)
  have "(word_of_int (4096 - int (p mod 4096)) :: 32 word) = of_nat (4096 - p mod 4096)"
    using l by (simp add: of_nat_diff)
  moreover have "(of_nat (4096 - p mod 4096) :: 32 word) \<le> of_nat (q - p) \<longleftrightarrow> 4096 - p mod 4096 \<le> q - p"
    using assms by (simp add: word_le_nat_alt unat32_small del: of_nat_diff)
  ultimately show ?thesis using assms
    unfolding chunk_def Let_def d by (simp add: pos_mod chunk_len_def min_def)
qed

lemma chunk_len_bounds:
  assumes "p < q"
  shows "0 < chunk_len p q" "p + chunk_len p q \<le> q" "p mod 4096 + chunk_len p q \<le> 4096"
    "p \<le> x \<Longrightarrow> x < p + chunk_len p q \<Longrightarrow> x div 4096 = p div 4096 \<and> x mod 4096 = p mod 4096 + (x - p)"
    "p + chunk_len p q < q \<Longrightarrow> (p + chunk_len p q) div 4096 = p div 4096 + 1"
proof -
  have m: "p mod 4096 < 4096" by simp
  show "0 < chunk_len p q" "p + chunk_len p q \<le> q" using assms m by (auto simp: chunk_len_def)
  show c: "p mod 4096 + chunk_len p q \<le> 4096" using m by (simp add: chunk_len_def)
  have e: "p = 4096 * (p div 4096) + p mod 4096" by simp
  show "x div 4096 = p div 4096 \<and> x mod 4096 = p mod 4096 + (x - p)" if "p \<le> x" "x < p + chunk_len p q"
  proof -
    have x: "x = 4096 * (p div 4096) + (p mod 4096 + (x - p))" "p mod 4096 + (x - p) < 4096" using that c e by linarith+
    then have "x div 4096 = p div 4096" by (metis div_mult_self2 div_less add.right_neutral zero_neq_numeral add.commute)
    moreover from this x have "x mod 4096 = p mod 4096 + (x - p)"
      by (metis add_left_cancel mult_div_mod_eq)
    ultimately show ?thesis by simp
  qed
  show "(p + chunk_len p q) div 4096 = p div 4096 + 1" if "p + chunk_len p q < q"
  proof -
    have "chunk_len p q = 4096 - p mod 4096" using that by (auto simp: chunk_len_def min_def split: if_splits)
    moreover obtain d r where dr: "d = p div 4096" "r = p mod 4096" by simp
    ultimately have "p + chunk_len p q = 4096 * (d + 1)" using m e unfolding dr(1) [symmetric] dr(2) [symmetric] by simp
    then show ?thesis by (simp add: dr)
  qed
qed

lemma chunk_range:
  assumes "p < q"
  shows "x div 4096 = p div 4096 \<and> p mod 4096 \<le> x mod 4096 \<and> x mod 4096 < p mod 4096 + chunk_len p q \<longleftrightarrow>
    p \<le> x \<and> x < p + chunk_len p q"
proof
  assume a: "x div 4096 = p div 4096 \<and> p mod 4096 \<le> x mod 4096 \<and> x mod 4096 < p mod 4096 + chunk_len p q"
  obtain d r r' where d: "d = p div 4096" "r = p mod 4096" "r' = x mod 4096" by simp
  have "x = d * 4096 + r'" "p = d * 4096 + r" using a d by (metis div_mult_mod_eq)+
  then show "p \<le> x \<and> x < p + chunk_len p q" using a unfolding d [symmetric] by simp
next
  assume a: "p \<le> x \<and> x < p + chunk_len p q"
  then have x: "x div 4096 = p div 4096" "x mod 4096 = p mod 4096 + (x - p)" using chunk_len_bounds(4) [OF assms, of x] by simp_all
  show "x div 4096 = p div 4096 \<and> p mod 4096 \<le> x mod 4096 \<and> x mod 4096 < p mod 4096 + chunk_len p q"
    using a unfolding x by (intro conjI refl le_add1) linarith
qed

definition fbyte :: "(nat \<Rightarrow> 32 word) \<Rightarrow> nat \<Rightarrow> nat \<Rightarrow> 8 word" where
  "fbyte m f x = get8 m (4096 * fblock m f (x div 4096) + x mod 4096)"

lemma chunk_bytes:
  assumes "p < q"
  shows "map (get8 m) [4096 * fblock m f (p div 4096) + p mod 4096..<4096 * fblock m f (p div 4096) + p mod 4096 + chunk_len p q]
    = map (fbyte m f) [p..<p + chunk_len p q]"
proof (rule nth_equalityI)
  fix k assume "k < length (map (get8 m) [4096 * fblock m f (p div 4096) + p mod 4096..<
    4096 * fblock m f (p div 4096) + p mod 4096 + chunk_len p q])"
  then have k: "k < chunk_len p q" by simp
  then have "(p + k) div 4096 = p div 4096" "(p + k) mod 4096 = p mod 4096 + k"
    using chunk_len_bounds(4) [OF assms, of "p + k"] by simp_all
  then show "map (get8 m) [4096 * fblock m f (p div 4096) + p mod 4096..<
      4096 * fblock m f (p div 4096) + p mod 4096 + chunk_len p q] ! k = map (fbyte m f) [p..<p + chunk_len p q] ! k"
    using k by (simp add: fbyte_def add.assoc)
qed simp

section \<open>Reading\<close>

lemma read_loop_ok:
  assumes "fs_ok s" "file_inv (view s) f N" "p \<le> q" "q \<le> 4096 * N" "\<forall>x. p \<le> x \<longrightarrow> x < q \<longrightarrow> fblock (view s) f (x div 4096) \<noteq> 0"
  shows "\<exists>s'. read_loop f (of_nat p) (of_nat q) s = Inr ((None, map (fbyte (view s) f) [p..<q]), s') \<and> view s' = view s \<and> fs_ok s'"
  using assms
proof (induction "q - p" arbitrary: p s rule: less_induct)
  case less
  let ?m = "view s"
  have N: "4096 * N \<le> 4096 * 1034" using file_invD(1) [OF less.prems(2)] by simp
  then have q: "q < 2 ^ 31" using less.prems(4) by simp
  show ?case
  proof (cases "p < q")
    case False
    then show ?thesis using less.prems by (simp add: read_loop.simps)
  next
    case True
    let ?i = "p div 4096" and ?c = "chunk_len p q" and ?b = "fblock ?m f (p div 4096)"
    note cb = chunk_len_bounds [OF True]
    have p: "p < 2 ^ 31" using True q by simp
    have i: "?i < N" using True less.prems(4) by (simp add: less_mult_imp_div_less mult.commute)
    have b: "?b \<noteq> 0" using less.prems(5) True by simp
    obtain s1 where s1: "file_get_block f (of_nat ?i) s = Inr (Inr (1024 * ?b), s1)" "view s1 = ?m" "fs_ok s1"
      using get_block_present [OF less.prems(1,2) i b] by blast
    let ?a = "4096 * ?b + p mod 4096"
    obtain s2 where s2: "ld_bytes ?a ?c s1 = Inr (map (get8 ?m) [?a..<?a + ?c], s2)" "view s2 = ?m" "fs_ok s2"
      using ld_bytes_ok [OF s1(3), of ?b ?a ?c] file_invD(10) [OF less.prems(2) i b] cb(3) s1(2) by auto
    have bytes: "map (get8 ?m) [?a..<?a + ?c] = map (fbyte ?m f) [p..<p + ?c]" by (rule chunk_bytes [OF True])
    have "q - (p + ?c) < q - p" using cb(1) True by simp
    moreover have "\<forall>x. p + ?c \<le> x \<longrightarrow> x < q \<longrightarrow> fblock ?m f (x div 4096) \<noteq> 0"
      using less.prems(5) add_leD1 by blast
    ultimately obtain s3 where
      s3: "read_loop f (of_nat (p + ?c)) (of_nat q) s2 = Inr ((None, map (fbyte ?m f) [p + ?c..<q]), s3)" "view s3 = ?m" "fs_ok s3"
      using less.hyps [of "p + ?c" s2] s2(2,3) less.prems(2,4) cb(2) by metis
    have lt: "(of_nat p :: 32 word) < of_nat q" using True p q by (simp add: word_less_nat_alt unat32_small)
    have u: "unat (of_nat ?c :: 32 word) = ?c" using cb(2) q by (intro unat32_small) simp
    have app: "map (fbyte ?m f) [p..<p + ?c] @ map (fbyte ?m f) [p + ?c..<q] = map (fbyte ?m f) [p..<q]"
      using upt_add_eq_append [of p "p + ?c" "q - (p + ?c)"] cb(2) by simp
    have "read_loop f (of_nat p) (of_nat q) s = Inr ((None, map (fbyte ?m f) [p..<q]), s3)"
      using lt s1(1) s2(1) s3(1) unfolding read_loop.simps [of f "of_nat p"] pos_block [OF p] chunk_nat [OF True q] byte_addr_nat [OF p]
      by (simp add: u bytes app)
    then show ?thesis using s3 by auto
  qed
qed

section \<open>Writing\<close>

definition free_blocks :: "(nat \<Rightarrow> 32 word) \<Rightarrow> nat set" where
  "free_blocks m = {b. block_is_free b m}"

lemma finite_free [simp]: "finite (free_blocks m)"
  by (rule finite_subset [of _ "{..<nblocks m}"]) (auto simp: free_blocks_def block_is_free_def)

text \<open>
  How the memory \<open>m'\<close> after an access to block \<open>i\<close> of the file relates to \<open>m\<close>: the block is there,
  the other blocks are where they were, and at most one block was taken from the disk.
\<close>

definition got_block :: "nat \<Rightarrow> nat \<Rightarrow> nat \<Rightarrow> (nat \<Rightarrow> 32 word) \<Rightarrow> (nat \<Rightarrow> 32 word) \<Rightarrow> bool" where
  "got_block f N i m m' \<longleftrightarrow> file_inv m' f N \<and> fblock m' f i \<noteq> 0 \<and> m' (f + 32) = m (f + 32) \<and>
     (\<forall>j<N. fblock m f j \<noteq> 0 \<longrightarrow> fblock m' f j = fblock m f j) \<and> card (free_blocks m) \<le> card (free_blocks m') + 1 \<and>
     (\<forall>x<4096 * N. fblock m f (x div 4096) \<noteq> 0 \<longrightarrow> fbyte m' f x = fbyte m f x)"

lemma get_block_any:
  assumes ok: "fs_ok s" and inv: "file_inv (view s) f N" and i: "i < N" and free: "free_blocks (view s) \<noteq> {}"
  shows "\<exists>s'. file_get_block f (of_nat i) s = Inr (Inr (1024 * fblock (view s') f i), s') \<and> fs_ok s' \<and> got_block f N i (view s) (view s')"
proof (cases "fblock (view s) f i = 0")
  case False
  then show ?thesis using get_block_present [OF ok inv i] inv by (auto simp: got_block_def)
next
  case True
  let ?m = "view s"
  have "\<exists>b. block_is_free b ?m" using free by (auto simp: free_blocks_def)
  from get_block_alloc [OF ok inv i True this] obtain b s' where b: "block_is_free b ?m"
    "file_get_block f (of_nat i) s = Inr (Inr (1024 * b), s')" "view s' = fill_slot f i b ?m" "fs_ok s'" by blast
  note facts = fill_slot_facts [OF inv i True b(1) meta_used [OF ok inv], folded b(3)]
  have b0: "b \<noteq> 0" using b(1) file_invD(3) [OF inv] by metis
  have "free_blocks (view s') = free_blocks ?m - {b}" by (auto simp: free_blocks_def facts(2))
  moreover have "fbyte (view s') f x = fbyte ?m f x" if x: "x < 4096 * N" "fblock ?m f (x div 4096) \<noteq> 0" for x
  proof -
    let ?j = "x div 4096"
    have j: "?j < N" using x(1) by (simp add: less_mult_imp_div_less mult.commute)
    have w: "(4096 * fblock ?m f ?j + x mod 4096) div 4 div 1024 = fblock ?m f ?j"
      by (simp add: div_mult2_eq [symmetric])
    then have "view s' ((4096 * fblock ?m f ?j + x mod 4096) div 4) = ?m ((4096 * fblock ?m f ?j + x mod 4096) div 4)"
      using facts(7) file_invD(11) [OF inv j x(2)] by metis
    moreover have "fblock (view s') f ?j = fblock ?m f ?j" using facts(4) [OF j] x(2) True by auto
    ultimately show ?thesis by (simp add: fbyte_def get8_def)
  qed
  ultimately have "got_block f N i ?m (view s')"
    using facts(4,6,9) b0 i True b(1) by (auto simp: got_block_def card_Diff_singleton_if free_blocks_def)
  then show ?thesis using b facts(4) [OF i] by auto
qed

text \<open>Storing a chunk in a block of the file.\<close>

lemma store_chunk:
  assumes ok: "fs_ok s" and inv: "file_inv (view s) f N" and i: "i < N" "fblock (view s) f i \<noteq> 0"
    and r: "r + length bs \<le> 4096"
  shows "\<exists>s'. st_bytes (4096 * fblock (view s) f i + r) bs s = Inr ((), s') \<and> fs_ok s' \<and> file_inv (view s') f N \<and>
    view s' (f + 32) = view s (f + 32) \<and> free_blocks (view s') = free_blocks (view s) \<and>
    (\<forall>j<N. fblock (view s') f j = fblock (view s) f j) \<and>
    (\<forall>x<4096 * N. fblock (view s) f (x div 4096) \<noteq> 0 \<longrightarrow> fbyte (view s') f x =
       (if x div 4096 = i \<and> r \<le> x mod 4096 \<and> x mod 4096 < r + length bs then bs ! (x mod 4096 - r) else fbyte (view s) f x))"
proof -
  let ?m = "view s" and ?b = "fblock (view s) f i"
  have meta: "\<not> meta_block ?m f N ?b" by (rule file_invD(11) [OF inv i])
  obtain s' where s': "st_bytes (4096 * ?b + r) bs s = Inr ((), s')" "view s' = put_bytes (4096 * ?b + r) bs ?m" "fs_ok s'"
    using st_bytes_ok [OF ok file_invD(10) [OF inv i], of "4096 * ?b + r" bs] meta r by (auto simp: meta_block_def)
  have "w div 1024 = ?b" if ch: "view s' w \<noteq> ?m w" for w
  proof -
    obtain x where "4096 * ?b + r \<le> x" "x < 4096 * ?b + r + length bs" "w = x div 4"
      using put_bytes_words [OF ch [unfolded s'(2)]] by blast
    then have "x div 4096 = ?b" using r by (intro div_nat_eqI) simp_all
    then show ?thesis using \<open>w = x div 4\<close> by (simp add: div_mult2_eq [symmetric])
  qed
  then have ch: "\<forall>w. view s' w \<noteq> ?m w \<longrightarrow> \<not> meta_block ?m f N (w div 1024)" using meta by metis
  note same = meta_same [OF inv ch]
  have "fbyte (view s') f x = (if x div 4096 = i \<and> r \<le> x mod 4096 \<and> x mod 4096 < r + length bs then bs ! (x mod 4096 - r)
      else fbyte ?m f x)" if x: "x < 4096 * N" "fblock ?m f (x div 4096) \<noteq> 0" for x
  proof -
    let ?j = "x div 4096"
    have j: "?j < N" using x(1) by (simp add: less_mult_imp_div_less mult.commute)
    have "?j = i" if "4096 * ?b + r \<le> 4096 * fblock ?m f ?j + x mod 4096" "4096 * fblock ?m f ?j + x mod 4096 < 4096 * ?b + r + length bs"
    proof -
      have "(4096 * fblock ?m f ?j + x mod 4096) div 4096 = ?b" using that r by (intro div_nat_eqI) simp_all
      then have "fblock ?m f ?j = ?b" by simp
      then show ?thesis using file_invD(12) [OF inv j i(1)] x(2) by simp
    qed
    then show ?thesis using same(6) [OF j] by (auto simp: fbyte_def s'(2) get8_put_bytes)
  qed
  then show ?thesis using s'(1,3) same(2,6,8) same(4) [of 32] by (intro exI [of _ s']) (simp add: free_blocks_def)
qed

text \<open>The number of blocks that the range touches.\<close>

definition span :: "nat \<Rightarrow> nat \<Rightarrow> nat" where
  "span p q = (if p < q then (q - 1) div 4096 - p div 4096 + 1 else 0)"

lemma span_step: "p < q \<Longrightarrow> span p q = span (p + chunk_len p q) q + 1"
proof (cases "p + chunk_len p q < q")
  case True
  assume "p < q"
  note c = chunk_len_bounds(5) [OF \<open>p < q\<close> True]
  have "(p + chunk_len p q) div 4096 \<le> (q - 1) div 4096" using True by (intro div_le_mono) simp
  then show ?thesis using True \<open>p < q\<close> c by (simp add: span_def Suc_diff_Suc Suc_le_eq)
next
  case False
  assume pq: "p < q"
  then have "q - 1 < p + chunk_len p q" "p \<le> q - 1" using False by simp_all
  then have "(q - 1) div 4096 = p div 4096" using chunk_len_bounds(4) [OF pq] by blast
  then show ?thesis using False pq by (simp add: span_def)
qed

text \<open>The memory \<open>m'\<close> after writing \<open>buf\<close> at position \<open>p\<close> of the file.\<close>

definition written :: "nat \<Rightarrow> nat \<Rightarrow> nat \<Rightarrow> 8 word list \<Rightarrow> (nat \<Rightarrow> 32 word) \<Rightarrow> (nat \<Rightarrow> 32 word) \<Rightarrow> bool" where
  "written f N p buf m m' \<longleftrightarrow> file_inv m' f N \<and> m' (f + 32) = m (f + 32) \<and>
     (\<forall>x<4096 * N. p \<le> x \<and> x < p + length buf \<longrightarrow> fblock m' f (x div 4096) \<noteq> 0 \<and> fbyte m' f x = buf ! (x - p)) \<and>
     (\<forall>x<4096 * N. \<not> (p \<le> x \<and> x < p + length buf) \<longrightarrow> fblock m f (x div 4096) \<noteq> 0 \<longrightarrow>
        fblock m' f (x div 4096) \<noteq> 0 \<and> fbyte m' f x = fbyte m f x)"

lemma written_chunk:
  assumes pq: "p < q" "q \<le> 4096 * N" "length buf = q - p" and got: "got_block f N (p div 4096) m m1"
    and c: "c = chunk_len p q" and m2: "file_inv m2 f N" "m2 (f + 32) = m1 (f + 32)" "\<forall>j<N. fblock m2 f j = fblock m1 f j"
      "\<forall>x<4096 * N. fblock m1 f (x div 4096) \<noteq> 0 \<longrightarrow> fbyte m2 f x =
       (if x div 4096 = p div 4096 \<and> p mod 4096 \<le> x mod 4096 \<and> x mod 4096 < p mod 4096 + length (take c buf)
        then take c buf ! (x mod 4096 - p mod 4096) else fbyte m1 f x)"
    and rest: "written f N (p + c) (drop c buf) m2 m3"
  shows "written f N p buf m m3"
proof -
  note cb = chunk_len_bounds [OF pq(1), folded c]
  have len: "length (take c buf) = c" using cb(2) pq(3) by simp
  have inblk: "x div 4096 = p div 4096 \<and> p mod 4096 \<le> x mod 4096 \<and> x mod 4096 < p mod 4096 + c \<longleftrightarrow> p \<le> x \<and> x < p + c" for x
    unfolding c by (rule chunk_range [OF pq(1)])
  have new: "fblock m2 f (x div 4096) \<noteq> 0 \<and> fbyte m2 f x = buf ! (x - p)" if "x < 4096 * N" "p \<le> x" "x < p + c" for x
  proof -
    have j: "x div 4096 = p div 4096" "x mod 4096 - p mod 4096 = x - p" using cb(4) [OF that(2,3)] by auto
    have N: "x div 4096 < N" using that(1) by (simp add: less_mult_imp_div_less mult.commute)
    then have "fblock m1 f (x div 4096) \<noteq> 0" using got j(1) by (simp add: got_block_def)
    then have "fblock m2 f (x div 4096) \<noteq> 0" "fbyte m2 f x = take c buf ! (x - p)" using m2(3,4) N that inblk [of x] len j by auto
    moreover have "take c buf ! (x - p) = buf ! (x - p)" using that(2,3) by (intro nth_take) linarith
    ultimately show ?thesis by (metis (no_types))
  qed
  have old: "fblock m2 f (x div 4096) \<noteq> 0 \<and> fbyte m2 f x = fbyte m f x"
    if x: "x < 4096 * N" "\<not> (p \<le> x \<and> x < p + c)" "fblock m f (x div 4096) \<noteq> 0" for x
  proof -
    have N: "x div 4096 < N" using x(1) by (simp add: less_mult_imp_div_less mult.commute)
    have b: "fblock m1 f (x div 4096) = fblock m f (x div 4096)" "fbyte m1 f x = fbyte m f x"
      using got x(1,3) N by (auto simp: got_block_def)
    have "fbyte m2 f x = fbyte m1 f x" using m2(4) x b(1) inblk [of x] len by auto
    then show ?thesis using b m2(3) N x(3) by simp
  qed
  have len': "p + c + length (drop c buf) = p + length buf" using cb(2) pq(3) by simp
  have after: "fblock m3 f (x div 4096) \<noteq> 0 \<and> fbyte m3 f x = drop c buf ! (x - (p + c))"
    if "x < 4096 * N" "p + c \<le> x" "x < p + length buf" for x
    using rest that unfolding written_def len' by blast
  have other: "fblock m3 f (x div 4096) \<noteq> 0 \<and> fbyte m3 f x = fbyte m2 f x"
    if "x < 4096 * N" "\<not> (p + c \<le> x \<and> x < p + length buf)" "fblock m2 f (x div 4096) \<noteq> 0" for x
    using rest that unfolding written_def len' by blast
  have 1: "fblock m3 f (x div 4096) \<noteq> 0 \<and> fbyte m3 f x = buf ! (x - p)"
    if x: "x < 4096 * N" "p \<le> x" "x < p + length buf" for x
  proof (cases "x < p + c")
    case True
    then show ?thesis using other [OF x(1)] new [OF x(1,2) True] by simp
  next
    case False
    then have "drop c buf ! (x - (p + c)) = buf ! (x - p)" using cb(2) pq(3) by (subst nth_drop) auto
    then show ?thesis using after [OF x(1)] False x(3) by simp
  qed
  have 2: "fblock m3 f (x div 4096) \<noteq> 0 \<and> fbyte m3 f x = fbyte m f x"
    if x: "x < 4096 * N" "\<not> (p \<le> x \<and> x < p + length buf)" "fblock m f (x div 4096) \<noteq> 0" for x
  proof -
    have "\<not> (p \<le> x \<and> x < p + c)" "\<not> (p + c \<le> x \<and> x < p + length buf)" using x(2) cb(2) pq(3) by auto
    then show ?thesis using old [OF x(1) _ x(3)] other [OF x(1)] by simp
  qed
  have "file_inv m3 f N" "m3 (f + 32) = m (f + 32)" using rest m2(2) got by (simp_all add: written_def got_block_def)
  then show ?thesis unfolding written_def using 1 2 by blast
qed

lemma write_loop_ok:
  assumes "fs_ok s" "file_inv (view s) f N" "p \<le> q" "q \<le> 4096 * N" "length buf = q - p" "span p q \<le> card (free_blocks (view s))"
  shows "\<exists>s'. write_loop f buf (of_nat p) (of_nat q) s = Inr (None, s') \<and> fs_ok s' \<and> written f N p buf (view s) (view s')"
  using assms
proof (induction "q - p" arbitrary: p s buf rule: less_induct)
  case less
  let ?m = "view s"
  have N: "4096 * N \<le> 4096 * 1034" using file_invD(1) [OF less.prems(2)] by simp
  then have q: "q < 2 ^ 31" using less.prems(4) by simp
  show ?case
  proof (cases "p < q")
    case False
    then show ?thesis using less.prems by (auto simp: write_loop.simps written_def)
  next
    case True
    let ?i = "p div 4096" and ?c = "chunk_len p q"
    note cb = chunk_len_bounds [OF True]
    have p: "p < 2 ^ 31" using True q by simp
    have i: "?i < N" using True less.prems(4) by (simp add: less_mult_imp_div_less mult.commute)
    have "free_blocks ?m \<noteq> {}" using less.prems(6) span_step [OF True] by auto
    then obtain s1 where s1: "file_get_block f (of_nat ?i) s = Inr (Inr (1024 * fblock (view s1) f ?i), s1)" "fs_ok s1"
      "got_block f N ?i ?m (view s1)"
      using get_block_any [OF less.prems(1,2) i] by blast
    have m1: "file_inv (view s1) f N" "fblock (view s1) f ?i \<noteq> 0" "card (free_blocks ?m) \<le> card (free_blocks (view s1)) + 1"
      using s1(3) by (simp_all add: got_block_def)
    have "p mod 4096 + length (take ?c buf) \<le> 4096" using cb(3) by simp
    from store_chunk [OF s1(2) m1(1) i m1(2) this] obtain s2 where
      s2: "st_bytes (4096 * fblock (view s1) f ?i + p mod 4096) (take ?c buf) s1 = Inr ((), s2)" "fs_ok s2" "file_inv (view s2) f N"
      "view s2 (f + 32) = view s1 (f + 32)" "free_blocks (view s2) = free_blocks (view s1)"
      "\<forall>j<N. fblock (view s2) f j = fblock (view s1) f j"
      "\<forall>x<4096 * N. fblock (view s1) f (x div 4096) \<noteq> 0 \<longrightarrow> fbyte (view s2) f x =
       (if x div 4096 = ?i \<and> p mod 4096 \<le> x mod 4096 \<and> x mod 4096 < p mod 4096 + length (take ?c buf)
        then take ?c buf ! (x mod 4096 - p mod 4096) else fbyte (view s1) f x)" by blast
    have "q - (p + ?c) < q - p" "length (drop ?c buf) = q - (p + ?c)" "span (p + ?c) q \<le> card (free_blocks (view s2))"
      using cb(1) True less.prems(5,6) span_step [OF True] m1(3) s2(5) by simp_all
    from less.hyps [OF this(1) s2(2,3) cb(2) less.prems(4) this(2,3)] obtain s3 where
      s3: "write_loop f (drop ?c buf) (of_nat (p + ?c)) (of_nat q) s2 = Inr (None, s3)" "fs_ok s3"
      "written f N (p + ?c) (drop ?c buf) (view s2) (view s3)" by blast
    have lt: "(of_nat p :: 32 word) < of_nat q" using True p q by (simp add: word_less_nat_alt unat32_small)
    have u: "unat (of_nat ?c :: 32 word) = ?c" using cb(2) q by (intro unat32_small) simp
    have "write_loop f buf (of_nat p) (of_nat q) s = Inr (None, s3)"
      using lt s1(1) s2(1) s3(1) unfolding write_loop.simps [of f buf] pos_block [OF p] chunk_nat [OF True q] byte_addr_nat [OF p]
      by (simp add: u)
    then show ?thesis
      using written_chunk [OF True less.prems(4,5) s1(3) refl s2(3,4,6,7) s3(3)] s3(2) by blast
  qed
qed

section \<open>The size of the file\<close>

lemma size_poke:
  fixes v :: "32 word"
  assumes ok: "fs_ok s" and inv: "file_inv (view s) f N"
  defines "m' \<equiv> (view s)(f + 32 := v)"
  shows "fs_ok (poke (f + 32) v s)" "file_inv m' f N" "free_blocks m' = free_blocks (view s)" "nblocks m' = nblocks (view s)"
    "i < N \<Longrightarrow> fblock m' f i = fblock (view s) f i" "x < 4096 * N \<Longrightarrow> fblock (view s) f (x div 4096) \<noteq> 0 \<Longrightarrow> fbyte m' f x = fbyte (view s) f x"
proof -
  let ?m = "view s"
  have d: "(f + 32) div 1024 = f div 1024" by (rule in_struct [OF inv]) simp
  have sup: "f + 32 \<noteq> 1025"
  proof
    assume a: "f + 32 = 1025"
    with d have "f div 1024 = 1" by simp
    then have "1024 \<le> f" by (cases "f < 1024") auto
    with a show False by simp
  qed
  then show nb: "nblocks m' = nblocks ?m" by (simp add: nblocks_def m'_def)
  have "bitmap_word c \<noteq> f + 32" if "c < nblocks ?m" for c
    using file_invD(4) [OF inv] d that by (metis bitmap_block_def)
  then have fr: "block_is_free c m' = block_is_free c ?m" for c
    by (cases "c < nblocks ?m") (auto simp: block_is_free_def nb, auto simp: m'_def)
  then have us: "used m' c = used ?m c" for c by (simp add: used_def nb)
  show "fs_ok (poke (f + 32) v s)" using nb us by (intro fs_ok_poke [OF ok]) (simp_all add: m'_def)
  show "free_blocks m' = free_blocks ?m" by (simp add: free_blocks_def fr)
  have ind: "m' (f + 44) = ?m (f + 44)" by (simp add: m'_def)
  then have sl: "slot m' f = slot ?m f" by (simp add: fun_eq_iff slot_def)
  have fb: "fblock m' f i = fblock ?m f i" if "i < N" for i
  proof -
    have "slot ?m f i \<noteq> f + 32"
      using slot_block(1) [OF inv that] d file_invD(8) [OF inv] that by (cases "i < 10") (auto simp: slot_def)
    then show ?thesis unfolding fblock_def sl by (simp add: m'_def)
  qed
  then show "i < N \<Longrightarrow> fblock m' f i = fblock ?m f i" .
  have bb: "bitmap_block m' = bitmap_block ?m" by (auto simp: fun_eq_iff bitmap_block_def nb)
  then have mb: "meta_block m' f N = meta_block ?m f N" by (auto simp: fun_eq_iff meta_block_def ind)
  show "file_inv m' f N" using inv unfolding file_inv_def ind bb mb us fr by (auto simp: fb)
  show "fbyte m' f x = fbyte ?m f x" if x: "x < 4096 * N" "fblock ?m f (x div 4096) \<noteq> 0"
  proof -
    have j: "x div 4096 < N" using x(1) by (simp add: less_mult_imp_div_less mult.commute)
    have "(4096 * fblock ?m f (x div 4096) + x mod 4096) div 4 div 1024 = fblock ?m f (x div 4096)"
      by (simp add: div_mult2_eq [symmetric])
    then have "(4096 * fblock ?m f (x div 4096) + x mod 4096) div 4 \<noteq> f + 32"
      using file_invD(11) [OF inv j x(2)] d by (auto simp: meta_block_def)
    then show ?thesis unfolding fbyte_def fb [OF j] get8_def by (simp add: m'_def)
  qed
qed

text \<open>The first step of a write: growing the file to \<open>q\<close> bytes if it is smaller.\<close>

lemma extend_ok:
  assumes ok: "fs_ok s" and inv: "file_inv (view s) f N" and q: "q < 2 ^ 31" and sz: "unat (view s (f + 32)) < 2 ^ 31"
  shows "\<exists>s'. bindS (ld (f_size f) s) (\<lambda>size s. if of_nat q > size then file_set_size f (of_nat q) s else Inr (0, s)) = Inr (0, s') \<and>
    fs_ok s' \<and> file_inv (view s') f N \<and> unat (view s' (f + 32)) = max (unat (view s (f + 32))) q \<and>
    free_blocks (view s') = free_blocks (view s) \<and> (\<forall>x<4096 * N. fblock (view s) f (x div 4096) \<noteq> 0 \<longrightarrow>
      fblock (view s') f (x div 4096) \<noteq> 0 \<and> fbyte (view s') f x = fbyte (view s) f x)"
proof -
  let ?m = "view s" and ?sz = "view s (f + 32)" and ?s1 = "pull (f div 1024) s"
  have d: "(f + 32) div 1024 = f div 1024" by (rule in_struct [OF inv]) simp
  have u: "used ?m ((f + 32) div 1024)" using file_invD(2) [OF inv] d by simp
  have ld: "ld (f_size f) t = Inr (?sz, pull (f div 1024) t)" if "fs_ok t" "view t = ?m" for t
    using ld_ok [OF that(1), of "f + 32"] u that(2) d by (simp add: f_size_def)
  have uq: "unat (of_nat q :: 32 word) = q" using q by (rule unat32_small)
  show ?thesis
  proof (cases "of_nat q > ?sz")
    case False
    then have "max (unat ?sz) q = unat ?sz" using uq by (simp add: word_less_nat_alt)
    then show ?thesis using False ld [OF ok] ok inv by auto
  next
    case True
    let ?s2 = "pull (f div 1024) ?s1" and ?s3 = "poke (f + 32) (of_nat q) (pull (f div 1024) ?s1)"
    have inv2: "file_inv (view ?s2) f N" "fs_ok ?s2" using inv ok by simp_all
    note sp = size_poke [where v = "of_nat q", OF inv2(2,1), unfolded pull_simps]
    have v3: "view ?s3 = ?m(f + 32 := of_nat q)" by simp
    have st: "st (f_size f) (of_nat q) ?s2 = Inr ((), ?s3)"
      using st_ok [OF inv2(2), of "f + 32"] u by (simp add: f_size_def)
    have "f div 1024 < nblocks (view ?s3)" using file_invD(2) [OF inv] unfolding v3 sp(4) by (simp add: used_def)
    then obtain s4 where s4: "flush_block f ?s3 = Inr ((), s4)" "view s4 = view ?s3" "bc_inv s4" "io_fails s4 = io_fails ?s3"
      using flush_block_spec [of ?s3 f] sp(1) by (auto simp: fs_ok_def)
    have ok4: "fs_ok s4" using s4 sp(1) fs_good_view [of s4 "view ?s3" ?s3] by (simp add: fs_ok_def)
    have "sint ?sz = int (unat ?sz)" using sint_small [OF sz] by simp
    then have "\<not> sint ?sz > sint (of_nat q :: 32 word)"
      using True [unfolded word_less_nat_alt uq] unfolding sint_small [OF q] by linarith
    then have "file_set_size f (of_nat q) ?s1 = Inr (0, s4)"
      using ld [of ?s1] ok st s4(1) by (simp add: file_set_size_def)
    moreover have "unat (of_nat q :: 32 word) = max (unat ?sz) q" using True uq by (simp add: word_less_nat_alt)
    ultimately show ?thesis using ld [OF ok] True ok4 sp(2,3,5,6) uq s4(2) unfolding v3
      by (intro exI [of _ s4]) (auto simp: less_mult_imp_div_less mult.commute)
  qed
qed

lemma file_read_ok:
  assumes ok: "fs_ok s" and inv: "file_inv (view s) f N" and q: "off + n \<le> 4096 * N"
    and sz: "off + n \<le> unat (view s (f_size f))" "unat (view s (f_size f)) < 2 ^ 31"
    and bl: "\<forall>x. off \<le> x \<longrightarrow> x < off + n \<longrightarrow> fblock (view s) f (x div 4096) \<noteq> 0"
  shows "\<exists>s'. file_read f (of_nat n) (of_nat off) s = Inr ((int n, map (fbyte (view s) f) [off..<off + n]), s')"
proof -
  let ?m = "view s" and ?sz = "view s (f_size f)" and ?s = "pull (f div 1024) s"
  have "(f + 32) div 1024 = f div 1024" by (rule in_struct [OF inv]) simp
  then have ld: "ld (f_size f) s = Inr (?sz, ?s)" using ld_ok [OF ok, of "f + 32"] file_invD(2) [OF inv] by (simp add: f_size_def)
  have small: "off + n < 2 ^ 31" "off < 2 ^ 31" "n < 2 ^ 31" using sz by linarith+
  note so = sint_small [OF small(2)] and sn = sint_small [OF small(3)]
  have "sint ?sz = int (unat ?sz)" using sint_small [OF sz(2)] by simp
  then have cmp: "sint ?sz \<le> sint (of_nat off :: 32 word) \<longleftrightarrow> unat ?sz \<le> off" by (simp only: so of_nat_le_iff)
  show ?thesis
  proof (cases "unat ?sz \<le> off")
    case True
    then have "n = 0" using sz(1) by simp
    then show ?thesis using True by (simp add: file_read_def ld cmp)
  next
    case False
    have "unat (?sz - of_nat off) = unat ?sz - off"
      using unat_sub [of "of_nat off" ?sz] False by (simp add: word_le_nat_alt unat32_small [OF small(2)])
    then have c: "(of_nat n :: 32 word) \<le> ?sz - of_nat off" using sz(1) by (simp add: word_le_nat_alt unat32_small [OF small(3)])
    obtain s' where "read_loop f (of_nat off) (of_nat (off + n)) ?s = Inr ((None, map (fbyte ?m f) [off..<off + n]), s')"
      using read_loop_ok [of ?s f N off "off + n"] ok inv q bl by auto
    then have "file_read f (of_nat n) (of_nat off) s = Inr ((int n, map (fbyte ?m f) [off..<off + n]), s')"
      using False c by (simp add: file_read_def ld cmp sn)
    then show ?thesis by blast
  qed
qed

lemma file_write_ok:
  assumes "fs_good s" "bc_inv s" "file_inv (view s) f N" "off + length buf \<le> 4096 * N"
    "unat (view s (f_size f)) < 2 ^ 31" "span off (off + length buf) \<le> card (free_blocks (view s))"
  shows "\<exists>s'. file_write f buf (of_nat off) s = Inr (int (length buf), s') \<and> fs_good s' \<and> bc_inv s' \<and> file_inv (view s') f N \<and>
    unat (view s' (f_size f)) = max (unat (view s (f_size f))) (off + length buf) \<and>
    (\<forall>x<4096 * N. \<not> (off \<le> x \<and> x < off + length buf) \<longrightarrow> fblock (view s) f (x div 4096) \<noteq> 0 \<longrightarrow>
       fbyte (view s') f x = fbyte (view s) f x) \<and>
    (\<forall>x. off \<le> x \<longrightarrow> x < off + length buf \<longrightarrow> fblock (view s') f (x div 4096) \<noteq> 0) \<and>
    map (fbyte (view s') f) [off..<off + length buf] = buf"
proof -
  let ?m = "view s" and ?q = "off + length buf"
  have ok: "fs_ok s" using assms(1,2) by (simp add: fs_ok_def)
  have N: "4096 * N \<le> 4096 * 1034" using file_invD(1) [OF assms(3)] by simp
  have q: "?q < 2 ^ 31" using assms(4) N by simp
  have sz: "unat (?m (f + 32)) < 2 ^ 31" using assms(5) by (simp add: f_size_def)
  obtain s1 where s1: "bindS (ld (f_size f) s) (\<lambda>size s. if of_nat ?q > size then file_set_size f (of_nat ?q) s else Inr (0, s)) = Inr (0, s1)"
    "fs_ok s1" "file_inv (view s1) f N" "unat (view s1 (f + 32)) = max (unat (?m (f + 32))) ?q"
    "free_blocks (view s1) = free_blocks ?m" "\<forall>x<4096 * N. fblock ?m f (x div 4096) \<noteq> 0 \<longrightarrow>
      fblock (view s1) f (x div 4096) \<noteq> 0 \<and> fbyte (view s1) f x = fbyte ?m f x"
    using extend_ok [OF ok assms(3) q sz] by blast
  obtain s2 where s2: "write_loop f buf (of_nat off) (of_nat ?q) s1 = Inr (None, s2)" "fs_ok s2" "written f N off buf (view s1) (view s2)"
    using write_loop_ok [OF s1(2,3) _ assms(4), of off buf] assms(6) s1(5) by auto
  have c: "(of_nat off + of_nat (length buf) :: 32 word) = of_nat ?q" by simp
  have "file_write f buf (of_nat off) s = bindS (bindS (ld (f_size f) s)
      (\<lambda>size s. if of_nat ?q > size then file_set_size f (of_nat ?q) s else Inr (0, s))) (\<lambda>r s.
        if r < 0 then Inr (r, s) else bindS (write_loop f buf (of_nat off) (of_nat ?q) s) (\<lambda>r s.
          Inr (case r of Some e \<Rightarrow> e | None \<Rightarrow> sint (of_nat (length buf) :: 32 word), s)))"
    by (simp only: file_write_def Let_def c bindS_bindS)
  then have w: "file_write f buf (of_nat off) s = Inr (int (length buf), s2)"
    using s2(1) sint_small [of "length buf"] q unfolding s1(1) by simp
  have m2: "file_inv (view s2) f N" "view s2 (f + 32) = view s1 (f + 32)"
    "\<forall>x<4096 * N. off \<le> x \<and> x < ?q \<longrightarrow> fblock (view s2) f (x div 4096) \<noteq> 0 \<and> fbyte (view s2) f x = buf ! (x - off)"
    "\<forall>x<4096 * N. \<not> (off \<le> x \<and> x < ?q) \<longrightarrow> fblock (view s1) f (x div 4096) \<noteq> 0 \<longrightarrow> fbyte (view s2) f x = fbyte (view s1) f x"
    using s2(3) unfolding written_def by blast+
  have size: "unat (view s2 (f_size f)) = max (unat (?m (f_size f))) ?q" using m2(2) s1(4) by (simp add: f_size_def)
  have "map (fbyte (view s2) f) [off..<?q] = buf" using m2(3) assms(4) by (intro nth_equalityI) auto
  moreover have "\<forall>x. off \<le> x \<longrightarrow> x < ?q \<longrightarrow> fblock (view s2) f (x div 4096) \<noteq> 0" using m2(3) assms(4) by auto
  moreover have "\<forall>x<4096 * N. \<not> (off \<le> x \<and> x < ?q) \<longrightarrow> fblock ?m f (x div 4096) \<noteq> 0 \<longrightarrow> fbyte (view s2) f x = fbyte ?m f x"
    using m2(4) s1(6) by simp
  ultimately show ?thesis using w s2(2) m2(1) size unfolding fs_ok_def by blast
qed

text \<open>What \<open>file_write_ok\<close> says of a range is what \<open>file_read_ok\<close> asks for.\<close>

lemma file_read_back:
  assumes "fs_good s" "bc_inv s" "file_inv (view s) f N" "off + length buf \<le> 4096 * N"
    "off + length buf \<le> unat (view s (f_size f))" "unat (view s (f_size f)) < 2 ^ 31"
    "\<forall>x. off \<le> x \<longrightarrow> x < off + length buf \<longrightarrow> fblock (view s) f (x div 4096) \<noteq> 0"
    "map (fbyte (view s) f) [off..<off + length buf] = buf"
  shows "\<exists>s'. file_read f (of_nat (length buf)) (of_nat off) s = Inr ((int (length buf), buf), s')"
  using file_read_ok [OF _ assms(3-7)] assms(1,2,8) by (simp add: fs_ok_def)

lemma file_inv_range: "file_inv m f N \<Longrightarrow> q \<le> 4096 * N \<Longrightarrow> q < 2 ^ 31"
  using file_invD(1) [of m f N] by simp

text \<open>
  C6. What is written is read back. Let the first \<open>N\<close> blocks of a file satisfy the invariant and let
  the disk have a free block for every block that the range touches. Then \<open>file_write\<close> at any
  offset within these blocks, across block boundaries and with allocation of missing blocks,
  returns the number of bytes; the size grows to the end of the range if it was smaller; the file
  system, the cache and the file stay consistent; all other bytes in blocks that the file already had
  are unchanged; and \<open>file_read\<close> of the range returns exactly the bytes written.
\<close>

theorem file_write_read:
  assumes "fs_good s" "bc_inv s" "file_inv (view s) f N" "off + length buf \<le> 4096 * N"
    "unat (view s (f_size f)) < 2 ^ 31" "span off (off + length buf) \<le> card (free_blocks (view s))"
  shows "\<exists>s'. file_write f buf (of_nat off) s = Inr (int (length buf), s') \<and> fs_good s' \<and> bc_inv s' \<and> file_inv (view s') f N \<and>
    unat (view s' (f_size f)) = max (unat (view s (f_size f))) (off + length buf) \<and>
    (\<forall>x<4096 * N. \<not> (off \<le> x \<and> x < off + length buf) \<longrightarrow> fblock (view s) f (x div 4096) \<noteq> 0 \<longrightarrow>
       fbyte (view s') f x = fbyte (view s) f x) \<and>
    (\<exists>s''. file_read f (of_nat (length buf)) (of_nat off) s' = Inr ((int (length buf), buf), s''))"
proof -
  obtain s' where w: "file_write f buf (of_nat off) s = Inr (int (length buf), s')" "fs_good s'" "bc_inv s'" "file_inv (view s') f N"
    "unat (view s' (f_size f)) = max (unat (view s (f_size f))) (off + length buf)"
    "\<forall>x<4096 * N. \<not> (off \<le> x \<and> x < off + length buf) \<longrightarrow> fblock (view s) f (x div 4096) \<noteq> 0 \<longrightarrow> fbyte (view s') f x = fbyte (view s) f x"
    "\<forall>x. off \<le> x \<longrightarrow> x < off + length buf \<longrightarrow> fblock (view s') f (x div 4096) \<noteq> 0"
    "map (fbyte (view s') f) [off..<off + length buf] = buf"
    using file_write_ok [OF assms] by blast
  have "off + length buf \<le> unat (view s' (f_size f))" "unat (view s' (f_size f)) < 2 ^ 31"
    using w(5) assms(5) file_inv_range [OF assms(3,4)] by simp_all
  from file_read_back [OF w(2-4) assms(4) this w(7,8)] show ?thesis using w(1-6) by blast
qed

lemma demo_file:
  "file_inv demo_disk 3072 2" "demo_disk (f_size 3072) = 0" "2 \<le> card (free_blocks demo_disk)"
proof -
  have d: "demo_disk (3072 + k) = 0" if "0 < k" for k
    using that by (simp add: demo_disk_def s_root_def f_size_def f_type_def f_direct_def)
  show "demo_disk (f_size 3072) = 0" using d [of 32] by (simp add: f_size_def)
  have "fblock demo_disk 3072 i = 0" if "i < 2" for i
    using that d [of "34 + i"] by (simp add: fblock_def slot_def)
  moreover have "\<not> bitmap_block demo_disk 3" by (auto simp: bitmap_block_def bitmap_word_def)
  moreover have "used demo_disk 3" "\<not> block_is_free 0 demo_disk" using demo_used [of 3] demo_used [of 0] by (simp_all add: used_def)
  ultimately show "file_inv demo_disk 3072 2" by (simp add: file_inv_def)
  have "{4, 5} \<subseteq> free_blocks demo_disk"
    by (simp add: free_blocks_def block_is_free_bit bitmap_word_def demo_word bit_numeral_rec)
  then have "card {4, 5 :: nat} \<le> card (free_blocks demo_disk)" by (rule card_mono [OF finite_free])
  then show "2 \<le> card (free_blocks demo_disk)" by simp
qed

theorem file_write_read_witness:
  "\<exists>s' s''. file_write 3072 [1, 2, 3, 4] 4094 demo_fs = Inr (4, s') \<and> unat (view s' (f_size 3072)) = 4098 \<and>
     file_read 3072 4 4094 s' = Inr ((4, [1, 2, 3, 4]), s'')"
proof -
  have "span 4094 4098 = 2" by (simp add: span_def)
  then show ?thesis
    using file_write_read [OF demo_ok, of 3072 2 4094 "[1, 2, 3, 4]"] demo_file by auto
qed

text \<open>
  C40. When the disk is full, a write that needs a block does not fail with \<open>-E_NO_DISK\<close>: the result of
  \<open>alloc_block\<close> is tested in an unsigned variable, taken for a block number, and the server panics.
\<close>

theorem file_get_block_full:
  assumes "fs_good s" "bc_inv s" "file_inv (view s) f N" "i < N" "fblock (view s) f i = 0" "\<forall>b. \<not> block_is_free b (view s)"
  shows "\<exists>s'. file_get_block f (of_nat i) s = Inl (Panic, s')"
  using assms by (intro get_block_full) (auto simp: fs_ok_def)

definition full_fs :: fsd where
  "full_fs = demo_fs\<lparr>disk := demo_disk(2048 := 0, 2049 := 0)\<rparr>"

theorem file_get_block_full_witness: "\<exists>s'. file_get_block 3072 1 full_fs = Inl (Panic, s')"
proof -
  let ?m = "demo_disk(2048 := 0, 2049 := 0)"
  have v: "view full_fs = ?m" by (simp add: fun_eq_iff view_def full_fs_def demo_fs_def)
  have nb: "nblocks ?m = 64" using demo_nblocks by (simp add: nblocks_def)
  have free: "\<not> block_is_free b ?m" for b
  proof (cases "b < 64")
    case True
    then have "bitmap_word b = 2048 \<or> bitmap_word b = 2049" by (auto simp: bitmap_word_def)
    then show ?thesis by (auto simp: block_is_free_bit)
  qed (simp add: block_is_free_def nb)
  have used: "used ?m b \<longleftrightarrow> b < 64" for b using free by (simp add: used_def nb)
  have bw: "bitmap_word b div 1024 = 2" if "b < 64" for b using that by (simp add: bitmap_word_def)
  have "fblock ?m 3072 i = 0" if "i < 2" for i
    using that by (simp add: fblock_def slot_def demo_disk_def s_root_def f_size_def f_type_def f_direct_def)
  moreover have "file_inv ?m 3072 2" using calculation free by (auto simp: file_inv_def used bitmap_block_def bw nb)
  moreover have "fs_good full_fs" by (simp add: fs_good_def v nb used bw jos_consts) (simp add: full_fs_def demo_fs_def)
  moreover have "bc_inv full_fs" by (simp add: bc_inv_def full_fs_def demo_fs_def)
  ultimately show ?thesis using file_get_block_full [of full_fs 3072 2 1] free by (simp add: v)
qed

end
