(* ===== verification/FsPath.thy ===== *)
theory FsPath
  imports FsData
begin

text \<open>
  Path names and synchronisation: \<open>walk_path\<close> resolves the components of a path one after the other,
  however many slashes separate them, and \<open>fs_sync\<close> makes everything durable.
\<close>

section \<open>Components of a path\<close>

fun split_slash :: "8 word list \<Rightarrow> 8 word list list" where
  "split_slash [] = [[]]"
| "split_slash (c # cs) =
     (if c = SLASH then [] # split_slash cs
      else case split_slash cs of [] \<Rightarrow> [[c]] | p # ps \<Rightarrow> (c # p) # ps)"

definition components :: "8 word list \<Rightarrow> 8 word list list" where
  "components path = filter (\<lambda>c. c \<noteq> []) (split_slash path)"

text \<open>The reference: look the components up in order, starting at \<open>f\<close>.\<close>

fun resolve :: "8 word list list \<Rightarrow> nat option \<Rightarrow> nat \<Rightarrow> 'a fsd_scheme \<Rightarrow> ('a fsd_scheme, walk_res) res" where
  "resolve [] dir f s = Inr ((0, dir, Some f, []), s)"
| "resolve (n # ns) dir f s =
     (if length n \<ge> MAXNAMELEN then Inr ((- E_BAD_PATH, None, None, []), s)
      else
        bindS (ld (f_type f) s) (\<lambda>ty s.
          if ty \<noteq> FTYPE_DIR then Inr ((- E_NOT_FOUND, None, None, []), s)
          else
            bindS (dir_lookup f n s) (\<lambda>r s.
              case r of
                Inl e \<Rightarrow> Inr (if e = - E_NOT_FOUND \<and> ns = [] then (e, Some f, None, n) else (e, None, None, []), s)
              | Inr f' \<Rightarrow> resolve ns (Some f) f' s)))"

lemma split_slash_ne: "split_slash p \<noteq> []"
  by (induction p) (auto split: list.splits)

lemma components_Nil [simp]: "components [] = []"
  by (simp add: components_def)

lemma components_slash [simp]: "components (SLASH # p) = components p"
  by (simp add: components_def)

lemma components_skip: "components (skip_slash p) = components p"
  unfolding skip_slash_def by (induction p) simp_all

lemma split_slash_word:
  "c \<noteq> SLASH \<Longrightarrow> split_slash (c # cs) = takeWhile (\<lambda>x. x \<noteq> SLASH) (c # cs) #
     (case dropWhile (\<lambda>x. x \<noteq> SLASH) (c # cs) of [] \<Rightarrow> [] | _ # r \<Rightarrow> split_slash r)"
proof (induction cs arbitrary: c)
  case (Cons d cs)
  then show ?case by (cases "d = SLASH") simp_all
qed simp

lemma components_word:
  assumes "c \<noteq> SLASH"
  shows "components (c # cs) = takeWhile (\<lambda>x. x \<noteq> SLASH) (c # cs) # components (skip_slash (dropWhile (\<lambda>x. x \<noteq> SLASH) (c # cs)))"
proof -
  let ?d = "dropWhile (\<lambda>x. x \<noteq> SLASH) (c # cs)"
  have "components ?d = filter (\<lambda>c. c \<noteq> []) (case ?d of [] \<Rightarrow> [] | _ # r \<Rightarrow> split_slash r)"
  proof (cases ?d)
    case (Cons x r)
    then have "x = SLASH" using hd_dropWhile [of "\<lambda>x. x \<noteq> SLASH" "c # cs"] by auto
    then show ?thesis unfolding Cons by (simp add: components_def)
  qed (simp only: components_Nil list.case filter.simps)
  then show ?thesis unfolding components_skip
    using assms by (simp add: components_def [of "c # cs"] split_slash_word [OF assms] del: split_slash.simps)
qed

lemma skip_slash_head: "skip_slash p = c # cs \<Longrightarrow> c \<noteq> SLASH"
  using hd_dropWhile [of "\<lambda>c. c = SLASH" p] by (auto simp: skip_slash_def)

lemma components_empty: "components (skip_slash p) = [] \<longleftrightarrow> skip_slash p = []"
proof (cases "skip_slash p")
  case (Cons c cs)
  then show ?thesis using components_word [OF skip_slash_head [OF Cons]] by simp
qed simp

lemma walk_loop_resolve: "p = skip_slash q \<Longrightarrow> walk_loop p dir f s = resolve (components p) dir f s"
proof (induction p dir f s arbitrary: q rule: walk_loop.induct)
  case (2 c cs dir f s)
  let ?name = "takeWhile (\<lambda>x. x \<noteq> SLASH) (c # cs)" and ?path = "skip_slash (dropWhile (\<lambda>x. x \<noteq> SLASH) (c # cs))"
  have comp: "components (c # cs) = ?name # components ?path"
    using components_word [OF skip_slash_head [OF 2(2) [symmetric]]] .
  show ?case
  proof (cases "length ?name \<ge> MAXNAMELEN")
    case True
    then show ?thesis unfolding comp by (simp only: walk_loop.simps resolve.simps Let_def if_True)
  next
    case False
    have IH: "walk_loop ?path (Some f) f' t = resolve (components ?path) (Some f) f' t"
      if "ld (f_type f) s = Inr (ty, s1)" "\<not> ty \<noteq> FTYPE_DIR" "dir_lookup f ?name s1 = Inr (Inr f', t)" for ty s1 f' t
      using "2.IH" [OF refl refl False that(1) that(2) that(3) refl refl] .
    show ?thesis
      unfolding comp walk_loop.simps resolve.simps Let_def if_not_P [OF False]
    proof (rule bindS_cong [OF refl], goal_cases)
      case (1 ty s1)
      show ?case
      proof (cases "ty \<noteq> FTYPE_DIR")
        case ty: False
        show ?thesis unfolding if_not_P [OF ty]
        proof (rule bindS_cong [OF refl], goal_cases)
          case (1 r t)
          then show ?case using IH [OF \<open>ld (f_type f) s = Inr (ty, s1)\<close> ty] components_empty by (cases r) auto
        qed
      qed simp
    qed
  qed
qed simp

text \<open>
  C20. \<open>walk_path\<close> is the same as splitting the path at slashes, dropping the empty components, and
  looking the remaining ones up in order: leading, repeated and trailing slashes make no difference,
  and all results, errors and changes of the cache agree with those of the reference.
\<close>

theorem walk_path_components: "walk_path path s = resolve (components path) None s_root s"
  using walk_loop_resolve [of "skip_slash path" path None s_root s] by (simp add: walk_path_def components_skip)

section \<open>Synchronisation\<close>



end
