(* ===== verification/Serv.thy ===== *)
theory Serv
  imports FsPath
begin

text \<open>
  \<open>fs/serv.c\<close>: the table of open files and the requests of clients. A request is a page that the
  client shares with the server, read and written through the overlapping structures of
  \<open>union Fsipc\<close>. The number of references to a descriptor page, which the kernel counts, is part of the
  state: the server holds one, every client that has the file open another one.
\<close>

definition MAXOPEN :: nat where [jos_consts]: "MAXOPEN = 1024"
definition MAXPATHLEN :: nat where [jos_consts]: "MAXPATHLEN = 1024"
definition O_ACCMODE :: "32 word" where [jos_consts]: "O_ACCMODE = 3"
definition O_CREAT :: "32 word" where [jos_consts]: "O_CREAT = 0x100"
definition O_TRUNC :: "32 word" where [jos_consts]: "O_TRUNC = 0x200"
definition O_EXCL :: "32 word" where [jos_consts]: "O_EXCL = 0x400"
definition FSREQ_OPEN :: nat where [jos_consts]: "FSREQ_OPEN = 1"
definition FSREQ_SET_SIZE :: nat where [jos_consts]: "FSREQ_SET_SIZE = 2"
definition FSREQ_READ :: nat where [jos_consts]: "FSREQ_READ = 3"
definition FSREQ_WRITE :: nat where [jos_consts]: "FSREQ_WRITE = 4"
definition FSREQ_STAT :: nat where [jos_consts]: "FSREQ_STAT = 5"
definition FSREQ_FLUSH :: nat where [jos_consts]: "FSREQ_FLUSH = 6"
definition FSREQ_SYNC :: nat where [jos_consts]: "FSREQ_SYNC = 8"

record Fd =
  fd_dev_id :: "32 word"
  fd_offset :: "32 word"
  fd_omode :: "32 word"
  fd_file_id :: "32 word"

record OpenFile =
  o_fileid :: "32 word"
  o_file :: nat
  o_mode :: "32 word"

text \<open>\<open>no_page\<close> says that the kernel has no page left for a descriptor.\<close>

record srv = fsd +
  opentab :: "nat \<Rightarrow> OpenFile"
  fd_ref :: "nat \<Rightarrow> nat"
  fd_pg :: "nat \<Rightarrow> Fd"
  no_page :: bool
  fsreq :: "nat \<Rightarrow> 8 word"

definition serve_init :: "srv \<Rightarrow> srv" where
  "serve_init s = s\<lparr>opentab := (\<lambda>i. if i < MAXOPEN then (opentab s i)\<lparr>o_fileid := of_nat i\<rparr> else opentab s i)\<rparr>"

section \<open>Open files\<close>

definition openfile_take :: "nat \<Rightarrow> srv \<Rightarrow> srv" where
  "openfile_take i s =
     s\<lparr>opentab := (opentab s)(i := (opentab s i)\<lparr>o_fileid := o_fileid (opentab s i) + of_nat MAXOPEN\<rparr>),
       fd_pg := (fd_pg s)(i := \<lparr>fd_dev_id = 0, fd_offset = 0, fd_omode = 0, fd_file_id = 0\<rparr>)\<rparr>"

fun openfile_search :: "nat list \<Rightarrow> srv \<Rightarrow> (int \<times> nat option) \<times> srv" where
  "openfile_search [] s = ((- E_MAX_OPEN, None), s)"
| "openfile_search (i # is) s =
     (if fd_ref s i = 0 then
        if no_page s then ((- E_NO_MEM, None), s)
        else let s1 = openfile_take i (s\<lparr>fd_ref := (fd_ref s)(i := 1)\<rparr>) in ((sint (o_fileid (opentab s1 i)), Some i), s1)
      else if fd_ref s i = 1 then
        let s1 = openfile_take i s in ((sint (o_fileid (opentab s1 i)), Some i), s1)
      else openfile_search is s)"

definition openfile_alloc :: "srv \<Rightarrow> (int \<times> nat option) \<times> srv" where
  "openfile_alloc s = openfile_search [0..<MAXOPEN] s"

definition openfile_lookup :: "32 word \<Rightarrow> srv \<Rightarrow> int + nat" where
  "openfile_lookup fileid s =
     (let i = unat fileid mod MAXOPEN
      in if fd_ref s i \<le> 1 \<or> o_fileid (opentab s i) \<noteq> fileid then Inl (- E_INVAL) else Inr i)"

section \<open>Requests\<close>

definition req32 :: "srv \<Rightarrow> nat \<Rightarrow> 32 word" where
  "req32 s off = word32 [fsreq s off, fsreq s (off + 1), fsreq s (off + 2), fsreq s (off + 3)]"

definition reply :: "nat \<Rightarrow> 8 word list \<Rightarrow> srv \<Rightarrow> srv" where
  "reply off bs s = s\<lparr>fsreq := (\<lambda>i. if off \<le> i \<and> i < off + length bs then bs ! (i - off) else fsreq s i)\<rparr>"

definition set_fd :: "nat \<Rightarrow> (Fd \<Rightarrow> Fd) \<Rightarrow> srv \<Rightarrow> srv" where
  "set_fd i g s = s\<lparr>fd_pg := (fd_pg s)(i := g (fd_pg s i))\<rparr>"

text \<open>The part of \<open>serve_open\<close> that finds, creates or truncates the file.\<close>

definition open_path :: "8 word list \<Rightarrow> 32 word \<Rightarrow> srv \<Rightarrow> (srv, int + nat) res" where
  "open_path path omode s =
     bindS (if omode AND O_CREAT \<noteq> 0
            then bindS (file_create path s) (\<lambda>r s.
                   case r of
                     Inl e \<Rightarrow> if omode AND O_EXCL = 0 \<and> e = - E_FILE_EXISTS then file_open path s else Inr (Inl e, s)
                   | Inr f \<Rightarrow> Inr (Inr f, s))
            else file_open path s) (\<lambda>r s.
       case r of
         Inl e \<Rightarrow> Inr (Inl e, s)
       | Inr f \<Rightarrow>
           bindS (if omode AND O_TRUNC \<noteq> 0 then file_set_size f 0 s else Inr (0, s)) (\<lambda>r s.
             if r < 0 then Inr (Inl r, s) else file_open path s))"

definition serve_open :: "srv \<Rightarrow> (srv, int \<times> nat option) res" where
  "serve_open s =
     (let path = takeWhile (\<lambda>c. c \<noteq> 0) (map (fsreq s) [0..<MAXPATHLEN - 1]); omode = req32 s MAXPATHLEN
      in case openfile_alloc s of
           ((r, oi), s) \<Rightarrow>
             if r < 0 then Inr ((r, None), s)
             else case oi of
               None \<Rightarrow> Inl (NullDeref, s)
             | Some i \<Rightarrow>
                 bindS (open_path path omode s) (\<lambda>r s.
                   case r of
                     Inl e \<Rightarrow> Inr ((e, None), s)
                   | Inr f \<Rightarrow>
                       Inr ((0, Some i), set_fd i (\<lambda>fd. fd\<lparr>fd_file_id := o_fileid (opentab s i), fd_omode := omode AND O_ACCMODE,
                           fd_dev_id := 0x66\<rparr>)
                         (s\<lparr>opentab := (opentab s)(i := (opentab s i)\<lparr>o_file := f, o_mode := omode\<rparr>)\<rparr>))))"

definition serve_set_size :: "srv \<Rightarrow> (srv, int) res" where
  "serve_set_size s =
     (case openfile_lookup (req32 s 0) s of
        Inl e \<Rightarrow> Inr (e, s)
      | Inr i \<Rightarrow> file_set_size (o_file (opentab s i)) (req32 s 4) s)"

text \<open>The bytes go to the request page; more than a page of them are stored beyond it.\<close>

definition serve_read :: "srv \<Rightarrow> (srv, int) res" where
  "serve_read s =
     (case openfile_lookup (req32 s 0) s of
        Inl e \<Rightarrow> Inr (- E_INVAL, s)
      | Inr i \<Rightarrow>
          bindS (file_read (o_file (opentab s i)) (req32 s 4) (fd_offset (fd_pg s i)) s) (\<lambda>(v, bs) s.
            if length bs > 4096 then Inl (Wild, s)
            else if v < 0 then Inr (v, reply 0 bs s)
            else Inr (v, set_fd i (\<lambda>fd. fd\<lparr>fd_offset := fd_offset fd + word_of_int v\<rparr>) (reply 0 bs s))))"

text \<open>At most 4088 bytes follow the header of the request.\<close>

definition serve_write :: "srv \<Rightarrow> (srv, int) res" where
  "serve_write s =
     (case openfile_lookup (req32 s 0) s of
        Inl e \<Rightarrow> Inr (- E_INVAL, s)
      | Inr i \<Rightarrow>
          let n = unat (req32 s 4)
          in if n > 4088 then Inl (Wild, s)
             else
               bindS (file_write (o_file (opentab s i)) (map (fsreq s) [8..<8 + n]) (fd_offset (fd_pg s i)) s) (\<lambda>v s.
                 if v < 0 then Inr (v, s)
                 else Inr (v, set_fd i (\<lambda>fd. fd\<lparr>fd_offset := fd_offset fd + word_of_int v\<rparr>) s)))"

text \<open>\<open>strcpy(ret_name, f_name)\<close>; a name fills at most 128 bytes with its zero.\<close>

definition serve_stat :: "srv \<Rightarrow> (srv, int) res" where
  "serve_stat s =
     (case openfile_lookup (req32 s 0) s of
        Inl e \<Rightarrow> Inr (e, s)
      | Inr i \<Rightarrow>
          let f = o_file (opentab s i)
          in bindS (ld_bytes (f_name f) MAXNAMELEN s) (\<lambda>bs s.
               if 0 \<notin> set bs then Inl (Wild, s)
               else
                 bindS (ld (f_size f) s) (\<lambda>sz s. bindS (ld (f_type f) s) (\<lambda>ty s.
                   Inr (0, reply 0 (takeWhile (\<lambda>c. c \<noteq> 0) bs @ [0]) (reply 128 (bytes32 sz)
                     (reply 132 (bytes32 (if ty = FTYPE_DIR then 1 else 0)) s)))))))"

definition serve_flush :: "srv \<Rightarrow> (srv, int) res" where
  "serve_flush s =
     (case openfile_lookup (req32 s 0) s of
        Inl e \<Rightarrow> Inr (e, s)
      | Inr i \<Rightarrow> bindS (file_flush (o_file (opentab s i)) s) (\<lambda>_ s. Inr (0, s)))"

definition serve_sync :: "srv \<Rightarrow> (srv, int) res" where
  "serve_sync s = bindS (fs_sync s) (\<lambda>_ s. Inr (0, s))"

text \<open>
  One round of \<open>serve\<close>: the reply is the value and, for an open, the descriptor page. A request
  without a page gets no answer.
\<close>

definition serve1 :: "nat \<Rightarrow> bool \<Rightarrow> srv \<Rightarrow> (srv, (int \<times> nat option) option) res" where
  "serve1 req has_page s =
     (let int_reply = (\<lambda>m. bindS m (\<lambda>r s. Inr (Some (r, None), s)))
      in if \<not> has_page then Inr (None, s)
         else if req = FSREQ_OPEN then bindS (serve_open s) (\<lambda>r s. Inr (Some r, s))
         else if req = FSREQ_READ then int_reply (serve_read s)
         else if req = FSREQ_STAT then int_reply (serve_stat s)
         else if req = FSREQ_FLUSH then int_reply (serve_flush s)
         else if req = FSREQ_WRITE then int_reply (serve_write s)
         else if req = FSREQ_SET_SIZE then int_reply (serve_set_size s)
         else if req = FSREQ_SYNC then int_reply (serve_sync s)
         else Inr (Some (- E_INVAL, None), s))"

end
