(* ===== verification/ServProps.thy ===== *)
theory ServProps
  imports Serv
begin

text \<open>
  Properties of the file server: the invariant of the table of open files, and that a file identifier
  names one opening of one file.
\<close>

section \<open>File identifiers\<close>

definition srv_inv :: "srv \<Rightarrow> bool" where
  "srv_inv s \<longleftrightarrow> (\<forall>i<MAXOPEN. unat (o_fileid (opentab s i)) mod MAXOPEN = i)"

lemma serve_init_inv: "srv_inv (serve_init s)"
  by (simp add: srv_inv_def serve_init_def jos_consts unat_of_nat)

lemma next_id: "unat (x + 1024 :: 32 word) mod 1024 = unat x mod 1024"
proof -
  have "unat (x + 1024) = (unat x + 1024) mod 2 ^ 32" by (simp add: unat_word_ariths)
  then show ?thesis by (simp add: mod_mod_cancel)
qed

lemma openfile_search_cases:
  "case openfile_search is s of ((r, None), s') \<Rightarrow> s' = s \<and>
       (r = - E_MAX_OPEN \<and> (\<forall>i\<in>set is. 2 \<le> fd_ref s i) \<or> r = - E_NO_MEM \<and> no_page s)
   | ((r, Some i), s') \<Rightarrow> (\<exists>xs ys. is = xs @ i # ys \<and> (\<forall>j\<in>set xs. 2 \<le> fd_ref s j)) \<and> fd_ref s i \<le> 1 \<and>
       s' = openfile_take i (s\<lparr>fd_ref := (fd_ref s)(i := 1)\<rparr>) \<and> r = sint (o_fileid (opentab s' i))"
proof (induction "is")
  case (Cons k "is")
  have one: "s\<lparr>fd_ref := (fd_ref s)(k := 1)\<rparr> = s" if "fd_ref s k = 1" using that by (simp add: fun_upd_idem)
  have k0: "\<exists>xs ys. k # is = xs @ k # ys \<and> (\<forall>j\<in>set xs. 2 \<le> fd_ref s j)"
    by (intro exI [of _ "[]"] exI [of _ "is"]) simp
  consider "fd_ref s k = 0" | "fd_ref s k = 1" | "2 \<le> fd_ref s k" by linarith
  then show ?case
  proof cases
    case 1
    then show ?thesis using k0 by (simp add: Let_def)
  next
    case 2
    then show ?thesis using one k0 by (simp add: Let_def)
  next
    case 3
    have c: "\<exists>xs ys. k # is = xs @ i # ys \<and> (\<forall>j\<in>set xs. 2 \<le> fd_ref s j)"
      if "is = xs @ i # ys" "\<forall>j\<in>set xs. 2 \<le> fd_ref s j" for i xs ys
      using that 3 by (intro exI [of _ "k # xs"] exI [of _ ys]) auto
    obtain r oi s' where e: "openfile_search is s = ((r, oi), s')" by (metis prod.exhaust)
    show ?thesis
    proof (cases oi)
      case None
      then show ?thesis using 3 Cons.IH e by simp
    next
      case (Some i)
      then obtain xs ys where "is = xs @ i # ys" "\<forall>j\<in>set xs. 2 \<le> fd_ref s j" using Cons.IH e by auto
      from c [OF this] show ?thesis using 3 Cons.IH e Some by simp
    qed
  qed
qed simp

text \<open>
  C21. \<open>openfile_alloc\<close> takes the first table entry that no client refers to, or fails without effect
  because all 1024 are in use or because there is no page. The new identifier names this entry: a
  client that holds the descriptor page finds it, the identifier of the previous opening of the entry
  is rejected from then on, and the identifiers of all other entries keep their meaning.
\<close>

theorem openfile_alloc_ids:
  assumes "srv_inv s"
  shows "case openfile_alloc s of
      ((r, None), s') \<Rightarrow> s' = s \<and> (r = - E_MAX_OPEN \<and> (\<forall>i<MAXOPEN. 2 \<le> fd_ref s i) \<or> r = - E_NO_MEM \<and> no_page s)
    | ((r, Some i), s') \<Rightarrow> i < MAXOPEN \<and> fd_ref s i \<le> 1 \<and> (\<forall>j<i. 2 \<le> fd_ref s j) \<and> srv_inv s' \<and>
        (let new = o_fileid (opentab s' i); shared = s'\<lparr>fd_ref := (fd_ref s')(i := 2)\<rparr> in
          r = sint new \<and> openfile_lookup new shared = Inr i \<and>
          openfile_lookup (o_fileid (opentab s i)) shared = Inl (- E_INVAL) \<and>
          (\<forall>fileid. unat fileid mod MAXOPEN \<noteq> i \<longrightarrow> openfile_lookup fileid shared = openfile_lookup fileid s))"
proof -
  obtain r oi s' where a: "openfile_alloc s = ((r, oi), s')" by (metis prod.exhaust)
  show ?thesis
  proof (cases oi)
    case None
    then show ?thesis using a openfile_search_cases [of s "[0..<MAXOPEN]"] by (auto simp: openfile_alloc_def)
  next
    case (Some i)
    then have f: "\<exists>xs ys. [0..<MAXOPEN] = xs @ i # ys \<and> (\<forall>j\<in>set xs. 2 \<le> fd_ref s j)" "fd_ref s i \<le> 1"
      "s' = openfile_take i (s\<lparr>fd_ref := (fd_ref s)(i := 1)\<rparr>)" "r = sint (o_fileid (opentab s' i))"
      using a openfile_search_cases [of s "[0..<MAXOPEN]"] by (auto simp: openfile_alloc_def)
    from f(1) obtain xs ys where xs: "[0..<MAXOPEN] = xs @ i # ys" "\<forall>j\<in>set xs. 2 \<le> fd_ref s j" by blast
    have len: "length xs < MAXOPEN" using arg_cong [OF xs(1), of length] by simp
    have "[0..<MAXOPEN] ! length xs = i" by (simp only: xs(1) nth_append_length)
    then have il: "i = length xs" using len by simp
    have "take (length xs) [0..<MAXOPEN] = xs" by (simp only: xs(1)) simp
    then have i: "xs = [0..<i]" "i < MAXOPEN" using len il by (simp_all add: take_upt)
    have new: "o_fileid (opentab s' i) = o_fileid (opentab s i) + 1024" by (simp add: f(3) openfile_take_def MAXOPEN_def)
    have oth: "opentab s' j = opentab s j" "fd_ref s' j = fd_ref s j" if "j \<noteq> i" for j
      using that by (simp_all add: f(3) openfile_take_def)
    have m: "unat (o_fileid (opentab s i)) mod 1024 = i" using assms i(2) by (simp add: srv_inv_def MAXOPEN_def)
    have inv: "srv_inv s'" unfolding srv_inv_def
    proof (intro allI impI)
      fix j assume "j < MAXOPEN"
      then show "unat (o_fileid (opentab s' j)) mod MAXOPEN = j"
        using assms oth(1) [of j] new next_id m by (cases "j = i") (simp_all add: srv_inv_def MAXOPEN_def)
    qed
    have 1: "openfile_lookup (o_fileid (opentab s' i)) (s'\<lparr>fd_ref := (fd_ref s')(i := 2)\<rparr>) = Inr i"
      by (simp add: openfile_lookup_def Let_def MAXOPEN_def new next_id m)
    have 2: "openfile_lookup (o_fileid (opentab s i)) (s'\<lparr>fd_ref := (fd_ref s')(i := 2)\<rparr>) = Inl (- E_INVAL)"
      by (simp add: openfile_lookup_def Let_def MAXOPEN_def new m)
    have 3: "openfile_lookup fileid (s'\<lparr>fd_ref := (fd_ref s')(i := 2)\<rparr>) = openfile_lookup fileid s"
      if "unat fileid mod MAXOPEN \<noteq> i" for fileid
      using that oth by (simp add: openfile_lookup_def Let_def)
    have "\<forall>j<i. 2 \<le> fd_ref s j" using xs(2) i(1) by auto
    then show ?thesis using a Some f(2,4) i(2) inv 1 2 3 by (simp add: Let_def)
  qed
qed

definition fresh_srv :: srv where
  "fresh_srv = serve_init \<lparr>bc_mem = (\<lambda>_. 0), bc_mapped = (\<lambda>_. False), bc_dirty = (\<lambda>_. False), disk = demo_disk, io_fails = (\<lambda>_. False),
     opentab = (\<lambda>_. \<lparr>o_fileid = 0, o_file = 0, o_mode = 0\<rparr>), fd_ref = (\<lambda>i. if i < 3 then 2 else 0),
     fd_pg = (\<lambda>_. \<lparr>fd_dev_id = 0, fd_offset = 0, fd_omode = 0, fd_file_id = 0\<rparr>), no_page = False, fsreq = (\<lambda>_. 0)\<rparr>"

theorem openfile_alloc_ids_witness:
  "\<exists>s'. openfile_alloc fresh_srv = ((1027, Some 3), s') \<and> srv_inv s' \<and>
     openfile_lookup 1027 (s'\<lparr>fd_ref := (fd_ref s')(3 := 2)\<rparr>) = Inr 3 \<and>
     openfile_lookup 3 (s'\<lparr>fd_ref := (fd_ref s')(3 := 2)\<rparr>) = Inl (- E_INVAL)"
proof -
  have o: "o_fileid (opentab fresh_srv i) = of_nat i" if "i < 1024" for i
    using that by (simp add: fresh_srv_def serve_init_def MAXOPEN_def)
  have r: "fd_ref fresh_srv = (\<lambda>i. if i < 3 then 2 else 0)" "\<not> no_page fresh_srv" by (simp_all add: fresh_srv_def serve_init_def)
  have "[0..<4 + 1020] = [0..<4] @ [4..<4 + 1020]" by (rule upt_add_eq_append) simp
  moreover have "MAXOPEN = 4 + 1020" "[0..<4] = [0, 1, 2, 3]" by (simp_all add: MAXOPEN_def upt_rec)
  ultimately obtain ks where u: "[0..<MAXOPEN] = 0 # 1 # 2 # 3 # ks" by (metis append_Cons append_Nil)
  obtain s' where a: "openfile_alloc fresh_srv = ((1027, Some 3), s')" "o_fileid (opentab s' 3) = 1027"
    unfolding openfile_alloc_def u using o [of 3] r by (simp add: Let_def openfile_take_def MAXOPEN_def)
  have "srv_inv fresh_srv" unfolding fresh_srv_def by (rule serve_init_inv)
  from openfile_alloc_ids [OF this] a show ?thesis using o [of 3] by (simp add: Let_def)
qed

end
