(* ===== verification/FsMore.thy ===== *)
theory FsMore
  imports FsPath
begin

text \<open>
  The file system is used inside the larger state of the server. None of its operations touches the
  rest of that state.
\<close>

named_theorems fs_more \<open>operations of the file system keep the rest of the state\<close>

lemma more_bindS:
  fixes m :: "('a fsd_scheme, 'b) res" and f :: "'b \<Rightarrow> 'a fsd_scheme \<Rightarrow> ('a fsd_scheme, 'c) res"
  assumes "fsd.more (res_state m) = c" and "\<And>a s. fsd.more s = c \<Longrightarrow> fsd.more (res_state (f a s)) = c"
  shows "fsd.more (res_state (bindS m f)) = c"
  by (rule res_state_bindS [of "\<lambda>s. fsd.more s = c"]) (use assms in auto)

lemma more_touch [fs_more]: "fsd.more s = c \<Longrightarrow> fsd.more (res_state (touch b s)) = c"
  by (auto simp: touch_def bc_pgfault_def fetch_def Let_def)

lemma more_ld [fs_more]: "fsd.more s = c \<Longrightarrow> fsd.more (res_state (ld w s)) = c"
  unfolding ld_def by (rule more_bindS [OF more_touch]) auto

lemma more_st [fs_more]: "fsd.more s = c \<Longrightarrow> fsd.more (res_state (st w v s)) = c"
  unfolding st_def by (rule more_bindS [OF more_touch]) auto

lemma more_ld8 [fs_more]: "fsd.more s = c \<Longrightarrow> fsd.more (res_state (ld8 a s)) = c"
  unfolding ld8_def by (rule more_bindS [OF more_ld]) auto

lemma more_st8 [fs_more]: "fsd.more s = c \<Longrightarrow> fsd.more (res_state (st8 a b s)) = c"
  unfolding st8_def by (rule more_bindS [OF more_ld]) (auto intro: more_st)

lemma more_flush [fs_more]: "fsd.more s = c \<Longrightarrow> fsd.more (res_state (flush_block w s)) = c"
  by (auto simp: flush_block_def write_back_def Let_def)

lemma more_diskaddr [fs_more]: "fsd.more s = c \<Longrightarrow> fsd.more (res_state (diskaddr b s)) = c"
  unfolding diskaddr_def by (auto intro!: more_bindS more_ld)

lemma more_alloc_loop: "fsd.more s = c \<Longrightarrow> fsd.more (res_state (alloc_loop b s)) = c"
proof (induction b s rule: alloc_loop.induct)
  case (1 b s)
  show ?case unfolding alloc_loop.simps [of b s] Let_def
  proof (rule res_state_bindS [of "\<lambda>s. fsd.more s = c"], goal_cases)
    case (2 n s1)
    show ?case
    proof (cases "b < unat n")
      case True
      show ?thesis unfolding if_P [OF True]
      proof (rule res_state_bindS [of "\<lambda>s. fsd.more s = c"], goal_cases)
        case (2 v s2)
        note IH = "1.IH" [OF \<open>ld 1025 s = Inr (n, s1)\<close> True refl 2(1)]
        show ?case using 2(2) IH by (auto intro!: more_bindS fs_more)
      qed (use 2 in \<open>auto intro: more_ld\<close>)
    qed (use 2 in simp)
  qed (use 1 in \<open>auto intro: more_ld\<close>)
qed

lemma more_alloc_block [fs_more]: "fsd.more s = c \<Longrightarrow> fsd.more (res_state (alloc_block s)) = c"
  by (simp add: alloc_block_def more_alloc_loop)

lemma more_walk [fs_more]: "fsd.more s = c \<Longrightarrow> fsd.more (res_state (file_block_walk f i al s)) = c"
  by (auto simp: file_block_walk_def Let_def intro!: more_bindS fs_more)

lemma more_get_block [fs_more]: "fsd.more s = c \<Longrightarrow> fsd.more (res_state (file_get_block f i s)) = c"
  by (auto simp: file_get_block_def split: sum.splits intro!: more_bindS fs_more)

lemma more_free_block [fs_more]: "fsd.more s = c \<Longrightarrow> fsd.more (res_state (free_block b s)) = c"
  by (auto simp: free_block_def Let_def intro!: more_bindS fs_more)

lemma more_file_free [fs_more]: "fsd.more s = c \<Longrightarrow> fsd.more (res_state (file_free_block f i s)) = c"
  by (auto simp: file_free_block_def split: sum.splits intro!: more_bindS fs_more)

lemma more_for_each: "(\<And>i s. fsd.more s = c \<Longrightarrow> fsd.more (res_state (g i s)) = c) \<Longrightarrow> fsd.more s = c \<Longrightarrow>
    fsd.more (res_state (for_each g xs s)) = c"
  by (induction xs arbitrary: s) (auto intro!: more_bindS)

lemma more_truncate [fs_more]: "fsd.more s = c \<Longrightarrow> fsd.more (res_state (file_truncate_blocks f n s)) = c"
  by (auto simp: file_truncate_blocks_def Let_def intro!: more_bindS more_for_each fs_more)

lemma more_set_size [fs_more]: "fsd.more s = c \<Longrightarrow> fsd.more (res_state (file_set_size f n s)) = c"
  by (auto simp: file_set_size_def intro!: more_bindS fs_more)

lemma more_ld_bytes [fs_more]: "fsd.more s = c \<Longrightarrow> fsd.more (res_state (ld_bytes a n s)) = c"
  by (induction n arbitrary: a s) (auto intro!: more_bindS fs_more)

lemma more_st_bytes [fs_more]: "fsd.more s = c \<Longrightarrow> fsd.more (res_state (st_bytes a bs s)) = c"
  by (induction bs arbitrary: a s) (auto intro!: more_bindS fs_more)

lemma more_read_loop [fs_more]: "fsd.more s = c \<Longrightarrow> fsd.more (res_state (read_loop f p q s)) = c"
proof (induction f p q s rule: read_loop.induct)
  case (1 f p q s)
  show ?case
  proof (cases "p < q")
    case True
    show ?thesis unfolding read_loop.simps [of f p q s] if_P [OF True]
    proof (rule res_state_bindS [of "\<lambda>s. fsd.more s = c"], goal_cases)
      case get: (2 r s1)
      show ?case
      proof (cases r)
        case (Inr blk)
        show ?thesis unfolding Inr sum.case
        proof (rule res_state_bindS [of "\<lambda>s. fsd.more s = c"], goal_cases)
          case (2 bs s2)
          then show ?case using "1.IH" [OF True get(1) Inr 2(1)] by (auto intro!: more_bindS)
        qed (use get in \<open>auto intro: fs_more\<close>)
      qed (use get in simp)
    qed (use 1 in \<open>auto intro: fs_more\<close>)
  qed (use 1 in \<open>simp add: read_loop.simps\<close>)
qed

lemma more_write_loop [fs_more]: "fsd.more s = c \<Longrightarrow> fsd.more (res_state (write_loop f buf p q s)) = c"
proof (induction f buf p q s rule: write_loop.induct)
  case (1 f buf p q s)
  show ?case
  proof (cases "p < q")
    case True
    show ?thesis unfolding write_loop.simps [of f buf p q s] if_P [OF True]
    proof (rule res_state_bindS [of "\<lambda>s. fsd.more s = c"], goal_cases)
      case get: (2 r s1)
      show ?case
      proof (cases r)
        case (Inr blk)
        show ?thesis unfolding Inr sum.case
        proof (rule res_state_bindS [of "\<lambda>s. fsd.more s = c"], goal_cases)
          case (2 a s2)
          then show ?case using "1.IH" [OF True get(1) Inr] by auto
        qed (use get in \<open>auto intro: fs_more\<close>)
      qed (use get in simp)
    qed (use 1 in \<open>auto intro: fs_more\<close>)
  qed (use 1 in \<open>simp add: write_loop.simps\<close>)
qed

lemma more_file_read: "fsd.more s = c \<Longrightarrow> fsd.more (res_state (file_read f n off s)) = c"
  by (auto simp: file_read_def Let_def intro!: more_bindS fs_more)

lemma more_file_write: "fsd.more s = c \<Longrightarrow> fsd.more (res_state (file_write f buf off s)) = c"
  by (auto simp: file_write_def Let_def intro!: more_bindS fs_more)

end
