(* ===== verification/File.thy ===== *)
theory File
  imports ServProps FsMore
begin

text \<open>
  \<open>lib/file.c\<close>: the client side of the file system. The request buffer of the client is the page that
  the server sees at \<open>fsreq\<close>; sending a request and waiting for the answer is one round of the server.
  A descriptor is the index of its page, which client and server share.
\<close>

definition fsipc :: "nat \<Rightarrow> srv \<Rightarrow> (srv, int \<times> nat option) res" where
  "fsipc type s = bindS (serve1 type True s) (\<lambda>r s. case r of Some v \<Rightarrow> Inr (v, s) | None \<Rightarrow> Inl (Diverges, s))"

definition devfile_flush :: "nat \<Rightarrow> srv \<Rightarrow> (srv, int) res" where
  "devfile_flush fd s =
     bindS (fsipc FSREQ_FLUSH (reply 0 (bytes32 (fd_file_id (fd_pg s fd))) s)) (\<lambda>(r, _) s. Inr (r, s))"

definition devfile_read :: "nat \<Rightarrow> 32 word \<Rightarrow> srv \<Rightarrow> (srv, int \<times> 8 word list) res" where
  "devfile_read fd n s =
     bindS (fsipc FSREQ_READ (reply 4 (bytes32 n) (reply 0 (bytes32 (fd_file_id (fd_pg s fd))) s))) (\<lambda>(r, _) s.
       if r < 0 then Inr ((r, []), s)
       else if \<not> word_of_int r \<le> n \<or> \<not> r \<le> 4096 then Inl (Panic, s)
       else Inr ((r, map (fsreq s) [0..<nat r]), s))"

definition devfile_write :: "nat \<Rightarrow> 8 word list \<Rightarrow> srv \<Rightarrow> (srv, int) res" where
  "devfile_write fd buf s =
     (let n = min (length buf) 4088
      in bindS (fsipc FSREQ_WRITE (reply 8 (take n buf) (reply 4 (bytes32 (of_nat n))
           (reply 0 (bytes32 (fd_file_id (fd_pg s fd))) s)))) (\<lambda>(r, _) s. Inr (r, s)))"

definition devfile_stat :: "nat \<Rightarrow> srv \<Rightarrow> (srv, int \<times> 8 word list \<times> 32 word \<times> 32 word) res" where
  "devfile_stat fd s =
     bindS (fsipc FSREQ_STAT (reply 0 (bytes32 (fd_file_id (fd_pg s fd))) s)) (\<lambda>(r, _) s.
       if r < 0 then Inr ((r, [], 0, 0), s)
       else Inr ((0, takeWhile (\<lambda>c. c \<noteq> 0) (map (fsreq s) [0..<MAXNAMELEN]), req32 s 128, req32 s 132), s))"

definition devfile_trunc :: "nat \<Rightarrow> 32 word \<Rightarrow> srv \<Rightarrow> (srv, int) res" where
  "devfile_trunc fd newsize s =
     bindS (fsipc FSREQ_SET_SIZE (reply 4 (bytes32 newsize) (reply 0 (bytes32 (fd_file_id (fd_pg s fd))) s))) (\<lambda>(r, _) s. Inr (r, s))"

definition sync :: "srv \<Rightarrow> (srv, int) res" where
  "sync s = bindS (fsipc FSREQ_SYNC s) (\<lambda>(r, _) s. Inr (r, s))"

text \<open>\<open>seek\<close> of \<open>lib/fd.c\<close> on a descriptor that is open: the server finds the offset in the shared page.\<close>

definition seek :: "nat \<Rightarrow> 32 word \<Rightarrow> srv \<Rightarrow> srv" where
  "seek fd off s = set_fd fd (\<lambda>v. v\<lparr>fd_offset := off\<rparr>) s"

section \<open>Requests and replies\<close>

lemma view_reply [simp]: "view (reply k bs s) = view s"
  by (simp add: reply_def view_def fun_eq_iff)

lemma view_set_fd [simp]: "view (set_fd i g s) = view s"
  by (simp add: set_fd_def view_def fun_eq_iff)

lemma reply_simps [simp]:
  "fs_good (reply k bs s) = fs_good s" "bc_inv (reply k bs s) = bc_inv s"
  "opentab (reply k bs s) = opentab s" "fd_ref (reply k bs s) = fd_ref s" "fd_pg (reply k bs s) = fd_pg s"
  unfolding fs_good_def view_reply bc_inv_def by (simp_all add: reply_def)

lemma set_fd_simps [simp]:
  "fs_good (set_fd i g s) = fs_good s" "bc_inv (set_fd i g s) = bc_inv s"
  "opentab (set_fd i g s) = opentab s" "fd_ref (set_fd i g s) = fd_ref s" "fd_pg (set_fd i g s) = (fd_pg s)(i := g (fd_pg s i))"
  "fsreq (set_fd i g s) = fsreq s"
  unfolding fs_good_def view_set_fd bc_inv_def by (simp_all add: set_fd_def)

lemma fsreq_reply: "fsreq (reply k bs s) i = (if k \<le> i \<and> i < k + length bs then bs ! (i - k) else fsreq s i)"
  by (simp add: reply_def)

lemma req32_at: "req32 (reply k (bytes32 w) s) k = w"
proof -
  have "req32 (reply k (bytes32 w) s) k = word32 (bytes32 w)" by (simp add: req32_def fsreq_reply bytes32_def)
  then show ?thesis by (simp add: bytes32_word)
qed

lemma req32_other: "k + 4 \<le> j \<or> j + length bs \<le> k \<Longrightarrow> req32 (reply j bs s) k = req32 s k"
  by (auto simp: req32_def fsreq_reply)

lemma srv_fields: "fsd.more s = fsd.more t \<Longrightarrow>
    opentab s = opentab t \<and> fd_ref s = fd_ref t \<and> fd_pg s = fd_pg t \<and> no_page s = no_page t \<and> fsreq s = fsreq t" for s t :: srv
  by (cases s, cases t) simp

section \<open>Reading and writing through a descriptor\<close>

text \<open>Descriptor page \<open>i\<close> is shared by a client and belongs to an opening of file \<open>f\<close>.\<close>

definition fd_open :: "nat \<Rightarrow> nat \<Rightarrow> srv \<Rightarrow> bool" where
  "fd_open i f s \<longleftrightarrow> i < MAXOPEN \<and> 2 \<le> fd_ref s i \<and> fd_file_id (fd_pg s i) = o_fileid (opentab s i) \<and>
     unat (o_fileid (opentab s i)) mod MAXOPEN = i \<and> o_file (opentab s i) = f"

lemma fd_open_lookup: "fd_open i f s \<Longrightarrow> openfile_lookup (fd_file_id (fd_pg s i)) s = Inr i"
  by (simp add: fd_open_def openfile_lookup_def Let_def)

lemma fd_open_set [simp]: "fd_open i f (set_fd i (\<lambda>fd. fd\<lparr>fd_offset := g fd\<rparr>) s) = fd_open i f s"
  by (simp add: fd_open_def)

lemma fd_open_reply [simp]: "fd_open i f (reply k bs s) = fd_open i f s"
  by (simp add: fd_open_def)

lemma openfile_lookup_reply [simp]: "openfile_lookup w (reply k bs s) = openfile_lookup w s"
  by (simp add: openfile_lookup_def)

lemma fd_open_more: "fsd.more s = fsd.more t \<Longrightarrow> fd_open i f s = fd_open i f t"
  using srv_fields [of s t] by (simp add: fd_open_def)

lemma fsreq_read: "map (fsreq (reply k bs s)) [k..<k + length bs] = bs"
  by (rule nth_equalityI) (simp_all add: fsreq_reply)

lemma devfile_write_step:
  assumes op: "fd_open i f s" and len: "length buf \<le> 4088"
    and w: "\<forall>t :: srv. view t = view s \<longrightarrow> fs_good t = fs_good s \<longrightarrow> bc_inv t = bc_inv s \<longrightarrow>
      (\<exists>t'. file_write f buf (fd_offset (fd_pg s i)) t = Inr (int (length buf), t') \<and> P t')"
  shows "\<exists>t. P t \<and> fd_open i f t \<and> fd_pg t i = fd_pg s i \<and>
    devfile_write i buf s = Inr (int (length buf), set_fd i (\<lambda>fd. fd\<lparr>fd_offset := fd_offset fd + of_nat (length buf)\<rparr>) t)"
proof -
  let ?r = "reply 8 buf (reply 4 (bytes32 (of_nat (length buf))) (reply 0 (bytes32 (fd_file_id (fd_pg s i))) s))"
  obtain t where t: "file_write f buf (fd_offset (fd_pg s i)) ?r = Inr (int (length buf), t)" "P t" using w [rule_format, of ?r] by auto
  have m: "fsd.more t = fsd.more ?r" using more_file_write [of ?r _ f buf "fd_offset (fd_pg s i)"] t(1) by simp
  have r: "req32 ?r 0 = fd_file_id (fd_pg s i)" "req32 ?r 4 = of_nat (length buf)" by (simp_all add: req32_other req32_at)
  have n: "unat (of_nat (length buf) :: 32 word) = length buf" using len by (simp add: unat_of_nat)
  have f: "o_file (opentab s i) = f" using op by (simp add: fd_open_def)
  have "serve_write ?r = Inr (int (length buf), set_fd i (\<lambda>fd. fd\<lparr>fd_offset := fd_offset fd + of_nat (length buf)\<rparr>) t)"
    unfolding serve_write_def r n by (simp add: fd_open_lookup [OF op] Let_def n len not_less fsreq_read f t(1))
  then have "devfile_write i buf s = Inr (int (length buf), set_fd i (\<lambda>fd. fd\<lparr>fd_offset := fd_offset fd + of_nat (length buf)\<rparr>) t)"
    using len by (simp add: devfile_write_def fsipc_def serve1_def jos_consts Let_def)
  moreover have "fd_open i f t" using op fd_open_more [OF m] by simp
  moreover have "fd_pg t i = fd_pg s i" using srv_fields [OF m] by simp
  ultimately show ?thesis using t(2) by blast
qed

lemma devfile_read_step:
  assumes op: "fd_open i f s" and len: "length buf \<le> 4096"
    and w: "\<forall>t :: srv. view t = view s \<longrightarrow> fs_good t = fs_good s \<longrightarrow> bc_inv t = bc_inv s \<longrightarrow>
      (\<exists>t'. file_read f (of_nat (length buf)) (fd_offset (fd_pg s i)) t = Inr ((int (length buf), buf), t'))"
  shows "\<exists>t. devfile_read i (of_nat (length buf)) s = Inr ((int (length buf), buf), t) \<and>
    fd_offset (fd_pg t i) = fd_offset (fd_pg s i) + of_nat (length buf)"
proof -
  let ?r = "reply 4 (bytes32 (of_nat (length buf))) (reply 0 (bytes32 (fd_file_id (fd_pg s i))) s)"
  obtain t where t: "file_read f (of_nat (length buf)) (fd_offset (fd_pg s i)) ?r = Inr ((int (length buf), buf), t)" using w [rule_format, of ?r] by auto
  have m: "fsd.more t = fsd.more ?r" using more_file_read [of ?r _ f "of_nat (length buf)" "fd_offset (fd_pg s i)"] t(1) by simp
  have r: "req32 ?r 0 = fd_file_id (fd_pg s i)" "req32 ?r 4 = of_nat (length buf)" by (simp_all add: req32_other req32_at)
  have f: "o_file (opentab s i) = f" using op by (simp add: fd_open_def)
  let ?t = "set_fd i (\<lambda>fd. fd\<lparr>fd_offset := fd_offset fd + of_nat (length buf)\<rparr>) (reply 0 buf t)"
  have "serve_read ?r = Inr (int (length buf), ?t)"
    unfolding serve_read_def r by (simp add: fd_open_lookup [OF op] f t(1) len not_less)
  then have "devfile_read i (of_nat (length buf)) s = Inr ((int (length buf), buf), ?t)"
    using len fsreq_read [of 0 buf t] by (simp add: devfile_read_def fsipc_def serve1_def jos_consts Let_def)
  moreover have "fd_pg t i = fd_pg s i" using srv_fields [OF m] by simp
  ultimately show ?thesis by simp
qed

text \<open>
  C5. Writing and reading back through the whole stack. A client holds a descriptor of an open file
  with offset \<open>p\<close> and writes at most 4088 bytes; the request travels in the shared page, the server
  finds the open file and the file system stores the bytes in blocks of the cache. The write returns
  the number of bytes and moves the shared offset behind them. When the client then seeks back to
  \<open>p\<close> and reads that many bytes, it gets exactly the bytes it wrote and the offset is again behind them.
\<close>

theorem devfile_write_read:
  assumes "fs_good s" "bc_inv s" "fd_open i f s" "file_inv (view s) f N" "fd_offset (fd_pg s i) = of_nat p"
    "p + length buf \<le> 4096 * N" "length buf \<le> 4088" "unat (view s (f_size f)) < 2 ^ 31"
    "span p (p + length buf) \<le> card (free_blocks (view s))"
  shows "\<exists>s' s''. devfile_write i buf s = Inr (int (length buf), s') \<and> fd_offset (fd_pg s' i) = of_nat (p + length buf) \<and>
    devfile_read i (of_nat (length buf)) (seek i (of_nat p) s') = Inr ((int (length buf), buf), s'') \<and>
    fd_offset (fd_pg s'' i) = of_nat (p + length buf)"
proof -
  let ?P = "\<lambda>t. fs_good t \<and> bc_inv t \<and> file_inv (view t) f N \<and> unat (view t (f_size f)) = max (unat (view s (f_size f))) (p + length buf) \<and>
    (\<forall>x. p \<le> x \<longrightarrow> x < p + length buf \<longrightarrow> fblock (view t) f (x div 4096) \<noteq> 0) \<and> map (fbyte (view t) f) [p..<p + length buf] = buf"
  have w: "\<exists>t'. file_write f buf (fd_offset (fd_pg s i)) t = Inr (int (length buf), t') \<and> ?P t'"
    if "view t = view s" "fs_good t = fs_good s" "bc_inv t = bc_inv s" for t :: srv
    using file_write_ok [of t f N p buf] assms that by auto
  obtain t where t: "?P t" "fd_open i f t" "fd_pg t i = fd_pg s i"
    "devfile_write i buf s = Inr (int (length buf), set_fd i (\<lambda>fd. fd\<lparr>fd_offset := fd_offset fd + of_nat (length buf)\<rparr>) t)"
    using devfile_write_step [OF assms(3,7), of ?P] w by blast
  let ?s' = "set_fd i (\<lambda>fd. fd\<lparr>fd_offset := fd_offset fd + of_nat (length buf)\<rparr>) t"
  let ?k = "seek i (of_nat p) ?s'"
  have k: "fd_offset (fd_pg ?k i) = of_nat p" "view ?k = view t" "fs_good ?k" "bc_inv ?k" "fd_open i f ?k"
    using t(1,2) by (simp_all add: seek_def)
  have sz: "p + length buf \<le> unat (view t (f_size f))" "unat (view t (f_size f)) < 2 ^ 31"
    using t(1) assms(8) file_inv_range [OF assms(4,6)] by auto
  have r: "\<exists>t'. file_read f (of_nat (length buf)) (fd_offset (fd_pg ?k i)) u = Inr ((int (length buf), buf), t')"
    if "view u = view ?k" "fs_good u = fs_good ?k" "bc_inv u = bc_inv ?k" for u :: srv
    using file_read_back [of u f N p buf] that k t(1) sz assms(6) by simp
  obtain u where "devfile_read i (of_nat (length buf)) ?k = Inr ((int (length buf), buf), u)"
    "fd_offset (fd_pg u i) = fd_offset (fd_pg ?k i) + of_nat (length buf)"
    using devfile_read_step [OF k(5), of buf] r assms(7) by auto
  then show ?thesis using t(3,4) assms(5) k(1) by simp
qed

definition demo_srv :: srv where
  "demo_srv = \<lparr>bc_mem = (\<lambda>_. 0), bc_mapped = (\<lambda>_. False), bc_dirty = (\<lambda>_. False), disk = demo_disk, io_fails = (\<lambda>_. False),
     opentab = (\<lambda>i. \<lparr>o_fileid = of_nat i, o_file = 3072, o_mode = 2\<rparr>), fd_ref = (\<lambda>_. 2),
     fd_pg = (\<lambda>i. \<lparr>fd_dev_id = 0x66, fd_offset = 4094, fd_omode = 2, fd_file_id = of_nat i\<rparr>), no_page = False, fsreq = (\<lambda>_. 0)\<rparr>"

lemma demo_srv_fs: "view demo_srv = demo_disk" "fs_good demo_srv" "bc_inv demo_srv"
proof -
  show v: "view demo_srv = demo_disk" by (simp add: fun_eq_iff view_def demo_srv_def)
  show "fs_good demo_srv" using demo_ok(1) unfolding fs_good_def v view_demo by (simp add: demo_srv_def demo_fs_def)
  show "bc_inv demo_srv" by (simp add: bc_inv_def demo_srv_def)
qed

theorem devfile_write_read_witness:
  "\<exists>s' s''. devfile_write 5 [1, 2, 3, 4] demo_srv = Inr (4, s') \<and>
     devfile_read 5 4 (seek 5 4094 s') = Inr ((4, [1, 2, 3, 4]), s'') \<and> fd_offset (fd_pg s'' 5) = 4098"
proof -
  have "fd_open 5 3072 demo_srv" "fd_offset (fd_pg demo_srv 5) = of_nat 4094"
    by (simp_all add: fd_open_def demo_srv_def MAXOPEN_def)
  moreover have "span 4094 4098 = 2" by (simp add: span_def)
  ultimately show ?thesis
    using devfile_write_read [OF demo_srv_fs(2,3), of 5 3072 2 4094 "[1, 2, 3, 4]"] demo_file demo_srv_fs(1) by auto
qed

end
