(* ===== verification/Chksum.thy ===== *)
theory Chksum
  imports Bytes
begin

text \<open>
  \<open>net/lwip/core/ipv4/inet_chksum.c\<close>: the Internet checksum of the network stack. The three
  implementations of \<open>lwip_standard_chksum\<close> that the file offers, of which the configuration compiles
  the first, and the functions over chains of packet buffers. A buffer is the list of its bytes; the
  versions that read it by larger units also take its address. The network stack runs on a
  little-endian machine.
\<close>

definition htons :: "16 word \<Rightarrow> 16 word" where
  "htons n = push_bit 8 (n AND 0xff) OR drop_bit 8 (n AND 0xff00)"

definition SWAP_BYTES_IN_WORD :: "32 word \<Rightarrow> 32 word" where
  "SWAP_BYTES_IN_WORD w = push_bit 8 (w AND 0xff) OR drop_bit 8 (w AND 0xff00)"

definition FOLD_U32T :: "32 word \<Rightarrow> 32 word" where
  "FOLD_U32T u = drop_bit 16 u + (u AND 0xffff)"

section \<open>Version 1: byte by byte\<close>

fun add_octets :: "32 word \<Rightarrow> 8 word list \<Rightarrow> 32 word" where
  "add_octets acc (a # b # bs) = add_octets (acc + (push_bit 8 (ucast a) OR ucast b)) bs"
| "add_octets acc [a] = acc + push_bit 8 (ucast a)"
| "add_octets acc [] = acc"

definition lwip_standard_chksum :: "8 word list \<Rightarrow> 16 word" where
  "lwip_standard_chksum bs =
     (let acc = add_octets 0 bs;
          acc = drop_bit 16 acc + (acc AND 0xffff);
          acc = (if acc AND 0xffff0000 \<noteq> 0 then drop_bit 16 acc + (acc AND 0xffff) else acc)
      in htons (ucast acc))"

section \<open>Version 2: two bytes at a time\<close>

definition load16 :: "8 word \<Rightarrow> 8 word \<Rightarrow> 32 word" where
  "load16 a b = ucast a OR push_bit 8 (ucast b)"

text \<open>The loop over 16-bit words returns the sum and the byte that may be left.\<close>

fun add_shorts :: "32 word \<Rightarrow> 8 word list \<Rightarrow> 32 word \<times> 8 word list" where
  "add_shorts acc (a # b # bs) = add_shorts (acc + load16 a b) bs"
| "add_shorts acc [a] = (acc, [a])"
| "add_shorts acc [] = (acc, [])"

definition get_aligned :: "bool \<Rightarrow> 8 word list \<Rightarrow> 16 word \<times> 8 word list" where
  "get_aligned is_odd bs = (if is_odd \<and> bs \<noteq> [] then (push_bit 8 (ucast (hd bs)), tl bs) else (0, bs))"

definition left_over :: "16 word \<Rightarrow> 8 word list \<Rightarrow> 16 word" where
  "left_over t bs = (case bs of [] \<Rightarrow> t | b # _ \<Rightarrow> (t AND 0xff00) OR ucast b)"

definition lwip_standard_chksum_2 :: "32 word \<Rightarrow> 8 word list \<Rightarrow> 16 word" where
  "lwip_standard_chksum_2 pb bs =
     (let odd = (pb AND 1 \<noteq> 0);
          (t, bs) = get_aligned odd bs;
          (sum, bs) = add_shorts 0 bs;
          sum = sum + ucast (left_over t bs);
          sum = FOLD_U32T (FOLD_U32T sum);
          sum = (if odd then SWAP_BYTES_IN_WORD sum else sum)
      in ucast sum)"

section \<open>Version 3: eight bytes at a time\<close>

definition load32 :: "8 word \<Rightarrow> 8 word \<Rightarrow> 8 word \<Rightarrow> 8 word \<Rightarrow> 32 word" where
  "load32 a b c d = word32 [a, b, c, d]"

definition add_carry :: "32 word \<Rightarrow> 32 word \<Rightarrow> 32 word" where
  "add_carry acc x = (let tmp = acc + x in if tmp < acc then tmp + 1 else tmp)"

function add_longs :: "32 word \<Rightarrow> 8 word list \<Rightarrow> 32 word \<times> 8 word list" where
  "add_longs acc bs =
     (if length bs > 7
      then add_longs (add_carry (add_carry acc (load32 (bs ! 0) (bs ! 1) (bs ! 2) (bs ! 3))) (load32 (bs ! 4) (bs ! 5) (bs ! 6) (bs ! 7)))
             (drop 8 bs)
      else (acc, bs))"
  by pat_completeness auto
termination by (relation "measure (length \<circ> snd)") auto

declare add_longs.simps [simp del]

definition lwip_standard_chksum_3 :: "32 word \<Rightarrow> 8 word list \<Rightarrow> 16 word" where
  "lwip_standard_chksum_3 pb bs =
     (let odd = (pb AND 1 \<noteq> 0);
          (t, bs') = get_aligned odd bs;
          ps = (if odd \<and> bs \<noteq> [] then pb + 1 else pb);
          (sum, bs') = (if ps AND 3 \<noteq> 0 \<and> length bs' > 1 then (load16 (bs' ! 0) (bs' ! 1), drop 2 bs') else (0, bs'));
          (sum, bs') = add_longs sum bs';
          sum = FOLD_U32T sum;
          (sum, bs') = add_shorts sum bs';
          sum = sum + ucast (left_over t bs');
          sum = FOLD_U32T (FOLD_U32T sum);
          sum = (if odd then SWAP_BYTES_IN_WORD sum else sum)
      in ucast sum)"

section \<open>Checksums of buffers and chains\<close>

definition inet_chksum :: "8 word list \<Rightarrow> 16 word" where
  "inet_chksum bs = NOT (lwip_standard_chksum bs)"

text \<open>
  The loop over a chain of packet buffers, with the flag \<open>swapped\<close>. A buffer of odd length shifts the
  rest of the data to the other byte of the words, for which the code swaps the sum.
\<close>

fun chain_sum :: "32 word \<Rightarrow> bool \<Rightarrow> 8 word list list \<Rightarrow> 32 word \<times> bool" where
  "chain_sum acc swapped [] = (acc, swapped)"
| "chain_sum acc swapped (q # qs) =
     (let acc = FOLD_U32T (acc + ucast (lwip_standard_chksum q))
      in if length q mod 2 \<noteq> 0 then chain_sum (SWAP_BYTES_IN_WORD acc) (\<not> swapped) qs else chain_sum acc swapped qs)"

definition inet_chksum_pbuf :: "8 word list list \<Rightarrow> 16 word" where
  "inet_chksum_pbuf p =
     (let (acc, swapped) = chain_sum 0 False p;
          acc = (if swapped then SWAP_BYTES_IN_WORD acc else acc)
      in ucast (NOT (acc AND 0xffff)))"

text \<open>Addresses are in network order, which is how they lie in memory.\<close>

definition add_pseudo :: "32 word \<Rightarrow> 32 word \<Rightarrow> 32 word \<Rightarrow> 8 word \<Rightarrow> 16 word \<Rightarrow> 16 word" where
  "add_pseudo acc src dest proto proto_len =
     (let acc = acc + (src AND 0xffff) + (drop_bit 16 src AND 0xffff) + (dest AND 0xffff) + (drop_bit 16 dest AND 0xffff)
            + ucast (htons (ucast proto)) + ucast (htons proto_len);
          acc = FOLD_U32T (FOLD_U32T acc)
      in ucast (NOT (acc AND 0xffff)))"

definition inet_chksum_pseudo :: "8 word list list \<Rightarrow> 32 word \<Rightarrow> 32 word \<Rightarrow> 8 word \<Rightarrow> 16 word \<Rightarrow> 16 word" where
  "inet_chksum_pseudo p src dest proto proto_len =
     (let (acc, swapped) = chain_sum 0 False p;
          acc = (if swapped then SWAP_BYTES_IN_WORD acc else acc)
      in add_pseudo acc src dest proto proto_len)"

text \<open>The loop of \<open>inet_chksum_pseudo_partial\<close>; the result is \<open>None\<close> when its assertion fails.\<close>

fun chain_sum_partial :: "32 word \<Rightarrow> bool \<Rightarrow> nat \<Rightarrow> 8 word list list \<Rightarrow> (32 word \<times> bool) option" where
  "chain_sum_partial acc swapped chksum_len [] = Some (acc, swapped)"
| "chain_sum_partial acc swapped chksum_len (q # qs) =
     (if chksum_len = 0 then Some (acc, swapped)
      else
        let chklen = min (length q) chksum_len;
            acc = acc + ucast (lwip_standard_chksum (take chklen q));
            chksum_len = chksum_len - chklen
        in if \<not> chksum_len < 0x7fff then None
           else
             let acc = FOLD_U32T acc
             in if length q mod 2 \<noteq> 0 then chain_sum_partial (SWAP_BYTES_IN_WORD acc) (\<not> swapped) chksum_len qs
                else chain_sum_partial acc swapped chksum_len qs)"

definition inet_chksum_pseudo_partial ::
    "8 word list list \<Rightarrow> 32 word \<Rightarrow> 32 word \<Rightarrow> 8 word \<Rightarrow> 16 word \<Rightarrow> 16 word \<Rightarrow> 16 word option" where
  "inet_chksum_pseudo_partial p src dest proto proto_len chksum_len =
     (case chain_sum_partial 0 False (unat chksum_len) p of
        None \<Rightarrow> None
      | Some (acc, swapped) \<Rightarrow>
          Some (add_pseudo (if swapped then SWAP_BYTES_IN_WORD acc else acc) src dest proto proto_len))"

section \<open>Sums modulo 65535\<close>

text \<open>
  A number stands for a sum if it is congruent to it modulo 65535 and is zero only if the sum is: this
  is what addition with end-around carry keeps.
\<close>

definition rep :: "nat \<Rightarrow> nat \<Rightarrow> bool" where
  "rep x n \<longleftrightarrow> x mod 65535 = n mod 65535 \<and> (x = 0 \<longleftrightarrow> n = 0)"

lemma rep_refl [simp]: "rep x x"
  by (simp add: rep_def)

lemma rep_sym: "rep x y \<Longrightarrow> rep y x"
  by (simp add: rep_def)

lemma rep_trans [trans]: "rep x y \<Longrightarrow> rep y z \<Longrightarrow> rep x z"
  by (simp add: rep_def)

lemma rep_add: "rep x n \<Longrightarrow> rep y m \<Longrightarrow> rep (x + y) (n + m)"
  by (simp add: rep_def) (metis mod_add_cong)

lemma rep_mult: "rep x n \<Longrightarrow> rep (k * x) (k * n)"
  by (simp add: rep_def) (metis mod_mult_right_eq)

lemma rep_mult_65536: "rep (65536 * x) x"
proof -
  have "65536 * x = x + 65535 * x" by simp
  then show ?thesis by (simp only: rep_def mod_mult_self2) simp
qed

lemma rep_unique: "rep x n \<Longrightarrow> rep y n \<Longrightarrow> x \<le> 65535 \<Longrightarrow> y \<le> 65535 \<Longrightarrow> x = y"
  unfolding rep_def by (cases "x = 65535"; cases "y = 65535") auto

fun le_sum :: "8 word list \<Rightarrow> nat" and be_sum :: "8 word list \<Rightarrow> nat" where
  "le_sum [] = 0"
| "le_sum (a # bs) = unat a + be_sum bs"
| "be_sum [] = 0"
| "be_sum (a # bs) = 256 * unat a + le_sum bs"

lemma le_be_sum: "rep (256 * be_sum bs) (le_sum bs)" "rep (256 * le_sum bs) (be_sum bs)"
proof (induction bs)
  case (Cons a bs)
  have "rep (65536 * unat a + 256 * le_sum bs) (unat a + be_sum bs)" by (intro rep_add rep_mult_65536 Cons)
  moreover have "rep (256 * unat a + 256 * be_sum bs) (256 * unat a + le_sum bs)" by (intro rep_add rep_refl Cons)
  ultimately show "rep (256 * be_sum (a # bs)) (le_sum (a # bs))" "rep (256 * le_sum (a # bs)) (be_sum (a # bs))"
    by (simp_all add: algebra_simps)
qed simp_all

lemma le_sum_append: "le_sum (xs @ ys) = le_sum xs + (if even (length xs) then le_sum ys else be_sum ys)"
  "be_sum (xs @ ys) = be_sum xs + (if even (length xs) then be_sum ys else le_sum ys)"
  by (induction xs) simp_all

lemma unat8: "unat (a :: 8 word) \<le> 255" "unat a < 256"
proof -
  have "unat a < 2 ^ LENGTH(8)" by (rule unsigned_less)
  then show "unat a \<le> 255" "unat a < 256" by simp_all
qed

lemma unat_word32: "unat (u :: 32 word) < 4294967296"
proof -
  have "unat u < 2 ^ LENGTH(32)" by (rule unsigned_less)
  then show ?thesis by simp
qed

lemma le_sum_bound: "le_sum bs \<le> 65535 * ((length bs + 1) div 2)" "be_sum bs \<le> 65535 * ((length bs + 1) div 2)"
proof (induction bs rule: induct_list012)
  case (3 a b bs)
  show "le_sum (a # b # bs) \<le> 65535 * ((length (a # b # bs) + 1) div 2)"
    "be_sum (a # b # bs) \<le> 65535 * ((length (a # b # bs) + 1) div 2)"
    using 3(1,2) unat8(1) [of a] unat8(1) [of b] by simp_all
next
  case (2 a)
  show "le_sum [a] \<le> 65535 * ((length [a] + 1) div 2)" "be_sum [a] \<le> 65535 * ((length [a] + 1) div 2)"
    using unat8(1) [of a] by simp_all
qed simp_all

section \<open>The operations on words\<close>

lemma byte_pair: "(ucast (b :: 8 word) OR push_bit 8 (ucast (a :: 8 word)) :: 32 word) = of_nat (unat b + 256 * unat a)"
proof -
  have "ucast b OR push_bit 8 (ucast a) = (ucast b + push_bit 8 (ucast a) :: 32 word)"
    by (rule disjunctive_add [symmetric]) (auto simp: bit_simps dest: bit_imp_le_length)
  also have "\<dots> = of_nat (unat b + 256 * unat a)" by (simp add: push_bit_eq_mult)
  finally show ?thesis .
qed

lemma unat_byte_pair: "unat (of_nat (unat (b :: 8 word) + 256 * unat (a :: 8 word)) :: 32 word) = unat b + 256 * unat a"
proof -
  have "unat b + 256 * unat a < 2 ^ LENGTH(32)" using unat8(1) [of a] unat8(1) [of b] by simp
  then show ?thesis by (simp only: unat_of_nat mod_less)
qed

lemma unat_plus32: "unat (x :: 32 word) + n < 2 ^ 32 \<Longrightarrow> unat (x + of_nat n) = unat x + n"
  by (simp add: unat_word_ariths unat_of_nat)

lemma unat_FOLD: "unat (FOLD_U32T u) = unat u div 65536 + unat u mod 65536"
proof -
  note u = unat_word32 [of u]
  have m: "u AND 0xffff = take_bit 16 u" by (simp add: take_bit_eq_mask mask_numeral)
  have "unat (u AND 0xffff) = unat u mod 65536" unfolding m unsigned_take_bit_eq by (simp add: take_bit_eq_mod)
  moreover have "unat (drop_bit 16 u) = unat u div 65536" unfolding unat_drop_bit_eq by (simp add: drop_bit_eq_div)
  moreover have "unat u div 65536 + unat u mod 65536 < 4294967296" using u by linarith
  ultimately show ?thesis by (simp add: FOLD_U32T_def unat_word_ariths)
qed

lemma FOLD_rep: "rep (unat (FOLD_U32T u)) (unat u)"
proof -
  have "rep (unat u div 65536 + unat u mod 65536) (65536 * (unat u div 65536) + unat u mod 65536)"
    by (intro rep_add rep_refl rep_sym [OF rep_mult_65536])
  then show ?thesis by (simp only: unat_FOLD mult_div_mod_eq)
qed

lemma FOLD_bound: "unat (FOLD_U32T u) \<le> 131070" "unat u \<le> 131070 \<Longrightarrow> unat (FOLD_U32T u) \<le> 65535"
proof -
  have "unat u div 65536 \<le> 65535" "unat u mod 65536 \<le> 65535" using unat_word32 [of u] by linarith+
  then show "unat (FOLD_U32T u) \<le> 131070" by (simp only: unat_FOLD)
  assume "unat u \<le> 131070"
  then have "unat u div 65536 = 0 \<and> unat u < 65536 \<or> unat u div 65536 = 1" by linarith
  then show "unat (FOLD_U32T u) \<le> 65535"
    using \<open>unat u \<le> 131070\<close> minus_mult_div_eq_mod [of "unat u" 65536] by (auto simp: unat_FOLD)
qed

lemma FOLD2: "unat (FOLD_U32T (FOLD_U32T u)) \<le> 65535" "rep (unat (FOLD_U32T (FOLD_U32T u))) (unat u)"
  using FOLD_bound rep_trans [OF FOLD_rep FOLD_rep] by simp_all

lemma swap_nat: "(256 * (x mod 256) + x div 256) mod 65535 = 256 * x mod 65535" for x :: nat
proof -
  have "256 * x = (256 * (x mod 256) + x div 256) + 65535 * (x div 256)"
    using mult_div_mod_eq [of 256 x] by linarith
  then show ?thesis by (metis mod_mult_self2)
qed

lemma swap_rep: "rep (256 * (x mod 256) + x div 256) (256 * x)"
  unfolding rep_def swap_nat by (auto simp: div_eq_0_iff)

lemma unat_low_byte: "unat (ucast (u :: 'a :: len word) :: 8 word) = unat u mod 256"
  unfolding unsigned_ucast_eq by (simp add: take_bit_eq_mod)

lemma SWAP_bytes: "SWAP_BYTES_IN_WORD u = ucast (ucast (drop_bit 8 u) :: 8 word) OR push_bit 8 (ucast (ucast u :: 8 word))"
proof (rule bit_word_eqI)
  fix n assume "n < LENGTH(32)"
  have m: "(0xff :: 32 word) = mask 8" "(0xff00 :: 32 word) = push_bit 8 (mask 8)" by (simp_all add: mask_eq_exp_minus_1)
  show "bit (SWAP_BYTES_IN_WORD u) n = bit (ucast (ucast (drop_bit 8 u) :: 8 word) OR push_bit 8 (ucast (ucast u :: 8 word)) :: 32 word) n"
    unfolding SWAP_BYTES_IN_WORD_def m by (auto simp: bit_simps)
qed

lemma unat_SWAP:
  assumes "unat u \<le> 65535"
  shows "unat (SWAP_BYTES_IN_WORD u) = 256 * (unat u mod 256) + unat u div 256"
proof -
  have "unat (drop_bit 8 u) = unat u div 256" unfolding unat_drop_bit_eq by (simp add: drop_bit_eq_div)
  moreover have "unat u div 256 < 256" using assms by (simp add: div_less_iff_less_mult)
  ultimately show ?thesis unfolding SWAP_bytes byte_pair unat_byte_pair by (simp add: unat_low_byte)
qed

lemma SWAP_rep:
  assumes "unat u \<le> 65535"
  shows "unat (SWAP_BYTES_IN_WORD u) \<le> 65535" "rep (unat (SWAP_BYTES_IN_WORD u)) (256 * unat u)"
proof -
  have "unat u div 256 \<le> 255" "unat u mod 256 \<le> 255" using assms by linarith+
  then show "unat (SWAP_BYTES_IN_WORD u) \<le> 65535" unfolding unat_SWAP [OF assms] by linarith
  show "rep (unat (SWAP_BYTES_IN_WORD u)) (256 * unat u)" unfolding unat_SWAP [OF assms] by (rule swap_rep)
qed

lemma htons_SWAP: "ucast (htons n) = SWAP_BYTES_IN_WORD (ucast n)"
proof -
  have m: "(0xff :: 32 word) = mask 8" "(0xff00 :: 32 word) = push_bit 8 (mask 8)"
    "(0xff :: 16 word) = mask 8" "(0xff00 :: 16 word) = push_bit 8 (mask 8)" by (simp_all add: mask_eq_exp_minus_1)
  show ?thesis unfolding htons_def SWAP_BYTES_IN_WORD_def m by (rule bit_word_eqI) (auto simp: bit_simps)
qed

lemma unat_ucast16: "unat (u :: 32 word) \<le> 65535 \<Longrightarrow> unat (ucast u :: 16 word) = unat u"
  unfolding unsigned_ucast_eq by (simp add: take_bit_eq_mod)

lemma unat16: "unat (n :: 16 word) \<le> 65535" "unat (ucast n :: 32 word) = unat n"
proof -
  have "unat n < 2 ^ LENGTH(16)" by (rule unsigned_less)
  then show "unat n \<le> 65535" "unat (ucast n :: 32 word) = unat n" by (simp_all add: unsigned_ucast_eq take_bit_eq_mod)
qed

lemma unat_htons: "unat (htons n) = 256 * (unat n mod 256) + unat n div 256"
proof -
  have b: "unat (ucast n :: 32 word) \<le> 65535" using unat16 [of n] by simp
  have "unat (htons n) = unat (ucast (htons n) :: 32 word)" by (simp only: unat16)
  then show ?thesis unfolding htons_SWAP unat_SWAP [OF b] unat16(2) .
qed

section \<open>The three versions\<close>

lemma add_octets_sum: "unat acc + be_sum bs < 4294967296 \<Longrightarrow> unat (add_octets acc bs) = unat acc + be_sum bs"
proof (induction acc bs rule: add_octets.induct)
  case (1 acc a b bs)
  have "unat (acc + of_nat (unat b + 256 * unat a)) = unat acc + (unat b + 256 * unat a)"
    using 1(2) by (intro unat_plus32) simp
  then show ?case using 1 byte_pair [of b a] by (simp add: or.commute)
next
  case (2 acc a)
  have "unat (acc + of_nat (256 * unat a)) = unat acc + 256 * unat a" using 2 by (intro unat_plus32) simp
  then show ?case by (simp add: push_bit_eq_mult mult.commute)
qed simp

lemma add_shorts_sum:
  "unat acc + le_sum bs < 4294967296 \<Longrightarrow> add_shorts acc bs = (s, r) \<Longrightarrow> unat s + le_sum r = unat acc + le_sum bs \<and> length r < 2"
proof (induction acc bs rule: add_shorts.induct)
  case (1 acc a b bs)
  have "unat (acc + of_nat (unat a + 256 * unat b)) = unat acc + (unat a + 256 * unat b)"
    using 1(2) by (intro unat_plus32) simp
  then show ?case using 1 byte_pair [of a b] by (simp add: load16_def)
qed auto

lemma push_or: "push_bit 8 x OR ucast (b :: 8 word) = (256 * x + ucast b :: 32 word)"
proof -
  have "push_bit 8 x OR ucast b = (push_bit 8 x + ucast b :: 32 word)"
    by (rule disjunctive_add [symmetric]) (auto simp: bit_simps dest: bit_imp_le_length)
  then show ?thesis by (simp add: push_bit_eq_mult)
qed

lemma unat_load32: "unat (load32 a b c d) = unat a + 256 * unat b + 65536 * unat c + 16777216 * unat d"
proof -
  have "load32 a b c d = of_nat (unat a + 256 * unat b + 65536 * unat c + 16777216 * unat d)"
    by (simp add: load32_def word32_def push_or algebra_simps)
  moreover have "unat a + 256 * unat b + 65536 * unat c + 16777216 * unat d < 2 ^ LENGTH(32)"
    using unat8(1) [of a] unat8(1) [of b] unat8(1) [of c] unat8(1) [of d] by simp
  ultimately show ?thesis by (simp only: unat_of_nat mod_less)
qed

lemma load32_rep: "rep (unat (load32 a b c d)) (le_sum [a, b, c, d])"
proof -
  have "rep (unat a + 256 * unat b + 65536 * (unat c + 256 * unat d)) (unat a + 256 * unat b + (unat c + 256 * unat d))"
    by (intro rep_add rep_refl rep_mult_65536)
  then show ?thesis by (simp add: unat_load32 algebra_simps)
qed

lemma add_carry_rep: "rep (unat (add_carry s x)) (unat s + unat x)"
proof (cases "unat s + unat x < 4294967296")
  case True
  then have "unat (s + x) = unat s + unat x" by (simp add: unat_word_ariths)
  then show ?thesis by (simp add: add_carry_def Let_def word_less_nat_alt)
next
  case False
  then obtain k where k: "unat s + unat x = k + 4294967296" by (metis le_add_diff_inverse2 not_less)
  have "k < 4294967295" using k unat_word32 [of s] unat_word32 [of x] by linarith
  have sx: "unat (s + x) = k" using \<open>k < 4294967295\<close> by (simp add: unat_word_ariths k)
  have "s + x < s" using k unat_word32 [of x] by (simp add: word_less_nat_alt sx)
  moreover have "unat (s + x + 1) = k + 1" using \<open>k < 4294967295\<close> sx unat_plus32 [of "s + x" 1] by simp
  moreover have "k + 4294967296 = (k + 1) + 65535 * 65537" by simp
  then have "rep (k + 1) (k + 4294967296)" by (simp only: rep_def mod_mult_self2) simp
  ultimately show ?thesis by (simp add: add_carry_def Let_def k)
qed

lemma take_8: "length bs > 7 \<Longrightarrow> take 8 bs = [bs ! 0, bs ! 1, bs ! 2, bs ! 3] @ [bs ! 4, bs ! 5, bs ! 6, bs ! 7]"
  by (rule nth_equalityI) (auto simp: less_Suc_eq numeral_eq_Suc)

lemma add_longs_sum:
  "add_longs acc bs = (s, r) \<Longrightarrow> \<exists>cs. bs = cs @ r \<and> even (length cs) \<and> length r < 8 \<and> rep (unat s) (unat acc + le_sum cs)"
proof (induction acc bs rule: add_longs.induct)
  case (1 acc bs)
  show ?case
  proof (cases "length bs > 7")
    case True
    let ?x = "load32 (bs ! 0) (bs ! 1) (bs ! 2) (bs ! 3)" and ?y = "load32 (bs ! 4) (bs ! 5) (bs ! 6) (bs ! 7)"
    let ?acc = "add_carry (add_carry acc ?x) ?y"
    obtain cs where cs: "drop 8 bs = cs @ r" "even (length cs)" "length r < 8" "rep (unat s) (unat ?acc + le_sum cs)"
      using 1(1) [OF True] 1(2) True by (auto simp: add_longs.simps [of acc bs])
    have "rep (unat ?acc) (unat acc + unat ?x + unat ?y)"
      by (rule rep_trans [OF add_carry_rep rep_add [OF add_carry_rep rep_refl]])
    also have "rep \<dots> (unat acc + le_sum (take 8 bs))"
      unfolding take_8 [OF True] le_sum_append add.assoc by (auto intro!: rep_add load32_rep [simplified])
    finally have "rep (unat ?acc + le_sum cs) (unat acc + le_sum (take 8 bs) + le_sum cs)" by (intro rep_add rep_refl)
    then have "rep (unat s) (unat acc + le_sum (take 8 bs @ cs))"
      using cs(4) True by (auto intro: rep_trans simp: le_sum_append add.assoc)
    moreover have "bs = (take 8 bs @ cs) @ r" using cs(1) by (metis append.assoc append_take_drop_id)
    ultimately show ?thesis using cs(2,3) True by (intro exI [of _ "take 8 bs @ cs"]) simp
  next
    case False
    then show ?thesis using 1(2) by (intro exI [of _ "[]"]) (simp add: add_longs.simps [of acc bs])
  qed
qed

lemma high_zero: "v AND 0xffff0000 = 0 \<Longrightarrow> unat (v :: 32 word) \<le> 65535"
proof -
  assume z: "v AND 0xffff0000 = 0"
  have m: "(0xffff0000 :: 32 word) = push_bit 16 (mask 16)" by (simp add: mask_eq_exp_minus_1)
  have "v = take_bit 16 v"
  proof (rule bit_word_eqI)
    fix n assume n: "n < LENGTH(32)"
    have "\<not> bit (v AND push_bit 16 (mask 16)) n" using z unfolding m by simp
    then show "bit v n = bit (take_bit 16 v) n" using n by (auto simp: bit_simps)
  qed
  then have "unat v = unat (take_bit 16 v)" by simp
  then have "unat v = unat v mod 65536" unfolding unsigned_take_bit_eq by (simp add: take_bit_eq_mod)
  moreover have "unat v mod 65536 < 65536" by simp
  ultimately show ?thesis by linarith
qed

lemma chksum_1:
  assumes "length bs < 65536"
  shows "rep (unat (lwip_standard_chksum bs)) (le_sum bs)"
proof -
  let ?u = "add_octets 0 bs" and ?v = "FOLD_U32T (add_octets 0 bs)"
  let ?w = "if ?v AND 0xffff0000 \<noteq> 0 then FOLD_U32T ?v else ?v"
  have "(length bs + 1) div 2 \<le> 32768" using assms by simp
  then have "be_sum bs < 4294967296" using le_sum_bound(2) [of bs] by linarith
  then have u: "unat ?u = be_sum bs" using add_octets_sum [of 0 bs] by simp
  have w: "unat ?w \<le> 65535" "rep (unat ?w) (be_sum bs)"
    using high_zero [of ?v] FOLD2 [of ?u] FOLD_rep [of ?u] unfolding u by auto
  have "lwip_standard_chksum bs = htons (ucast ?w)" by (simp add: lwip_standard_chksum_def FOLD_U32T_def Let_def)
  then have "unat (lwip_standard_chksum bs) = 256 * (unat ?w mod 256) + unat ?w div 256"
    by (simp only: unat_htons unat_ucast16 [OF w(1)])
  then have "rep (unat (lwip_standard_chksum bs)) (256 * unat ?w)" by (simp only: swap_rep)
  also have "rep \<dots> (256 * be_sum bs)" using w(2) by (rule rep_mult)
  also have "rep \<dots> (le_sum bs)" by (rule le_be_sum)
  finally show ?thesis .
qed

lemma chksum_unique: "rep (unat v) n \<Longrightarrow> rep (unat w) n \<Longrightarrow> v = (w :: 16 word)"
  using rep_unique [of "unat v" n "unat w"] unat16(1) by (simp add: word_unat_eq_iff)

lemma unat_plus16: "unat (x :: 32 word) + unat (w :: 16 word) < 2 ^ 32 \<Longrightarrow> unat (x + ucast w) = unat x + unat w"
  using unat_plus32 [of x "unat w"] by simp

lemma left_over_sum: "length r < 2 \<Longrightarrow> unat (left_over (push_bit 8 (ucast (a :: 8 word))) r) = 256 * unat a + le_sum r"
proof -
  have u: "unat (of_nat (256 * unat a + unat b) :: 16 word) = 256 * unat a + unat b" for b :: "8 word"
  proof -
    have "256 * unat a + unat b < 2 ^ LENGTH(16)" using unat8(1) [of a] unat8(1) [of b] by simp
    then show ?thesis by (simp only: unat_of_nat mod_less)
  qed
  have m: "(0xff00 :: 16 word) = push_bit 8 (mask 8)" by (simp add: mask_eq_exp_minus_1)
  have p: "(push_bit 8 (ucast a) AND 0xff00) OR ucast b = (of_nat (256 * unat a + unat b) :: 16 word)" for b :: "8 word"
  proof -
    have "(push_bit 8 (ucast a) AND 0xff00) OR ucast b = (push_bit 8 (ucast a) OR ucast b :: 16 word)"
      unfolding m by (rule bit_word_eqI) (auto simp: bit_simps)
    also have "\<dots> = push_bit 8 (ucast a) + ucast b"
      by (rule disjunctive_add [symmetric]) (auto simp: bit_simps dest: bit_imp_le_length)
    finally show ?thesis by (simp add: push_bit_eq_mult)
  qed
  show "length r < 2 \<Longrightarrow> ?thesis"
  proof (cases r)
    case Nil
    then show ?thesis using u [of 0] by (simp add: left_over_def push_bit_eq_mult mult.commute)
  next
    case (Cons b bs)
    moreover assume "length r < 2"
    ultimately show ?thesis using u [of b] p [of b] by (simp add: left_over_def)
  qed
qed

text \<open>What the second and third version do with the sum; an odd start shifts the bytes by one.\<close>

definition from_odd :: "bool \<Rightarrow> 8 word list \<Rightarrow> nat" where
  "from_odd od bs = (if od \<and> bs \<noteq> [] then 256 * unat (hd bs) + le_sum (tl bs) else le_sum bs)"

lemma get_aligned_sum:
  assumes "get_aligned od bs = (t, r)"
  obtains a where "t = push_bit 8 (ucast (a :: 8 word))" "256 * unat a + le_sum r = from_odd od bs" "length r \<le> length bs"
proof (cases "od \<and> bs \<noteq> []")
  case True
  then show thesis using assms that [of "hd bs"] by (auto simp: get_aligned_def from_odd_def)
next
  case False
  then show thesis using assms that [of 0] by (auto simp: get_aligned_def from_odd_def)
qed

lemma finish_rep:
  assumes "rep (unat sm) (from_odd od bs)"
  shows "rep (unat (ucast (if od then SWAP_BYTES_IN_WORD (FOLD_U32T (FOLD_U32T sm)) else FOLD_U32T (FOLD_U32T sm)) :: 16 word)) (le_sum bs)"
proof -
  let ?s = "FOLD_U32T (FOLD_U32T sm)"
  have s: "unat ?s \<le> 65535" "rep (unat ?s) (from_odd od bs)" using FOLD2 [of sm] assms rep_trans by blast+
  show ?thesis
  proof (cases od)
    case True
    have "rep (unat (SWAP_BYTES_IN_WORD ?s)) (256 * from_odd od bs)"
      using SWAP_rep(2) [OF s(1)] rep_mult [OF s(2)] by (rule rep_trans)
    also have "rep \<dots> (le_sum bs)"
    proof (cases bs)
      case (Cons a r)
      have "rep (65536 * unat a + 256 * le_sum r) (unat a + be_sum r)" by (intro rep_add rep_mult_65536 le_be_sum)
      then show ?thesis using True Cons by (simp add: from_odd_def algebra_simps)
    qed (simp add: from_odd_def)
    finally show ?thesis using True unat_ucast16 [OF SWAP_rep(1) [OF s(1)]] by simp
  next
    case False
    then show ?thesis using s unat_ucast16 [OF s(1)] by (simp add: from_odd_def)
  qed
qed

lemma chksum_2:
  assumes "length bs < 65536"
  shows "rep (unat (lwip_standard_chksum_2 pb bs)) (le_sum bs)"
proof -
  let ?od = "pb AND 1 \<noteq> 0"
  obtain t r where t: "get_aligned ?od bs = (t, r)" by (metis prod.exhaust)
  obtain sm q where q: "add_shorts 0 r = (sm, q)" by (metis prod.exhaust)
  from t obtain a where a: "t = push_bit 8 (ucast (a :: 8 word))" "256 * unat a + le_sum r = from_odd ?od bs" "length r \<le> length bs"
    by (rule get_aligned_sum)
  have "(length r + 1) div 2 \<le> 32768" using assms a(3) by simp
  then have b: "le_sum r < 3000000000" using le_sum_bound(1) [of r] by linarith
  have q': "unat sm + le_sum q = le_sum r" "length q < 2" using add_shorts_sum [OF _ q] b by simp_all
  have l: "unat (left_over t q) = 256 * unat a + le_sum q" unfolding a(1) by (rule left_over_sum [OF q'(2)])
  have "unat (sm + ucast (left_over t q)) = unat sm + unat (left_over t q)"
    using q'(1) b unat16(1) [of "left_over t q"] by (intro unat_plus16) simp
  then have "unat (sm + ucast (left_over t q)) = from_odd ?od bs" using q'(1) a(2) l by simp
  then have "rep (unat (sm + ucast (left_over t q))) (from_odd ?od bs)" by simp
  from finish_rep [OF this] show ?thesis by (simp add: lwip_standard_chksum_2_def t q Let_def)
qed

text \<open>The first 16-bit word of the third version, if the buffer is not aligned to 32 bits.\<close>

lemma short_step:
  assumes "(if c \<and> length bs > 1 then (load16 (bs ! 0) (bs ! 1), drop 2 bs) else (0, bs)) = (sm, r)"
  shows "unat sm + le_sum r = le_sum bs"
proof (cases "c \<and> length bs > 1")
  case True
  then obtain a b cs where "bs = a # b # cs" by (metis One_nat_def less_numeral_extra(4) list.exhaust list.size(3) list.size(4) not_less_zero add_0)
  then show ?thesis using assms True byte_pair [of a b] unat_byte_pair [of a b] by (auto simp: load16_def)
next
  case False
  then show ?thesis using assms by (cases "c \<and> length bs > 1") auto
qed

lemma chksum_3:
  assumes "length bs < 65536"
  shows "rep (unat (lwip_standard_chksum_3 pb bs)) (le_sum bs)"
proof -
  let ?od = "pb AND 1 \<noteq> 0" and ?ps = "if pb AND 1 \<noteq> 0 \<and> bs \<noteq> [] then pb + 1 else pb"
  obtain t r where t: "get_aligned ?od bs = (t, r)" by (metis prod.exhaust)
  obtain s1 r1 where r1: "(if ?ps AND 3 \<noteq> 0 \<and> length r > 1 then (load16 (r ! 0) (r ! 1), drop 2 r) else (0, r)) = (s1, r1)" by (metis prod.exhaust)
  obtain s2 r2 where r2: "add_longs s1 r1 = (s2, r2)" by (metis prod.exhaust)
  obtain s3 r3 where r3: "add_shorts (FOLD_U32T s2) r2 = (s3, r3)" by (metis prod.exhaust)
  from t obtain a where a: "t = push_bit 8 (ucast (a :: 8 word))" "256 * unat a + le_sum r = from_odd ?od bs"
    by (rule get_aligned_sum)
  obtain cs where cs: "r1 = cs @ r2" "even (length cs)" "length r2 < 8" "rep (unat s2) (unat s1 + le_sum cs)"
    using add_longs_sum [OF r2] by blast
  have "(length r2 + 1) div 2 \<le> 4" using cs(3) by simp
  then have b: "unat (FOLD_U32T s2) + le_sum r2 < 500000" using le_sum_bound(1) [of r2] FOLD_bound(1) [of s2] by linarith
  have q: "unat s3 + le_sum r3 = unat (FOLD_U32T s2) + le_sum r2" "length r3 < 2" using add_shorts_sum [OF _ r3] b by simp_all
  have l: "unat (left_over t r3) = 256 * unat a + le_sum r3" unfolding a(1) by (rule left_over_sum [OF q(2)])
  have "unat (s3 + ucast (left_over t r3)) = unat s3 + unat (left_over t r3)"
    using q(1) b unat16(1) [of "left_over t r3"] by (intro unat_plus16) simp
  then have "unat (s3 + ucast (left_over t r3)) = 256 * unat a + (unat (FOLD_U32T s2) + le_sum r2)" using q(1) l by simp
  moreover have "rep (unat (FOLD_U32T s2) + le_sum r2) (unat s1 + le_sum cs + le_sum r2)"
    using rep_trans [OF FOLD_rep cs(4)] by (intro rep_add rep_refl)
  moreover have "unat s1 + le_sum cs + le_sum r2 = le_sum r"
    using short_step [OF r1] cs(1,2) by (simp add: le_sum_append)
  ultimately have "rep (unat (s3 + ucast (left_over t r3))) (from_odd ?od bs)" unfolding a(2) [symmetric] by (auto intro: rep_add)
  from finish_rep [OF this] show ?thesis unfolding lwip_standard_chksum_3_def Let_def t prod.case r1 r2 r3 .
qed

text \<open>The sum of RFC 1071: 16-bit words, a last odd byte padded with zero, added with end-around carry.\<close>

definition oc_add :: "nat \<Rightarrow> nat \<Rightarrow> nat" where
  "oc_add x y = (if x + y > 65535 then x + y - 65535 else x + y)"

fun oc_sum :: "8 word list \<Rightarrow> nat" where
  "oc_sum (a # b # bs) = oc_add (unat a + 256 * unat b) (oc_sum bs)"
| "oc_sum [a] = unat a"
| "oc_sum [] = 0"

lemma oc_add_rep: "rep (oc_add x y) (x + y)"
proof (cases "x + y > 65535")
  case True
  then obtain k where k: "x + y = k + 65535" "k > 0" by (metis add.commute add_diff_inverse_nat less_imp_le not_less zero_less_diff)
  then show ?thesis by (simp add: oc_add_def rep_def)
qed (simp add: oc_add_def)

lemma oc_sum_rep: "oc_sum bs \<le> 65535 \<and> rep (oc_sum bs) (le_sum bs)"
proof (induction bs rule: oc_sum.induct)
  case (1 a b bs)
  have "rep (oc_sum (a # b # bs)) (unat a + 256 * unat b + oc_sum bs)" by (simp add: oc_add_rep)
  also have "rep \<dots> (unat a + 256 * unat b + le_sum bs)" using 1 by (intro rep_add rep_refl) simp
  finally have "rep (oc_sum (a # b # bs)) (le_sum (a # b # bs))" by (simp add: add.assoc)
  moreover have "oc_sum (a # b # bs) \<le> 65535" using conjunct1 [OF 1] unat8(1) [of a] unat8(1) [of b] by (simp add: oc_add_def) linarith
  ultimately show ?case by simp
next
  case (2 a)
  then show ?case using unat8(1) [of a] by simp
qed simp

text \<open>
  C15. The three implementations of \<open>lwip_standard_chksum\<close> agree. Whatever the alignment of the buffer,
  the byte-wise version that is compiled, the version that reads 16-bit words and the unrolled
  version that adds 32-bit words with carry return the ones' complement sum of RFC 1071, in host
  order, of any buffer of less than 64 KB.
\<close>

theorem chksum_versions:
  assumes "length bs < 65536"
  shows "unat (lwip_standard_chksum bs) = oc_sum bs \<and> lwip_standard_chksum_2 pb bs = lwip_standard_chksum bs \<and>
    lwip_standard_chksum_3 pb bs = lwip_standard_chksum bs"
  using chksum_1 [OF assms] chksum_2 [OF assms, of pb] chksum_3 [OF assms, of pb] oc_sum_rep [of bs] rep_unique unat16(1) chksum_unique
  by blast

theorem chksum_versions_witness:
  "lwip_standard_chksum [0x45, 0, 0, 0x1c, 1] = 0x1c46 \<and> lwip_standard_chksum_3 3 [0x45, 0, 0, 0x1c, 1] = 0x1c46"
proof -
  have "length [0x45, 0, 0, 0x1c, 1 :: 8 word] < 65536" by simp
  moreover have "lwip_standard_chksum [0x45, 0, 0, 0x1c, 1] = 0x1c46" by code_simp
  ultimately show ?thesis using chksum_versions [of "[0x45, 0, 0, 0x1c, 1]" 3] by simp
qed

section \<open>Chains of buffers\<close>

text \<open>The sum in the order of bytes that the flag says.\<close>

definition side_sum :: "bool \<Rightarrow> 8 word list \<Rightarrow> nat" where
  "side_sum swapped bs = (if swapped then be_sum bs else le_sum bs)"

lemma side_sum_append: "side_sum (odd (length d)) (d @ q) = side_sum (odd (length d)) d + le_sum q"
  by (simp add: side_sum_def le_sum_append)

lemma side_sum_swap: "rep (256 * side_sum sw d) (side_sum (\<not> sw) d)"
  by (simp add: side_sum_def le_be_sum)

lemma fold_in:
  assumes "unat acc \<le> 65535" "rep (unat acc) n" "length q < 65536"
  shows "unat (FOLD_U32T (acc + ucast (lwip_standard_chksum q))) \<le> 65535"
    "rep (unat (FOLD_U32T (acc + ucast (lwip_standard_chksum q)))) (n + le_sum q)"
proof -
  have u: "unat (acc + ucast (lwip_standard_chksum q)) = unat acc + unat (lwip_standard_chksum q)"
    using assms(1) unat16(1) [of "lwip_standard_chksum q"] by (intro unat_plus16) simp
  then show "unat (FOLD_U32T (acc + ucast (lwip_standard_chksum q))) \<le> 65535"
    using assms(1) unat16(1) [of "lwip_standard_chksum q"] by (intro FOLD_bound(2)) simp
  have "rep (unat (acc + ucast (lwip_standard_chksum q))) (n + le_sum q)"
    unfolding u using assms(2) chksum_1 [OF assms(3)] by (rule rep_add)
  with FOLD_rep show "rep (unat (FOLD_U32T (acc + ucast (lwip_standard_chksum q)))) (n + le_sum q)" by (rule rep_trans)
qed

lemma swap_side:
  assumes "unat acc \<le> 65535" "rep (unat acc) (side_sum sw d)"
  shows "unat (SWAP_BYTES_IN_WORD acc) \<le> 65535" "rep (unat (SWAP_BYTES_IN_WORD acc)) (side_sum (\<not> sw) d)"
  using SWAP_rep [OF assms(1)] rep_trans [OF rep_mult [OF assms(2)] side_sum_swap] by (auto intro: rep_trans)

lemma chain_sum_rep:
  assumes "\<forall>q\<in>set qs. length q < 65536" "unat acc \<le> 65535" "sw = odd (length d)" "rep (unat acc) (side_sum sw d)"
    "chain_sum acc sw qs = (acc', sw')"
  shows "unat acc' \<le> 65535 \<and> rep (unat acc') (side_sum sw' (d @ concat qs))"
  using assms
proof (induction qs arbitrary: acc sw d)
  case (Cons q qs)
  let ?f = "FOLD_U32T (acc + ucast (lwip_standard_chksum q))"
  have q: "length q < 65536" using Cons.prems(1) by simp
  have f: "unat ?f \<le> 65535" "rep (unat ?f) (side_sum sw (d @ q))"
    using fold_in [OF Cons.prems(2,4) q] side_sum_append [of d q] Cons.prems(3) by simp_all
  show ?case
  proof (cases "odd (length q)")
    case True
    have "(\<not> sw) = odd (length (d @ q))" using True Cons.prems(3) by simp
    from Cons.IH [OF _ swap_side(1) [OF f] this swap_side(2) [OF f]] show ?thesis
      using Cons.prems(1,5) True by (simp add: Let_def odd_iff_mod_2_eq_one)
  next
    case False
    have "sw = odd (length (d @ q))" using False Cons.prems(3) by simp
    from Cons.IH [OF _ f(1) this f(2)] show ?thesis using Cons.prems(1,5) False by (simp add: Let_def odd_iff_mod_2_eq_one)
  qed
qed (simp add: chain_sum.simps)

lemma unswap:
  assumes "unat acc \<le> 65535" "rep (unat acc) (side_sum sw d)"
  shows "unat (if sw then SWAP_BYTES_IN_WORD acc else acc) \<le> 65535"
    "rep (unat (if sw then SWAP_BYTES_IN_WORD acc else acc)) (le_sum d)"
  using assms swap_side [OF assms] by (auto simp: side_sum_def)

lemma not_chksum:
  fixes acc :: "32 word"
  assumes "unat acc \<le> 65535" "rep (unat acc) (le_sum bs)" "length bs < 65536"
  shows "ucast (NOT (acc AND 0xffff)) = inet_chksum bs"
proof -
  have "ucast acc = lwip_standard_chksum bs"
    using chksum_unique [OF _ chksum_1 [OF assms(3)], of "ucast acc"] assms(2) unat_ucast16 [OF assms(1)] by simp
  moreover have "ucast (NOT (acc AND 0xffff)) = (NOT (ucast acc) :: 16 word)"
  proof (rule bit_word_eqI)
    fix n assume "n < LENGTH(16)"
    have m: "(0xffff :: 32 word) = mask 16" by (simp add: mask_eq_exp_minus_1)
    show "bit (ucast (NOT (acc AND 0xffff)) :: 16 word) n = bit (NOT (ucast acc) :: 16 word) n"
      unfolding m using \<open>n < LENGTH(16)\<close> by (auto simp: bit_simps)
  qed
  ultimately show ?thesis by (simp add: inet_chksum_def)
qed

lemma chksum_pbuf:
  assumes "length (concat p) < 65536"
  shows "inet_chksum_pbuf p = inet_chksum (concat p)"
proof -
  obtain acc sw where c: "chain_sum 0 False p = (acc, sw)" by (metis prod.exhaust)
  have "length q \<le> length (concat p)" if "q \<in> set p" for q using that by (induction p) auto
  then have "\<forall>q\<in>set p. length q < 65536" using assms by (meson le_less_trans)
  from chain_sum_rep [OF this _ _ _ c, of "[]"] have "unat acc \<le> 65535" "rep (unat acc) (side_sum sw (concat p))"
    by (simp_all add: side_sum_def)
  from not_chksum [OF unswap [OF this] assms] show ?thesis by (simp add: inet_chksum_pbuf_def c Let_def)
qed

text \<open>The pseudo header of TCP and UDP, as the bytes that would be sent.\<close>

definition pseudo_header :: "32 word \<Rightarrow> 32 word \<Rightarrow> 8 word \<Rightarrow> 16 word \<Rightarrow> 8 word list" where
  "pseudo_header src dest proto proto_len =
     bytes32 src @ bytes32 dest @ [0, proto, ucast (drop_bit 8 proto_len), ucast proto_len]"

lemma get_byte_ucast: "get_byte k w = ucast (drop_bit (8 * k) w)"
  by (rule bit_word_eqI) (auto simp: get_byte_def bit_simps)

lemma unat_drop: "unat (drop_bit n u) = unat u div 2 ^ n"
  unfolding unat_drop_bit_eq by (simp add: drop_bit_eq_div)

lemma unat_low16: "unat (v AND 0xffff) = unat (v :: 32 word) mod 65536"
proof -
  have m: "(0xffff :: 32 word) = mask 16" by (simp add: mask_eq_exp_minus_1)
  show ?thesis unfolding m take_bit_eq_mask [symmetric] unsigned_take_bit_eq by (simp add: take_bit_eq_mod)
qed

lemma two_bytes: "n mod 256 + 256 * (n div 256 mod 256) = n mod 65536" for n :: nat
  using mod_mult2_eq [of n 256 256] by simp

lemma le_sum_word: "le_sum (bytes32 w) = unat (w AND 0xffff) + unat (drop_bit 16 w AND 0xffff)"
proof -
  have 4: "n div 16777216 = n div 65536 div 256" for n :: nat by (simp add: div_mult2_eq [symmetric])
  show ?thesis by (simp add: bytes32_def get_byte_ucast unat_low_byte unat_drop unat_low16 4 two_bytes [symmetric])
qed

lemma add_pseudo_rep:
  assumes acc: "unat acc \<le> 65535" "rep (unat acc) (le_sum bs)" and len: "length bs + 12 < 65536"
  shows "add_pseudo acc src dest proto proto_len = inet_chksum (pseudo_header src dest proto proto_len @ bs)"
proof -
  let ?h = "pseudo_header src dest proto proto_len"
  let ?x = "acc + (src AND 0xffff) + (drop_bit 16 src AND 0xffff) + (dest AND 0xffff) + (drop_bit 16 dest AND 0xffff)
    + ucast (htons (ucast proto)) + ucast (htons proto_len)"
  let ?n = "unat acc + le_sum (bytes32 src) + le_sum (bytes32 dest) + unat (htons (ucast proto)) + unat (htons proto_len)"
  have b: "unat (v AND 0xffff) \<le> 65535" for v :: "32 word"
    unfolding unat_low16 using mod_less_divisor [of 65536 "unat v"] by linarith
  have "?n < 2 ^ 32"
    using acc(1) b [of src] b [of "drop_bit 16 src"] b [of dest] b [of "drop_bit 16 dest"]
      unat16(1) [of "htons (ucast proto)"] unat16(1) [of "htons proto_len"] unfolding le_sum_word by simp
  moreover have "unat ?x = ?n mod 2 ^ 32" by (simp add: unat_word_ariths mod_simps unat16(2) le_sum_word add.assoc)
  ultimately have x: "unat ?x = ?n" by simp
  have "unat (htons (ucast proto)) = le_sum [0, proto]"
    using unat8(2) [of proto] by (simp add: unat_htons unsigned_ucast_eq take_bit_eq_mod)
  moreover have "unat proto_len div 256 < 256" using unat16(1) [of proto_len] by linarith
  then have "unat (htons proto_len) = le_sum [ucast (drop_bit 8 proto_len), ucast proto_len]"
    by (simp add: unat_htons unat_low_byte unat_drop)
  ultimately have h: "?n = unat acc + le_sum ?h" by (simp add: pseudo_header_def le_sum_append bytes32_def)
  have "even (length ?h)" "length ?h = 12" by (simp_all add: pseudo_header_def bytes32_def)
  then have "rep (unat ?x) (le_sum (?h @ bs))"
    unfolding x h using rep_add [OF acc(2) rep_refl, of "le_sum ?h"] by (simp add: le_sum_append add.commute)
  then have "rep (unat (FOLD_U32T (FOLD_U32T ?x))) (le_sum (?h @ bs))" using FOLD2(2) rep_trans by blast
  from not_chksum [OF FOLD2(1) this] len \<open>length ?h = 12\<close> show ?thesis by (simp add: add_pseudo_def Let_def)
qed

lemma partial_zero: "chain_sum_partial acc sw 0 qs = Some (acc, sw)"
  by (cases qs) simp_all

text \<open>
  The parity of the last buffer does not matter even if only a part of it is summed: its swap is
  undone at the end.
\<close>

lemma chain_partial_rep:
  assumes "\<forall>q\<in>set qs. length q < 65536" "n < 0x7fff" "unat acc \<le> 65535" "sw = odd (length d)" "rep (unat acc) (side_sum sw d)"
  shows "\<exists>acc' sw'. chain_sum_partial acc sw n qs = Some (acc', sw') \<and> unat acc' \<le> 65535 \<and>
    rep (unat acc') (side_sum sw' (d @ take n (concat qs)))"
  using assms
proof (induction qs arbitrary: acc sw d n)
  case (Cons q qs)
  let ?c = "min (length q) n"
  let ?f = "FOLD_U32T (acc + ucast (lwip_standard_chksum (take ?c q)))"
  let ?g = "if odd (length q) then SWAP_BYTES_IN_WORD ?f else ?f" and ?sw = "if odd (length q) then \<not> sw else sw"
  have "length (take ?c q) < 65536" using Cons.prems(1) by (simp add: min_def)
  from fold_in [OF Cons.prems(3,5) this] have f: "unat ?f \<le> 65535" "rep (unat ?f) (side_sum sw (d @ take ?c q))"
    using side_sum_append [of d "take ?c q"] Cons.prems(4) by simp_all
  have g: "unat ?g \<le> 65535" "rep (unat ?g) (side_sum ?sw (d @ take ?c q))" using f swap_side [OF f] by simp_all
  have step: "chain_sum_partial acc sw n (q # qs) = chain_sum_partial ?g ?sw (n - ?c) qs" if "n \<noteq> 0"
    using that Cons.prems(2) by (auto simp: Let_def odd_iff_mod_2_eq_one)
  consider "n = 0" | "n \<noteq> 0" "n \<le> length q" | "length q < n" by linarith
  then show ?case
  proof cases
    case 1
    then show ?thesis using Cons.prems(3,5) by simp
  next
    case 2
    then show ?thesis using g unfolding step [OF 2(1)] by (simp add: partial_zero)
  next
    case 3
    have "?sw = odd (length (d @ take ?c q))" using 3 Cons.prems(4) by simp
    from Cons.IH [OF _ _ g(1) this g(2), of "n - ?c"] Cons.prems(1,2) 3 show ?thesis
      unfolding step [OF gr_implies_not0 [OF 3]] by simp
  qed
qed simp

text \<open>
  C16. Splitting a packet into a chain of buffers does not change its checksum. For every chain,
  whatever the lengths of its buffers, \<open>inet_chksum_pbuf\<close> is the checksum of the concatenated data,
  \<open>inet_chksum_pseudo\<close> is the checksum of the pseudo header followed by the data, and
  \<open>inet_chksum_pseudo_partial\<close>, for a length below the limit of its assertion, is the checksum of the
  pseudo header followed by the first bytes of the data.
\<close>

theorem chksum_chain:
  assumes "length (concat p) + 12 < 65536" "unat chksum_len < 0x7fff"
  shows "inet_chksum_pbuf p = inet_chksum (concat p) \<and>
    inet_chksum_pseudo p src dest proto proto_len = inet_chksum (pseudo_header src dest proto proto_len @ concat p) \<and>
    inet_chksum_pseudo_partial p src dest proto proto_len chksum_len =
      Some (inet_chksum (pseudo_header src dest proto proto_len @ take (unat chksum_len) (concat p)))"
proof -
  have "length q \<le> length (concat p)" if "q \<in> set p" for q using that by (induction p) auto
  then have q: "\<forall>q\<in>set p. length q < 65536" using assms(1) by fastforce
  obtain acc sw where c: "chain_sum 0 False p = (acc, sw)" by (metis prod.exhaust)
  have a: "unat acc \<le> 65535" "rep (unat acc) (side_sum sw (concat p))"
    using chain_sum_rep [OF q _ _ _ c, of "[]"] by (simp_all add: side_sum_def)
  obtain acc' sw' where c': "chain_sum_partial 0 False (unat chksum_len) p = Some (acc', sw')"
    "unat acc' \<le> 65535" "rep (unat acc') (side_sum sw' (take (unat chksum_len) (concat p)))"
    using chain_partial_rep [OF q assms(2), of 0 False "[]"] by (auto simp: side_sum_def)
  have "inet_chksum_pseudo p src dest proto proto_len = inet_chksum (pseudo_header src dest proto proto_len @ concat p)"
    using add_pseudo_rep [OF unswap [OF a] assms(1)] by (simp add: inet_chksum_pseudo_def c Let_def)
  moreover have "inet_chksum_pseudo_partial p src dest proto proto_len chksum_len =
      Some (inet_chksum (pseudo_header src dest proto proto_len @ take (unat chksum_len) (concat p)))"
    using add_pseudo_rep [OF unswap [OF c'(2,3)]] assms(1) by (simp add: inet_chksum_pseudo_partial_def c'(1))
  ultimately show ?thesis using chksum_pbuf [of p] assms(1) by simp
qed

theorem chksum_chain_witness:
  "inet_chksum_pbuf [[1], [2, 3], [4]] = inet_chksum [1, 2, 3, 4] \<and>
   inet_chksum_pseudo_partial [[1], [2, 3], [4]] 0x0100007f 0x0200007f 17 4 2 =
     Some (inet_chksum (pseudo_header 0x0100007f 0x0200007f 17 4 @ [1, 2]))"
  using chksum_chain [of "[[1], [2, 3], [4]]" 2 "0x0100007f" "0x0200007f" 17 4] by simp

lemma unat_not16: "unat (NOT w) = 65535 - unat (w :: 16 word)"
proof -
  have "NOT w = of_nat (65535 - unat w)" using unat16(1) [of w] by (simp add: not_eq_complement of_nat_diff)
  moreover have "65535 - unat w < 2 ^ LENGTH(16)" by simp
  ultimately show ?thesis by (simp only: unat_of_nat mod_less)
qed

text \<open>A 16-bit value as it is stored.\<close>

definition bytes16 :: "16 word \<Rightarrow> 8 word list" where
  "bytes16 w = [ucast w, ucast (drop_bit 8 w)]"

text \<open>
  C23. A packet with its checksum in it has checksum zero, which is what the receiver tests. If the
  checksum is computed over a packet whose checksum field, at an even position, is zero, and then
  stored in the field, \<open>inet_chksum\<close> of the packet is 0.
\<close>

theorem chksum_verifies:
  assumes "even (length xs)" "length xs + 2 + length ys < 65536"
  shows "inet_chksum (xs @ bytes16 (inet_chksum (xs @ [0, 0] @ ys)) @ ys) = 0"
proof -
  let ?c = "lwip_standard_chksum (xs @ [0, 0] @ ys)" and ?n = "le_sum xs + le_sum ys"
  let ?bs = "xs @ bytes16 (NOT ?c) @ ys"
  have len: "length (xs @ [0, 0] @ ys) < 65536" "length ?bs < 65536" using assms(2) by (simp_all add: bytes16_def)
  have c: "rep (unat ?c) ?n" using chksum_1 [OF len(1)] assms(1) by (simp add: le_sum_append)
  have "unat (NOT ?c) = 65535 - unat ?c" by (simp add: unat_not16)
  then have nc: "unat (NOT ?c) + unat ?c = 65535" using unat16(1) [of ?c] by simp
  have "unat w div 256 < 256" for w :: "16 word" using unat16(1) [of w] by linarith
  then have "le_sum (bytes16 w) = unat w" for w by (simp add: bytes16_def unat_low_byte unat_drop)
  then have "le_sum ?bs = unat (NOT ?c) + ?n" using assms(1) by (simp add: le_sum_append bytes16_def)
  also have "rep \<dots> (unat (NOT ?c) + unat ?c)" using c by (intro rep_add rep_refl) (rule rep_sym)
  finally have "rep (unat (lwip_standard_chksum ?bs)) 65535" unfolding nc using chksum_1 [OF len(2)] rep_trans by blast
  from rep_unique [OF this rep_refl] have "unat (lwip_standard_chksum ?bs) = 65535" using unat16(1) by simp
  then have "unat (NOT (lwip_standard_chksum ?bs)) = 0" by (simp only: unat_not16)
  then show ?thesis by (simp add: inet_chksum_def unsigned_eq_0_iff)
qed

theorem chksum_verifies_witness: "inet_chksum ([0x45, 0] @ bytes16 (inet_chksum ([0x45, 0] @ [0, 0] @ [7])) @ [7]) = 0"
  by (rule chksum_verifies) simp_all

end
