(* ===== verification/Inet.thy ===== *)
theory Inet
  imports Chksum
begin

text \<open>
  \<open>net/lwip/core/ipv4/inet.c\<close>: Internet addresses as numbers and as text. A C string is the list of
  its characters; reading behind the last one gives the terminating zero.
\<close>

section \<open>Byte order and characters\<close>

definition ntohs :: "16 word \<Rightarrow> 16 word" where
  "ntohs n = htons n"

definition htonl :: "32 word \<Rightarrow> 32 word" where
  "htonl n = push_bit 24 (n AND 0xff) OR push_bit 8 (n AND 0xff00) OR drop_bit 8 (n AND 0xff0000) OR drop_bit 24 (n AND 0xff000000)"

definition ntohl :: "32 word \<Rightarrow> 32 word" where
  "ntohl n = htonl n"

definition in_range :: "8 word \<Rightarrow> 8 word \<Rightarrow> 8 word \<Rightarrow> bool" where
  "in_range c lo up \<longleftrightarrow> lo \<le> c \<and> c \<le> up"

definition isprint :: "8 word \<Rightarrow> bool" where "isprint c = in_range c 0x20 0x7f"
definition isdigit :: "8 word \<Rightarrow> bool" where "isdigit c = in_range c 0x30 0x39"
definition isxdigit :: "8 word \<Rightarrow> bool" where
  "isxdigit c \<longleftrightarrow> isdigit c \<or> in_range c 0x61 0x66 \<or> in_range c 0x41 0x46"
definition islower :: "8 word \<Rightarrow> bool" where "islower c = in_range c 0x61 0x7a"
definition isspace :: "8 word \<Rightarrow> bool" where
  "isspace c \<longleftrightarrow> c = 0x20 \<or> c = 0x0c \<or> c = 0x0a \<or> c = 0x0d \<or> c = 0x09 \<or> c = 0x0b"

section \<open>From text to numbers\<close>

primrec aton_digits :: "32 word \<Rightarrow> 32 word \<Rightarrow> 8 word list \<Rightarrow> 32 word \<times> 8 word list" where
  "aton_digits base val [] = (val, [])"
| "aton_digits base val (c # cp) =
     (if isdigit c then aton_digits base (val * base + ucast (c - 0x30)) cp
      else if base = 16 \<and> isxdigit c
      then aton_digits base (push_bit 4 val OR ucast (c + 10 - (if islower c then 0x61 else 0x41))) cp
      else (val, c # cp))"

definition aton_base :: "8 word list \<Rightarrow> 32 word \<times> 8 word list" where
  "aton_base cp =
     (if hd cp = 0x30
      then if tl cp \<noteq> [] \<and> (hd (tl cp) = 0x78 \<or> hd (tl cp) = 0x58) then (16, tl (tl cp)) else (8, tl cp)
      else (10, cp))"

lemma aton_digits_length: "length (snd (aton_digits base val cp)) \<le> length cp"
  by (induction cp arbitrary: val) (auto simp: le_SucI)

lemma aton_base_length: "length (snd (aton_base cp)) \<le> length cp"
  by (simp add: aton_base_def)

text \<open>The outer loop: the parts before dots, the last value and the text that is left.\<close>

function aton_parts :: "32 word list \<Rightarrow> 8 word list \<Rightarrow> (32 word list \<times> 32 word \<times> 8 word list) option" where
  "aton_parts parts cp =
     (if cp = [] \<or> \<not> isdigit (hd cp) then None
      else
        let (base, cp1) = aton_base cp; (val, cp2) = aton_digits base 0 cp1
        in if cp2 \<noteq> [] \<and> hd cp2 = 0x2e
           then if length parts \<ge> 3 then None else aton_parts (parts @ [val]) (tl cp2)
           else Some (parts, val, cp2))"
  by pat_completeness auto
termination
proof (relation "measure (length \<circ> snd)", goal_cases)
  case (2 parts cp x base cp1 y val cp2)
  have "length cp2 \<le> length cp1" using aton_digits_length [of base 0 cp1] 2(4) by (metis snd_conv 2(5))
  moreover have "length cp1 \<le> length cp" using aton_base_length [of cp] 2(2,3) by (metis snd_conv)
  ultimately show ?case using 2(6) by (cases cp2) auto
qed simp

declare aton_parts.simps [simp del]

definition inet_aton :: "8 word list \<Rightarrow> 32 word option" where
  "inet_aton cp =
     (case aton_parts [] cp of
        None \<Rightarrow> None
      | Some (parts, val, rest) \<Rightarrow>
          let c = (case rest of [] \<Rightarrow> 0 | c # _ \<Rightarrow> c)
          in if c \<noteq> 0 \<and> (\<not> isprint c \<or> \<not> isspace c) then None
             else
               map_option htonl
                 (case parts of
                    [] \<Rightarrow> Some val
                  | [a] \<Rightarrow> if val > 0xffffff then None else Some (val OR push_bit 24 a)
                  | [a, b] \<Rightarrow> if val > 0xffff then None else Some (val OR push_bit 24 a OR push_bit 16 b)
                  | a # b # d # _ \<Rightarrow> if val > 0xff then None else Some (val OR push_bit 24 a OR push_bit 16 b OR push_bit 8 d)))"

definition INADDR_NONE :: "32 word" where "INADDR_NONE = 0xffffffff"

definition inet_addr :: "8 word list \<Rightarrow> 32 word" where
  "inet_addr cp = (case inet_aton cp of Some v \<Rightarrow> v | None \<Rightarrow> INADDR_NONE)"

section \<open>From numbers to text\<close>

text \<open>The digits of a byte in the order in which they go to \<open>inv\<close>.\<close>

function inv_digits :: "8 word \<Rightarrow> 8 word list" where
  "inv_digits ap = (0x30 + ap mod 10) # (if ap div 10 \<noteq> 0 then inv_digits (ap div 10) else [])"
  by pat_completeness auto
termination
proof (relation "measure unat")
  fix ap :: "8 word" assume "ap div 10 \<noteq> 0"
  then have "ap \<noteq> 0" by auto
  then have "unat ap \<noteq> 0" by (simp add: unsigned_eq_0_iff)
  then have "unat ap div 10 < unat ap" by simp
  then show "(ap div 10, ap) \<in> measure unat" by (simp add: unat_div)
qed simp

declare inv_digits.simps [simp del]

definition inet_ntoa :: "32 word \<Rightarrow> 8 word list" where
  "inet_ntoa addr = butlast (concat (map (\<lambda>ap. rev (inv_digits ap) @ [0x2e]) (bytes32 addr)))"

section \<open>Round trip\<close>

lemma inv_digits_isdigit: "c \<in> set (inv_digits b) \<Longrightarrow> isdigit c"
proof (induction b rule: inv_digits.induct)
  case (1 b)
  have "unat (b mod 10) < 10" by (simp add: unat_mod)
  then have "unat (0x30 + b mod 10) = 48 + unat (b mod 10)" by (simp add: unat_word_ariths)
  then have "isdigit (0x30 + b mod 10)" using \<open>unat (b mod 10) < 10\<close> by (simp add: isdigit_def in_range_def word_le_nat_alt)
  then show ?case using 1 inv_digits.simps [of b] by (auto split: if_splits)
qed

lemma inv_digits_nonempty: "inv_digits b \<noteq> []"
  by (simp add: inv_digits.simps [of b])

lemma inv_digits_lead: "last (inv_digits b) = 0x30 \<Longrightarrow> b = 0"
proof (induction b rule: inv_digits.induct)
  case (1 b)
  show ?case
  proof (cases "b div 10 = 0")
    case True
    then have "unat (b div 10) = 0" by simp
    then have "unat b div 10 = 0" by (simp add: unat_div)
    then have "unat b < 10" by simp
    then have "b mod 10 = b" by (simp add: word_unat_eq_iff unat_mod)
    then show ?thesis using 1(2) True inv_digits.simps [of b] by simp
  next
    case False
    then show ?thesis using 1 inv_digits.simps [of b] by (simp add: inv_digits_nonempty)
  qed
qed

lemma inv_digits_value:
  "foldl (\<lambda>v c. v * 10 + ucast (c - 0x30)) 0 (rev (inv_digits b)) = (ucast b :: 32 word)"
proof (induction b rule: inv_digits.induct)
  case (1 b)
  have u: "(ucast x :: 32 word) = of_nat (unat x)" for x :: "8 word" by simp
  have q: "unat (b div 10) = unat b div 10" "unat (b mod 10) = unat b mod 10" by (simp_all add: unat_div unat_mod)
  have "ucast (b div 10) * 10 + ucast (b mod 10) = (of_nat (unat b div 10) * 10 + of_nat (unat b mod 10) :: 32 word)"
    unfolding u q ..
  also have "\<dots> = of_nat (unat b div 10 * 10 + unat b mod 10)" by (simp only: of_nat_add of_nat_mult of_nat_numeral)
  also have "\<dots> = of_nat (unat b)" by (simp only: div_mult_mod_eq)
  also have "\<dots> = ucast b" by simp
  finally have d: "ucast (b div 10) * 10 + ucast (b mod 10) = (ucast b :: 32 word)" .
  show ?case
  proof (cases "b div 10 = 0")
    case True
    then show ?thesis using d inv_digits.simps [of b] by simp
  next
    case False
    then show ?thesis using 1 d inv_digits.simps [of b] by simp
  qed
qed

lemma inv_digits_length: "length (inv_digits b) \<le> 3"
proof -
  have "unat (b div 10 div 10) < 10" using unat8(1) [of b] by (simp add: unat_div)
  then have "unat (b div 10 div 10 div 10) = 0" by (simp add: unat_div)
  then have "b div 10 div 10 div 10 = 0" by (simp add: unsigned_eq_0_iff)
  then show ?thesis
    using inv_digits.simps [of b] inv_digits.simps [of "b div 10"] inv_digits.simps [of "b div 10 div 10"] by simp
qed

lemma aton_digits_append:
  "\<forall>c\<in>set ds. isdigit c \<Longrightarrow>
   aton_digits base val (ds @ rest) = aton_digits base (foldl (\<lambda>v c. v * base + ucast (c - 0x30)) val ds) rest"
  by (induction ds arbitrary: val) simp_all

lemma aton_digits_stop: "rest = [] \<or> hd rest = 0x2e \<Longrightarrow> aton_digits base val rest = (val, rest)"
  by (cases rest) (auto simp: isdigit_def isxdigit_def in_range_def)

text \<open>An octet that \<open>inet_ntoa\<close> printed, followed by a dot or the end.\<close>

lemma aton_octet:
  assumes "rest = [] \<or> hd rest = 0x2e"
  shows "aton_parts parts (rev (inv_digits b) @ rest) =
    (if rest \<noteq> [] then if length parts \<ge> 3 then None else aton_parts (parts @ [ucast b]) (tl rest)
     else Some (parts, ucast b, rest))"
proof -
  let ?ds = "rev (inv_digits b)"
  obtain d ds where ds: "?ds = d # ds" using inv_digits_nonempty [of b] by (metis list.exhaust rev_is_Nil_conv)
  have d: "isdigit c" if "c \<in> set (d # ds)" for c using that inv_digits_isdigit [of c b] by (simp flip: ds)
  have "aton_digits (fst (aton_base (?ds @ rest))) 0 (snd (aton_base (?ds @ rest))) = (ucast b, rest)"
  proof (cases "d = 0x30")
    case True
    then have "last (inv_digits b) = 0x30" using ds by (metis hd_rev list.sel(1))
    then have b: "b = 0" by (rule inv_digits_lead)
    then have "?ds = [0x30]" using inv_digits.simps [of 0] by simp
    then have "aton_base (?ds @ rest) = (8, rest)" using assms by (auto simp: aton_base_def)
    then show ?thesis using aton_digits_stop [OF assms] b by simp
  next
    case False
    then have "aton_base (?ds @ rest) = (10, ?ds @ rest)" unfolding ds by (simp add: aton_base_def)
    then show ?thesis
      using aton_digits_append [of ?ds 10 0 rest] d aton_digits_stop [OF assms] inv_digits_value [of b] by (simp flip: ds)
  qed
  then show ?thesis using assms d [of d] unfolding aton_parts.simps [of parts "?ds @ rest"]
    by (cases "aton_base (?ds @ rest)") (auto simp: ds Let_def)
qed

lemma htonl_bytes: "htonl (ucast d OR push_bit 24 (ucast a) OR push_bit 16 (ucast b) OR push_bit 8 (ucast c)) = word32 [a, b, c, d]"
  for a b c d :: "8 word"
proof -
  have m: "(0xff :: 32 word) = mask 8" "(0xff00 :: 32 word) = push_bit 8 (mask 8)"
    "(0xff0000 :: 32 word) = push_bit 16 (mask 8)" "(0xff000000 :: 32 word) = push_bit 24 (mask 8)"
    by (simp_all add: mask_eq_exp_minus_1)
  show ?thesis
  proof (rule bit_word_eqI)
    fix n assume "n < LENGTH(32)"
    then consider "n < 8" | "8 \<le> n" "n < 16" | "16 \<le> n" "n < 24" | "24 \<le> n" "n < 32" by fastforce
    then show "bit (htonl (ucast d OR push_bit 24 (ucast a) OR push_bit 16 (ucast b) OR push_bit 8 (ucast c))) n = bit (word32 [a, b, c, d]) n"
      unfolding htonl_def m word32_def by cases (auto simp: bit_simps dest: bit_imp_le_length)
  qed
qed

text \<open>
  C24. Printing and reading an Internet address. For every address, \<open>inet_ntoa\<close> fits its buffer of 16
  characters with the terminating zero, and \<open>inet_aton\<close> and \<open>inet_addr\<close> of the text give the address
  back; the octets with a leading zero, which are read as octal, do not occur.
\<close>

theorem inet_ntoa_aton:
  "length (inet_ntoa addr) \<le> 15 \<and> inet_aton (inet_ntoa addr) = Some addr \<and> inet_addr (inet_ntoa addr) = addr"
proof -
  obtain a b c d where abcd: "bytes32 addr = [a, b, c, d]" by (simp add: bytes32_def)
  let ?t = "\<lambda>x. rev (inv_digits x)"
  have t: "inet_ntoa addr = ?t a @ 0x2e # ?t b @ 0x2e # ?t c @ 0x2e # ?t d"
    by (simp add: inet_ntoa_def abcd butlast_append)
  have p: "aton_parts [] (inet_ntoa addr) = Some ([ucast a, ucast b, ucast c], ucast d, [])"
    using aton_octet [of "[]" "[ucast a, ucast b, ucast c]" d] unfolding t by (simp add: aton_octet)
  have "ucast d \<le> (0xff :: 32 word)" using unat8(1) [of d] by (simp add: word_le_nat_alt unsigned_ucast_eq take_bit_eq_mod)
  then have "inet_aton (inet_ntoa addr) = Some (word32 [a, b, c, d])"
    unfolding inet_aton_def p by (simp add: htonl_bytes not_less)
  moreover have "word32 [a, b, c, d] = addr" using bytes32_word [of addr] by (simp add: abcd)
  moreover have "length (inet_ntoa addr) \<le> 15"
    using inv_digits_length [of a] inv_digits_length [of b] inv_digits_length [of c] inv_digits_length [of d] unfolding t by simp
  ultimately show ?thesis by (simp add: inet_addr_def)
qed

end
