(* ===== verification/Spec2Isabelle.thy ===== *)
theory Spec2Isabelle
  imports Machine Fork Spinlock ConsProps Pipe File Inet
begin

text \<open>
  Verification of JOS: an exokernel for x86 multiprocessors (\<open>kern/\<close>), a file server that runs in user
  mode (\<open>fs/\<close>), the library of user programs (\<open>lib/\<close>), and the network stack lwIP (\<open>net/lwip\<close>). All
  paths are relative to \<open>src/lab\<close>.

  \<^bold>\<open>The program.\<close> The kernel owns physical memory, page tables and environments (processes). User
  programs enter it by system calls, faults and interrupts; the kernel runs under one big lock and
  leaves by returning to the current environment or by switching to another one. Environments
  share pages and send messages. On top of that the user library implements copy-on-write
  \<open>fork\<close>, pipes and files; files are requests to the file server, which keeps the disk in
  a cache of pages that it faults in and writes back.

  \<^bold>\<open>Style of the model.\<close> C functions are HOL functions on an explicit state. A function that may stop
  returns a value of \<open>('s, 'a) res\<close>: \<open>Inr\<close> with the result and the new state, or \<open>Inl\<close> with
  the reason for which control does not come back (\<open>Panic\<close>, \<open>NullDeref\<close>, \<open>Running\<close> for a switch to
  an environment, \<open>Halted\<close>, \<open>InMonitor\<close>, \<open>Diverges\<close>, \<open>Spinning\<close>, \<open>Wild\<close> for an access whose effect C
  does not define, \<open>UserPanic\<close>) and the state at that point. Machine words keep their width and wrap.
  An uninitialised variable that the code reads is a field of the state. Pointers into arrays are
  indices; null is \<open>None\<close>. Physical memory is a function from page numbers and word indices
  to words, so that page tables, directories and the data of user programs live in one store and
  every aliasing between them is visible.

  \<^bold>\<open>Theories.\<close>
  \<^item> \<open>Prelude\<close>, \<open>Bytes\<close>, \<open>Ring\<close>: results and sequencing, bounded loops, linked lists in arrays, the locale
    \<open>trans_sys\<close> of transition systems with an invariant, bytes of words, the locale \<open>fifo\<close> of bounded
    queues.
  \<^item> \<open>Mmu\<close>, \<open>Pmap\<close>, \<open>Vm\<close>, \<open>AddrSpace\<close>, \<open>PageInit\<close>, \<open>UserMem\<close>: \<open>inc/mmu.h\<close>, \<open>inc/memlayout.h\<close> and \<open>kern/pmap.c\<close>.
    \<open>Pmap\<close> holds the operations. \<open>Vm\<close> states the invariant \<open>vm_inv\<close>: the free list is a chain of unreferenced
    pages, every reference count is the number of mappings of its page, page tables and
    directories are private and disjoint. \<open>AddrSpace\<close> has the contract, the locale \<open>address_space\<close> of finite
    maps from virtual pages to entries, interpreted as \<open>aspace\<close> on \<open>page_insert\<close> and \<open>page_remove\<close>. \<open>PageInit\<close> shows
    that booting establishes the invariant, \<open>UserMem\<close> what \<open>user_mem_check\<close> accepts.
  \<^item> \<open>Kern\<close>, \<open>Envs\<close>, \<open>Spaces\<close>, \<open>EnvIds\<close>, \<open>KInv\<close>, \<open>EnvProps\<close>: \<open>kern/env.c\<close>, \<open>kern/sched.c\<close>. The record \<open>kstate\<close> extends
    that of the page allocator. \<open>k_inv\<close> is the invariant of the whole kernel.
  \<^item> \<open>Console\<close>, \<open>Drivers\<close>, \<open>ConsProps\<close>: \<open>kern/console.c\<close>, \<open>kern/time.c\<close>, \<open>kern/e1000.c\<close>; the input ring is an
    interpretation of \<open>fifo\<close>, and the display never leaves its memory.
  \<^item> \<open>Syscall\<close>, \<open>SysInv\<close>, \<open>SysProps\<close>, \<open>SysErrs\<close>: \<open>kern/syscall.c\<close>. Every call keeps \<open>k_inv\<close>; a call only affects environments
    over which the caller has authority; the calls on address spaces and messages are specified on
    every branch; \<open>SysErrs\<close> has blocking, and where the code departs from its documentation.
  \<^item> \<open>Trap\<close>, \<open>UserAccess\<close>, \<open>TrapProps\<close>, \<open>Load\<close>, \<open>Machine\<close>: \<open>kern/trap.c\<close> and the ELF loader of \<open>kern/env.c\<close>. \<open>Machine\<close> composes
    the kernel with arbitrary user code, devices and other processors into the step relation \<open>kstep\<close>, whose
    reachable states satisfy \<open>k_inv\<close> by the interpretation \<open>machine\<close> of \<open>trans_sys\<close>.
  \<^item> \<open>Spinlock\<close>: \<open>kern/spinlock.c\<close>, one step per access to the lock; mutual exclusion for any number of
    processors, and the refinement to the atomic \<open>lock_kernel\<close> that the kernel model uses.
  \<^item> \<open>Contents\<close>, \<open>Fork\<close>: \<open>lib/fork.c\<close> and \<open>lib/pgfault.c\<close> as sequences of system calls and user accesses. \<open>Contents\<close>
    shows what system calls on address spaces leave in the pages; \<open>Fork\<close> that \<open>duppage\<close> makes a page
    read-only on both sides and that \<open>pgfault\<close> gives the faulting environment a private copy.
  \<^item> \<open>Pipe\<close>: \<open>lib/pipe.c\<close>, reader and writer as two processes that interleave access by access.
  \<^item> \<open>Bc\<close>, \<open>Fs\<close>, \<open>FsAlloc\<close>, \<open>FsFile\<close>, \<open>FsData\<close>, \<open>FsPath\<close>, \<open>FsMore\<close>: \<open>fs/bc.c\<close> and \<open>fs/fs.c\<close>. The invariants say that the
    cache agrees with the disk on clean blocks, that the blocks of a file are in use and distinct;
    the lemmas are about the allocation of blocks, reading back what was written, path
    resolution and synchronisation.
  \<^item> \<open>Serv\<close>, \<open>ServProps\<close>, \<open>File\<close>: \<open>fs/serv.c\<close> and \<open>lib/file.c\<close>: requests through the shared page, file identifiers, and
    the round trip of a write and a read from the client down to the cache.
  \<^item> \<open>Chksum\<close>, \<open>Inet\<close>: \<open>net/lwip/core/ipv4/inet_chksum.c\<close> and \<open>inet.c\<close>: the three checksum routines agree with
    the ones' complement sum and with each other, chains of buffers are summed as one packet,
    printed addresses read back.

  \<^bold>\<open>Bounds.\<close> Loops are structural recursion or functions with a termination measure, so they are total,
  apart from the printing loop of \<open>sys_cputs\<close>, which has fuel for \<open>2^32\<close> characters: after as many steps it
  has visited every address, so a run that is out of fuel really never ends, and is \<open>Diverges\<close>. Reference
  counts are 16 bits wide in the code; the theorems on mappings assume fewer than \<open>2^16\<close> mappings of one page
  (\<open>refs_ok\<close>, \<open>refs_room\<close>), which the code does not enforce. The theorem on pipes holds as long as the
  positions, signed 32-bit counters, do not overflow; that on the length of checksummed buffers for
  the 64 KB that the interface can express.

  \<^bold>\<open>Parameters.\<close> The disk, the devices and the memory detected at boot are parts of the state. User code
  is arbitrary: it may store to every page it can write and enter the kernel with arbitrary
  registers. Loaded programs satisfy \<open>image_ok\<close>, segments below \<open>UTOP\<close>, as the images
  linked into the kernel do.

  \<^bold>\<open>Not modelled.\<close> The boot loader, the assembly entry points and \<open>kern/init.c\<close>; self tests (\<open>check_page\<close> and its
  relatives, \<open>fs/test.c\<close>); \<open>mem_init\<close> as one function, since it interleaves these tests with loading control
  registers; device discovery and controllers (\<open>kern/pci.c\<close>, \<open>kern/lapic.c\<close>, \<open>kern/mpconfig.c\<close>, \<open>kern/kclock.c\<close>, \<open>kern/picirq.c\<close>),
  \<open>fs/ide.c\<close> and port I/O of the console: register accesses whose meaning is the hardware's; the monitor and
  \<open>kern/kdebug.c\<close>; formatted printing and \<open>lib/string.c\<close> beyond what callers use; of the user library
  \<open>fd.c\<close>, \<open>ipc.c\<close>, \<open>spawn.c\<close>, \<open>malloc.c\<close>, sockets and the console, of which the client calls appear as one
  exchange; the network server and the rest of lwIP, a third-party stack; the user programs, for
  which the machine has arbitrary user code. The translation lookaside buffer is the set
  of translations that were not invalidated; caches and the memory order of the processor are not
  modelled. Steps of kernel code are atomic under the big lock.
\<close>

end
